(* ===== verification/Prelude.thy ===== *)
theory Prelude
  imports Main "HOL-Library.Word" "HOL-Library.AList" "HOL-Library.Multiset"
begin

text \<open>
  Shared vocabulary of the development: the machine integers of the Go sources, byte slices and
  the big-endian primitives of \<open>encoding/binary\<close>, Go maps as association lists, sorting by a key,
  and the result type of fallible operations.

  \<^item> A Go map is an association list with distinct keys. A \<open>range\<close> loop visits the entries in list
    order; Go leaves that order open, and the statements about such loops hold for every order
    because they quantify over every list that represents the map.
  \<^item> A fallible operation returns \<open>Inl\<close> of its error or \<open>Inr\<close> of its result.
  \<^item> \<open>sort.Slice\<close> is \<open>sort_key\<close>: the two agree wherever the keys are distinct.
\<close>

unbundle bit_operations_syntax

type_synonym u8 = "8 word"
type_synonym u16 = "16 word"
type_synonym u32 = "32 word"
type_synonym u64 = "64 word"
type_synonym bytes = "u8 list"
type_synonym ('k, 'v) gomap = "('k \<times> 'v) list"

named_theorems wire \<open>facts that evaluate the readers of the wire formats on what the writers produce\<close>
named_theorems gomap \<open>lookup, size and key facts of Go maps\<close>

section \<open>Results\<close>

text \<open>Sequencing: \<open>if err != nil { return err }\<close>.\<close>

definition try_bind :: "'e + 'a \<Rightarrow> ('a \<Rightarrow> 'e + 'b) \<Rightarrow> 'e + 'b" where
  "try_bind r f = (case r of Inl e \<Rightarrow> Inl e | Inr x \<Rightarrow> f x)"

lemma try_bind_simps [simp]:
  "try_bind (Inl e) f = Inl e"
  "try_bind (Inr x) f = f x"
  by (simp_all add: try_bind_def)

lemma try_bind_Inr_iff:
  "try_bind r f = Inr y \<longleftrightarrow> (\<exists>x. r = Inr x \<and> f x = Inr y)"
  by (cases r) auto

lemma if_Inl_Inr_iff:
  "(if b then Inl e else r) = Inr y \<longleftrightarrow> \<not> b \<and> r = Inr y"
  by simp

lemmas result_Inr = try_bind_Inr_iff if_Inl_Inr_iff

section \<open>Big-endian integers\<close>

primrec be_enc :: "nat \<Rightarrow> 'a::len word \<Rightarrow> bytes" where
  "be_enc 0 x = []"
| "be_enc (Suc n) x = ucast (drop_bit (8 * n) x) # be_enc n x"

fun be_dec_from :: "'a::len word \<Rightarrow> bytes \<Rightarrow> 'a word" where
  "be_dec_from a [] = a"
| "be_dec_from a (b # bs) = be_dec_from (push_bit 8 a OR ucast b) bs"

abbreviation be_dec :: "bytes \<Rightarrow> 'a::len word" where
  "be_dec \<equiv> be_dec_from 0"

lemma length_be_enc [simp]: "length (be_enc n x) = n"
  by (induction n) auto

lemma be_byte_step:
  fixes a x :: "'a::len word"
  shows "push_bit (8 * n) (push_bit 8 a OR ucast (ucast (drop_bit (8 * n) x) :: u8)) OR take_bit (8 * n) x
       = push_bit (8 * Suc n) a OR take_bit (8 * Suc n) x"
  by (rule bit_word_eqI)
    (auto simp: bit_or_iff bit_push_bit_iff bit_take_bit_iff bit_drop_bit_eq bit_ucast_iff
        ac_simps)

lemma be_dec_from_be_enc:
  fixes a x :: "'a::len word"
  shows "be_dec_from a (be_enc n x) = push_bit (8 * n) a OR take_bit (8 * n) x"
proof (induction n arbitrary: a)
  case 0
  show ?case by simp
next
  case (Suc n)
  have "be_dec_from a (be_enc (Suc n) x)
      = push_bit (8 * n) (push_bit 8 a OR ucast (ucast (drop_bit (8 * n) x) :: u8)) OR take_bit (8 * n) x"
    by (simp only: be_enc.simps be_dec_from.simps Suc.IH)
  then show ?case by (simp only: be_byte_step)
qed

lemma be_roundtrip:
  fixes x :: "'a::len word"
  assumes "LENGTH('a) \<le> 8 * n"
  shows "be_dec (be_enc n x) = x"
  using assms by (simp add: be_dec_from_be_enc take_bit_word_eq_self)


text \<open>The encoding of a word that fills its bytes is onto: there are as many words as byte strings.\<close>

lemma be_enc_dec:
  assumes len: "LENGTH('a::len) = 8 * n" and bs: "length bs = n"
  shows "be_enc n (be_dec bs :: 'a word) = bs"
proof -
  have inj: "inj (be_enc n :: 'a word \<Rightarrow> bytes)"
    using be_roundtrip [where 'a = 'a and n = n] len by (intro inj_on_inverseI [where g = be_dec]) simp
  have "card (range (be_enc n :: 'a word \<Rightarrow> bytes)) = 2 ^ LENGTH('a)"
    using card_image [OF inj] by (simp add: card_word)
  moreover have "card {cs :: bytes. length cs = n} = 2 ^ (8 * n)"
    using card_lists_length_eq [of "UNIV :: u8 set" n] by (simp add: card_word power_mult)
  ultimately have card: "card (range (be_enc n :: 'a word \<Rightarrow> bytes)) = card {cs :: bytes. length cs = n}"
    using len by simp
  have "finite {cs :: bytes. length cs = n}"
    using finite_lists_length_eq [of "UNIV :: u8 set" n] by simp
  then have "range (be_enc n :: 'a word \<Rightarrow> bytes) = {cs. length cs = n}"
    by (rule card_subset_eq) (use card in auto)
  with bs obtain x :: "'a word" where "bs = be_enc n x" by blast
  then show ?thesis using be_roundtrip [of n x] len by simp
qed

text \<open>\<open>binary.Read\<close> of one fixed-width integer: \<open>None\<close> at the end of the input.\<close>

definition read_be :: "nat \<Rightarrow> bytes \<Rightarrow> ('a::len word \<times> bytes) option" where
  "read_be n bs = (if length bs < n then None else Some (be_dec (take n bs), drop n bs))"

lemma read_be_enc:
  fixes x :: "'a::len word"
  assumes "LENGTH('a) \<le> 8 * n"
  shows "read_be n (be_enc n x @ rest) = Some (x, rest)"
  using assms by (simp add: read_be_def be_roundtrip)

lemma read_be_fields [wire]:
  "read_be 1 (be_enc 1 (x8 :: u8) @ rest) = Some (x8, rest)"
  "read_be 2 (be_enc 2 (x16 :: u16) @ rest) = Some (x16, rest)"
  "read_be 4 (be_enc 4 (x32 :: u32) @ rest) = Some (x32, rest)"
  "read_be 8 (be_enc 8 (x64 :: u64) @ rest) = Some (x64, rest)"
  by (rule read_be_enc, simp)+

lemma read_be_SomeD:
  assumes "read_be n bs = Some (x :: 'a::len word, rest)" and "LENGTH('a) = 8 * n"
  shows "bs = be_enc n x @ rest"
  using assms be_enc_dec [of n "take n bs", where 'a = 'a]
  by (auto simp: read_be_def min_def split: if_splits)

text \<open>The slice expression \<open>bs[i:j]\<close> and a read of the integer stored there.\<close>

definition slice :: "nat \<Rightarrow> nat \<Rightarrow> 'a list \<Rightarrow> 'a list" where
  "slice i j bs = take (j - i) (drop i bs)"

abbreviation be_at :: "nat \<Rightarrow> nat \<Rightarrow> bytes \<Rightarrow> 'a::len word" where
  "be_at i j bs \<equiv> be_dec (slice i j bs)"

lemma slice_append_right:
  "length xs \<le> i \<Longrightarrow> slice i j (xs @ ys) = slice (i - length xs) (j - length xs) ys"
  by (simp add: slice_def)

lemma slice_append_left:
  "length xs = j \<Longrightarrow> slice 0 j (xs @ ys) = xs"
  by (simp add: slice_def)

lemma be_roundtrips [simp]:
  "be_dec (be_enc 1 (x8 :: u8)) = x8"
  "be_dec (be_enc 2 (x16 :: u16)) = x16"
  "be_dec (be_enc 4 (x32 :: u32)) = x32"
  "be_dec (be_enc 8 (x64 :: u64)) = x64"
  by (rule be_roundtrip, simp)+

lemma slice_drop: "i \<le> j \<Longrightarrow> drop i bs = slice i j bs @ drop j bs"
  by (simp add: slice_def) (metis append_take_drop_id drop_drop le_add_diff_inverse2)

lemma length_slice: "j \<le> length bs \<Longrightarrow> length (slice i j bs) = j - i"
  by (simp add: slice_def)

lemma be_enc_at:
  assumes "LENGTH('a::len) = 8 * (j - i)" "j \<le> length bs"
  shows "be_enc (j - i) (be_at i j bs :: 'a word) = slice i j bs"
  using assms by (intro be_enc_dec) (simp_all add: length_slice)

text \<open>One integer field of a packet: reading it at its place and writing it back gives its bytes.\<close>

lemma drop_be:
  assumes "LENGTH('a::len) = 8 * (j - i)" "i \<le> j" "j \<le> length bs"
  shows "drop i bs = be_enc (j - i) (be_at i j bs :: 'a word) @ drop j bs"
  using slice_drop [OF assms(2), of bs] be_enc_at [OF assms(1,3)] by simp

lemma drop_be_fields:
  "i + 1 \<le> length bs \<Longrightarrow> drop i bs = be_enc 1 (be_at i (i + 1) bs :: u8) @ drop (i + 1) bs"
  "i + 2 \<le> length bs \<Longrightarrow> drop i bs = be_enc 2 (be_at i (i + 2) bs :: u16) @ drop (i + 2) bs"
  "i + 4 \<le> length bs \<Longrightarrow> drop i bs = be_enc 4 (be_at i (i + 4) bs :: u32) @ drop (i + 4) bs"
  "i + 8 \<le> length bs \<Longrightarrow> drop i bs = be_enc 8 (be_at i (i + 8) bs :: u64) @ drop (i + 8) bs"
  using drop_be [of "i + 1" i bs, where 'a = 8] drop_be [of "i + 2" i bs, where 'a = 16]
    drop_be [of "i + 4" i bs, where 'a = 32] drop_be [of "i + 8" i bs, where 'a = 64]
  by (simp_all del: be_enc.simps)

lemma slice_update_other: "i < a \<or> b \<le> i \<Longrightarrow> slice a b (xs[i := x]) = slice a b xs"
  by (rule nth_equalityI) (auto simp: slice_def nth_list_update)

lemma slice_update_inside:
  assumes "a \<le> i" "i < b" "b \<le> length xs" "xs ! i \<noteq> x"
  shows "slice a b (xs[i := x]) \<noteq> slice a b xs"
proof
  assume "slice a b (xs[i := x]) = slice a b xs"
  then have "slice a b (xs[i := x]) ! (i - a) = slice a b xs ! (i - a)" by simp
  with assms show False by (simp add: slice_def)
qed

section \<open>Readers and writers\<close>

text \<open>A counted sequence: \<open>for i := 0; i < count; i++ { read one; append }\<close>.\<close>

fun read_n :: "(bytes \<Rightarrow> 'e + 'a \<times> bytes) \<Rightarrow> nat \<Rightarrow> bytes \<Rightarrow> 'e + 'a list \<times> bytes" where
  "read_n get 0 bs = Inr ([], bs)"
| "read_n get (Suc n) bs =
     try_bind (get bs) (\<lambda>(x, bs').
     try_bind (read_n get n bs') (\<lambda>(xs, bs''). Inr (x # xs, bs'')))"

text \<open>
  The contract between the writer and the reader of one item of a wire format: whatever follows,
  the reader returns the item and leaves the rest. A counted sequence inherits it.
\<close>

locale wire_format =
  fixes put :: "'a \<Rightarrow> bytes"
    and get :: "bytes \<Rightarrow> 'e + 'a \<times> bytes"
    and ok :: "'a \<Rightarrow> bool"
  assumes get_put: "ok x \<Longrightarrow> get (put x @ rest) = Inr (x, rest)"
begin

lemma read_n_concat:
  assumes "list_all ok xs" and "n = length xs"
  shows "read_n get n (concat (map put xs) @ rest) = Inr (xs, rest)"
  using assms
proof (induction xs arbitrary: n)
  case Nil
  then show ?case by simp
next
  case (Cons x xs)
  then show ?case by (simp add: get_put)
qed

lemma put_inj:
  assumes "ok x" "ok y" "put x @ rest = put y @ rest'"
  shows "x = y \<and> rest = rest'"
proof -
  have "Inr (x, rest) = get (put y @ rest')"
    using get_put [OF assms(1), of rest] assms(3) by metis
  also have "\<dots> = Inr (y, rest')"
    by (rule get_put [OF assms(2)])
  finally show ?thesis by simp
qed

end

text \<open>A format whose reader accepts only what the writer produces, and returns items of a known
  shape.\<close>

locale exact_wire_format = wire_format +
  fixes shape :: "'a \<Rightarrow> bool"
  assumes put_get: "get bs = Inr (x, rest) \<Longrightarrow> bs = put x @ rest \<and> shape x"
begin

lemma read_n_exact:
  assumes "read_n get n bs = Inr (xs, rest)"
  shows "bs = concat (map put xs) @ rest \<and> length xs = n \<and> list_all shape xs"
  using assms
proof (induction n arbitrary: bs xs)
  case 0
  then show ?case by simp
next
  case (Suc n)
  then obtain x bs' ys where "get bs = Inr (x, bs')" "read_n get n bs' = Inr (ys, rest)" "xs = x # ys"
    by (auto simp: try_bind_Inr_iff)
  then show ?case using put_get [of bs x bs'] Suc.IH [of bs' ys] by simp
qed

end

section \<open>Go maps\<close>

abbreviation gokeys :: "('k, 'v) gomap \<Rightarrow> 'k list" where
  "gokeys m \<equiv> map fst m"

abbreviation govalues :: "('k, 'v) gomap \<Rightarrow> 'v list" where
  "govalues m \<equiv> map snd m"

definition gomap_ok :: "('k, 'v) gomap \<Rightarrow> bool" where
  "gomap_ok m = distinct (gokeys m)"

lemma gomap_ok_Nil [simp]: "gomap_ok []"
  by (simp add: gomap_ok_def)

lemma gomap_ok_update [simp]: "gomap_ok m \<Longrightarrow> gomap_ok (AList.update k v m)"
  by (simp add: gomap_ok_def distinct_update)

lemma gomap_ok_delete [simp]: "gomap_ok m \<Longrightarrow> gomap_ok (AList.delete k m)"
  by (simp add: gomap_ok_def distinct_delete)

lemma gomap_ok_filter [simp]: "gomap_ok m \<Longrightarrow> gomap_ok (filter P m)"
  by (simp add: gomap_ok_def distinct_map_filter)

lemma gomap_get_update [gomap, simp]: "map_of (AList.update k v m) = (map_of m)(k \<mapsto> v)"
  by (rule update_conv')

lemma gomap_get_delete [gomap, simp]: "map_of (AList.delete k m) = (map_of m)(k := None)"
  by (rule delete_conv')

lemma gomap_card: "gomap_ok m \<Longrightarrow> card (dom (map_of m)) = length m"
  unfolding gomap_ok_def dom_map_of_conv_image_fst
  by (metis distinct_card length_map list.set_map)

lemma gomap_length_update:
  assumes "gomap_ok m"
  shows "length (AList.update k v m) = (if k \<in> dom (map_of m) then length m else Suc (length m))"
proof -
  have "length (AList.update k v m) = card (insert k (dom (map_of m)))"
    using gomap_card [OF gomap_ok_update [OF assms], of k v] by simp
  then show ?thesis
    using gomap_card [OF assms] by (simp add: card_insert_if finite_dom_map_of)
qed

lemma gomap_length_delete:
  assumes "gomap_ok m"
  shows "length (AList.delete k m) = (if k \<in> dom (map_of m) then length m - 1 else length m)"
proof -
  have "length (AList.delete k m) = card (dom (map_of m) - {k})"
    using gomap_card [OF gomap_ok_delete [OF assms], of k] by (simp add: gomap_get_delete)
  then show ?thesis
    using gomap_card [OF assms] by (simp add: finite_dom_map_of)
qed

lemma gomap_values_iff:
  "gomap_ok m \<Longrightarrow> v \<in> set (govalues m) \<longleftrightarrow> (\<exists>k. map_of m k = Some v)"
  unfolding gomap_ok_def by (force dest: map_of_SomeD)

text \<open>Building a map from a list of keyed values: later entries overwrite earlier ones.\<close>

definition gomap_by :: "('v \<Rightarrow> 'k) \<Rightarrow> 'v list \<Rightarrow> ('k, 'v) gomap" where
  "gomap_by key xs = fold (\<lambda>x m. AList.update (key x) x m) xs []"

lemma gomap_by_fold_ok: "gomap_ok m \<Longrightarrow> gomap_ok (fold (\<lambda>x m. AList.update (key x) x m) xs m)"
  by (induction xs arbitrary: m) auto

lemma gomap_ok_by [simp]: "gomap_ok (gomap_by key xs)"
  by (simp add: gomap_by_def gomap_by_fold_ok)

lemma gomap_by_fold_get:
  "map_of (fold (\<lambda>x m. AList.update (key x) x m) xs m) k =
     (case map_of (rev (map (\<lambda>x. (key x, x)) xs)) k of None \<Rightarrow> map_of m k | Some v \<Rightarrow> Some v)"
  by (induction xs arbitrary: m) (auto simp: map_add_def split: option.splits)

lemma map_of_rev_distinct:
  assumes "distinct (map fst ps)"
  shows "map_of (rev ps) = map_of ps"
proof
  fix k
  have "map_of (rev ps) k = Some v \<longleftrightarrow> map_of ps k = Some v" for v
    using assms by (simp add: rev_map [symmetric])
  then show "map_of (rev ps) k = map_of ps k"
    by (cases "map_of ps k"; cases "map_of (rev ps) k") auto
qed

lemma gomap_by_get:
  assumes "distinct (map key xs)"
  shows "map_of (gomap_by key xs) = map_of (map (\<lambda>x. (key x, x)) xs)"
proof -
  have d: "distinct (map fst (map (\<lambda>x. (key x, x)) xs))"
    using assms by (simp add: comp_def)
  have "map_of (gomap_by key xs) k = map_of (rev (map (\<lambda>x. (key x, x)) xs)) k" for k
    by (simp add: gomap_by_def gomap_by_fold_get split: option.splits)
  then show ?thesis
    using map_of_rev_distinct [OF d] by (simp add: fun_eq_iff)
qed

section \<open>Sorting\<close>

text \<open>A list with strictly sorted keys is the only sorted arrangement of its elements.\<close>

lemma sort_key_strict:
  assumes "mset xs = mset ys" and "sorted (map f ys)" and "distinct (map f ys)"
  shows "sort_key f xs = ys"
proof -
  have "set xs = set ys" using assms(1) by (rule mset_eq_setD)
  then have "inj_on f (set xs)" using assms(3) by (simp add: distinct_map)
  then show ?thesis using assms(1,2) sort_key_inj_key_eq by metis
qed

lemma mset_eq_of_set_eq:
  "distinct xs \<Longrightarrow> distinct ys \<Longrightarrow> set xs = set ys \<Longrightarrow> mset xs = mset ys"
  by (simp add: set_eq_iff_mset_eq_distinct)

lemma sorted_distinct_keys_Cons:
  fixes f :: "'a \<Rightarrow> 'b::linorder"
  shows "sorted (map f (x # xs)) \<and> distinct (map f (x # xs)) \<longleftrightarrow>
     (\<forall>y \<in> set xs. f x < f y) \<and> sorted (map f xs) \<and> distinct (map f xs)"
  by (auto simp: order.strict_iff_order)

text \<open>
  Insertion sort as the sources write it: element \<open>i\<close> is swapped down while it is smaller than its
  left neighbour. The sorted prefix is kept reversed, so its right end is the head of the list.
\<close>

fun sift_down :: "('a \<Rightarrow> 'k::linorder) \<Rightarrow> 'a \<Rightarrow> 'a list \<Rightarrow> 'a list" where
  "sift_down key x [] = [x]"
| "sift_down key x (y # ys) = (if key x < key y then y # sift_down key x ys else x # y # ys)"

definition insertion_sort :: "('a \<Rightarrow> 'k::linorder) \<Rightarrow> 'a list \<Rightarrow> 'a list" where
  "insertion_sort key xs = rev (foldl (\<lambda>prefix x. sift_down key x prefix) [] xs)"

lemma mset_sift_down [simp]: "mset (sift_down key x ys) = add_mset x (mset ys)"
  by (induction ys) auto

lemma set_sift_down [simp]: "set (sift_down key x ys) = insert x (set ys)"
  by (induction ys) auto

lemma sorted_sift_down:
  "sorted (map key (rev ys)) \<Longrightarrow> sorted (map key (rev (sift_down key x ys)))"
  by (induction ys) (auto simp: sorted_append not_less intro: order_trans less_imp_le)

lemma sift_down_filter:
  assumes "sorted (map key (rev ys))"
  shows "filter (\<lambda>z. k = key z) (sift_down key x ys) = filter (\<lambda>z. k = key z) (x # ys)"
  using assms
  by (induction ys) (fastforce simp: sorted_append filter_empty_conv)+

lemma insertion_sort_spec: "insertion_sort key xs = sort_key key xs"
proof -
  let ?p = "\<lambda>xs. foldl (\<lambda>prefix x. sift_down key x prefix) [] xs"
  have p: "mset (?p xs) = mset xs \<and> sorted (map key (rev (?p xs)))
      \<and> (\<forall>k. filter (\<lambda>z. k = key z) (rev (?p xs)) = filter (\<lambda>z. k = key z) xs)"
  proof (induction xs rule: rev_induct)
    case (snoc x xs)
    then have s: "sorted (map key (rev (?p xs)))" by blast
    have "filter (\<lambda>z. k = key z) (rev (?p (xs @ [x]))) = filter (\<lambda>z. k = key z) (xs @ [x])" for k
      using snoc sift_down_filter [OF s, of k x] by (simp add: rev_filter [symmetric])
    with snoc sorted_sift_down [OF s, of x] show ?case by simp
  qed simp
  show ?thesis unfolding insertion_sort_def
    by (rule properties_for_sort_key [symmetric]) (use p in auto)
qed

end
