(* ===== verification/Repl_Types.thy ===== *)
theory Repl_Types
  imports Prelude
begin

text \<open>
  The data model of the replication package (\<open>src/replication/types.go\<close>) and the snapshot
  normaliser (\<open>src/replication/snapshot.go\<close>).

  Enumerations whose values come off the wire (frame kind, object and component operation, lane,
  priority) stay 8-bit words with named constants, because a decoder can produce any byte.
  Go's \<open>int\<close> is \<open>int\<close>: it counts list lengths and configured limits only.
  An error wrapped with \<open>fmt.Errorf("%w: ...")\<close> is the error it wraps.
\<close>

section \<open>Errors\<close>

datatype repl_error =
    ErrInvalidObjectRef | ErrObjectNotFound | ErrObjectLimit | ErrComponentLimit
  | ErrComponentTooLarge | ErrFrameTooLarge | ErrInvalidFrame | ErrBaselineMismatch
  | ErrSnapshotNotFound | ErrSessionNotFound | ErrInvalidAck | ErrInvalidControl
  | ErrPreparedFrameStale | ErrInvalidDatagram | ErrChecksumMismatch | ErrFragmentLimit
  | ErrReassemblyCapacity | ErrTransportMissing | ErrReplicatorClosed | ErrSchemaFrozen
  | ErrInvalidLOD
  | ErrAlreadyRegistered \<comment> \<open>the unnamed errors of a second registration\<close>
  | ErrExternal nat \<comment> \<open>an error of a transport, a projector or a selector\<close>

type_synonym 'a result = "repl_error + 'a"

section \<open>Limits\<close>

record Limits =
  MaxObjects :: int
  MaxComponentsPerObject :: int
  MaxComponentBytes :: int
  MaxFrameBytes :: int
  MaxDatagramBytes :: int
  MaxFragments :: int
  MaxInflightFrames :: int

abbreviation (input) ProtocolVersion :: u16 where "ProtocolVersion \<equiv> 1"
abbreviation (input) DefaultSnapshotRateHz :: u8 where "DefaultSnapshotRateHz \<equiv> 20"
abbreviation (input) DefaultMaxDatagram :: int where "DefaultMaxDatagram \<equiv> 1200"

definition DefaultLimits :: Limits where
  "DefaultLimits = \<lparr>MaxObjects = 100, MaxComponentsPerObject = 64, MaxComponentBytes = 65536,
     MaxFrameBytes = 4194304, MaxDatagramBytes = DefaultMaxDatagram, MaxFragments = 64,
     MaxInflightFrames = 32\<rparr>"

definition orDefault :: "int \<Rightarrow> int \<Rightarrow> int" where
  "orDefault x d = (if x \<le> 0 then d else x)"

definition normalizeLimits :: "Limits \<Rightarrow> Limits" where
  "normalizeLimits l =
     \<lparr>MaxObjects = orDefault (MaxObjects l) (MaxObjects DefaultLimits),
      MaxComponentsPerObject = orDefault (MaxComponentsPerObject l) (MaxComponentsPerObject DefaultLimits),
      MaxComponentBytes = orDefault (MaxComponentBytes l) (MaxComponentBytes DefaultLimits),
      MaxFrameBytes = orDefault (MaxFrameBytes l) (MaxFrameBytes DefaultLimits),
      MaxDatagramBytes = orDefault (MaxDatagramBytes l) (MaxDatagramBytes DefaultLimits),
      MaxFragments = orDefault (MaxFragments l) (MaxFragments DefaultLimits),
      MaxInflightFrames = orDefault (MaxInflightFrames l) (MaxInflightFrames DefaultLimits)\<rparr>"

definition limits_pos :: "Limits \<Rightarrow> bool" where
  "limits_pos l \<longleftrightarrow> 0 < MaxObjects l \<and> 0 < MaxComponentsPerObject l \<and> 0 < MaxComponentBytes l
     \<and> 0 < MaxFrameBytes l \<and> 0 < MaxDatagramBytes l \<and> 0 < MaxFragments l \<and> 0 < MaxInflightFrames l"

lemma normalizeLimits_pos: "limits_pos (normalizeLimits l)"
  by (simp add: limits_pos_def normalizeLimits_def orDefault_def DefaultLimits_def)

lemma normalizeLimits_id: "limits_pos l \<Longrightarrow> normalizeLimits l = l"
  by (simp add: limits_pos_def normalizeLimits_def orDefault_def)

lemma normalizeLimits_idem [simp]: "normalizeLimits (normalizeLimits l) = normalizeLimits l"
  by (rule normalizeLimits_id [OF normalizeLimits_pos])

section \<open>Policies\<close>

abbreviation (input) LaneState :: u8 where "LaneState \<equiv> 1"
abbreviation (input) LaneStatic :: u8 where "LaneStatic \<equiv> 4"
abbreviation (input) ReliabilityUnreliableLatest :: u8 where "ReliabilityUnreliableLatest \<equiv> 1"
abbreviation (input) ReliabilityReliableOrdered :: u8 where "ReliabilityReliableOrdered \<equiv> 3"
abbreviation (input) PriorityCosmetic :: u8 where "PriorityCosmetic \<equiv> 1"
abbreviation (input) PriorityCritical :: u8 where "PriorityCritical \<equiv> 5"
abbreviation (input) VisibilityPublic :: u8 where "VisibilityPublic \<equiv> 1"
abbreviation (input) VisibilityCustom :: u8 where "VisibilityCustom \<equiv> 5"
abbreviation (input) CodecRaw :: u8 where "CodecRaw \<equiv> 1"
abbreviation (input) CodecGeneratedDelta :: u8 where "CodecGeneratedDelta \<equiv> 3"

record ReplicationPolicy =
  pol_Lane :: u8
  pol_Reliability :: u8
  pol_Priority :: u8
  pol_MaxRateHz :: u8
  pol_Visibility :: u8
  pol_Codec :: u8

definition policy_validate :: "ReplicationPolicy \<Rightarrow> unit result" where
  "policy_validate p =
     (if pol_Lane p < LaneState \<or> pol_Lane p > LaneStatic then Inl ErrInvalidFrame
      else if pol_Reliability p < ReliabilityUnreliableLatest
        \<or> pol_Reliability p > ReliabilityReliableOrdered then Inl ErrInvalidFrame
      else if pol_Priority p < PriorityCosmetic \<or> pol_Priority p > PriorityCritical then Inl ErrInvalidFrame
      else if pol_Visibility p < VisibilityPublic \<or> pol_Visibility p > VisibilityCustom then Inl ErrInvalidFrame
      else if pol_Codec p < CodecRaw \<or> pol_Codec p > CodecGeneratedDelta then Inl ErrInvalidFrame
      else Inr ())"

section \<open>Objects, components and snapshots\<close>

datatype ObjectRef = ObjectRef (RefID: u16) (RefGeneration: u16)

definition Valid :: "ObjectRef \<Rightarrow> bool" where
  "Valid r \<longleftrightarrow> RefID r \<noteq> 0 \<and> RefGeneration r \<noteq> 0"

definition Less :: "ObjectRef \<Rightarrow> ObjectRef \<Rightarrow> bool" where
  "Less r other =
     (if RefID r \<noteq> RefID other then RefID r < RefID other
      else RefGeneration r < RefGeneration other)"

text \<open>\<open>Less\<close> is a strict linear order, so the library's sorting lemmas apply to references.\<close>

instantiation ObjectRef :: linorder
begin

definition less_ObjectRef :: "ObjectRef \<Rightarrow> ObjectRef \<Rightarrow> bool" where
  "less_ObjectRef r s = Less r s"

definition less_eq_ObjectRef :: "ObjectRef \<Rightarrow> ObjectRef \<Rightarrow> bool" where
  "less_eq_ObjectRef r s \<longleftrightarrow> r = s \<or> Less r s"

instance
proof
  fix x y z :: ObjectRef
  show "x < y \<longleftrightarrow> x \<le> y \<and> \<not> y \<le> x"
    unfolding less_ObjectRef_def less_eq_ObjectRef_def Less_def by (cases x; cases y) auto
  show "x \<le> x"
    by (simp add: less_eq_ObjectRef_def)
  show "x \<le> y \<Longrightarrow> y \<le> z \<Longrightarrow> x \<le> z"
    unfolding less_eq_ObjectRef_def Less_def by (cases x; cases y; cases z) (auto split: if_splits)
  show "x \<le> y \<Longrightarrow> y \<le> x \<Longrightarrow> x = y"
    unfolding less_eq_ObjectRef_def Less_def by (cases x; cases y) (auto split: if_splits)
  show "x \<le> y \<or> y \<le> x"
    unfolding less_eq_ObjectRef_def Less_def by (cases x; cases y) auto
qed

end

record SnapshotMeta =
  meta_RoomID :: u64
  meta_Epoch :: u32
  meta_Tick :: u32
  meta_SchemaVersion :: u16

definition meta_validate :: "SnapshotMeta \<Rightarrow> unit result" where
  "meta_validate m =
     (if meta_RoomID m = 0 \<or> meta_Epoch m = 0 \<or> meta_Tick m = 0 \<or> meta_SchemaVersion m = 0
      then Inl ErrInvalidFrame else Inr ())"

record ComponentState =
  cs_TypeID :: u16
  cs_SchemaVersion :: u16
  cs_Data :: bytes

record ObjectState =
  os_Ref :: ObjectRef
  os_Archetype :: u16
  os_Components :: "ComponentState list"

record Snapshot =
  sn_Meta :: SnapshotMeta
  sn_Objects :: "ObjectState list"

abbreviation sn_Tick :: "Snapshot \<Rightarrow> u32" where
  "sn_Tick s \<equiv> meta_Tick (sn_Meta s)"

abbreviation (input) FrameFull :: u8 where "FrameFull \<equiv> 1"
abbreviation (input) FrameDelta :: u8 where "FrameDelta \<equiv> 2"
abbreviation (input) ObjectCreate :: u8 where "ObjectCreate \<equiv> 1"
abbreviation (input) ObjectUpdate :: u8 where "ObjectUpdate \<equiv> 2"
abbreviation (input) ObjectRemove :: u8 where "ObjectRemove \<equiv> 3"
abbreviation (input) ComponentSet :: u8 where "ComponentSet \<equiv> 1"
abbreviation (input) ComponentRemove :: u8 where "ComponentRemove \<equiv> 2"

record ComponentDelta =
  cd_Operation :: u8
  cd_TypeID :: u16
  cd_SchemaVersion :: u16
  cd_Data :: bytes

record ObjectDelta =
  od_Operation :: u8
  od_Ref :: ObjectRef
  od_Archetype :: u16
  od_Components :: "ComponentDelta list"

record DeltaFrame =
  fr_Meta :: SnapshotMeta
  fr_Kind :: u8
  fr_BaseTick :: u32
  fr_Objects :: "ObjectDelta list"

type_synonym SessionID = u64

record SessionInfo =
  si_ID :: SessionID
  si_OwnerID :: u64
  si_TeamID :: u64
  si_Roles :: u64

lemma record_eta [simp]:
  "\<lparr>cs_TypeID = cs_TypeID c, cs_SchemaVersion = cs_SchemaVersion c, cs_Data = cs_Data c\<rparr> = c"
  "\<lparr>os_Ref = os_Ref obj, os_Archetype = os_Archetype obj, os_Components = os_Components obj\<rparr> = obj"
  by simp_all

section \<open>The snapshot normaliser\<close>

definition cloneObjects :: "ObjectState list \<Rightarrow> ObjectState list" where
  "cloneObjects objects = map (\<lambda>obj. \<lparr>os_Ref = os_Ref obj, os_Archetype = os_Archetype obj,
     os_Components = map (\<lambda>c. \<lparr>cs_TypeID = cs_TypeID c, cs_SchemaVersion = cs_SchemaVersion c,
       cs_Data = cs_Data c\<rparr>) (os_Components obj)\<rparr>) objects"

definition Snapshot_Clone :: "Snapshot \<Rightarrow> Snapshot" where
  "Snapshot_Clone s = \<lparr>sn_Meta = sn_Meta s, sn_Objects = cloneObjects (sn_Objects s)\<rparr>"

text \<open>The inner loop of \<open>NewSnapshot\<close> over the sorted components of one object: \<open>prev\<close> is
  \<open>lastType\<close> once \<open>j > 0\<close>, and \<open>est\<close> is \<open>estimated\<close>.\<close>

fun check_components :: "Limits \<Rightarrow> u16 option \<Rightarrow> int \<Rightarrow> ComponentState list \<Rightarrow> int result" where
  "check_components l prev est [] = Inr est"
| "check_components l prev est (c # cs) =
     (if cs_TypeID c = 0 \<or> cs_SchemaVersion c = 0 then Inl ErrInvalidFrame
      else if prev = Some (cs_TypeID c) then Inl ErrInvalidFrame
      else if int (length (cs_Data c)) > MaxComponentBytes l then Inl ErrComponentTooLarge
      else if est + (12 + int (length (cs_Data c))) > MaxFrameBytes l then Inl ErrFrameTooLarge
      else check_components l (Some (cs_TypeID c)) (est + (12 + int (length (cs_Data c)))) cs)"

text \<open>The outer loop over the sorted objects; it returns them with sorted components.\<close>

fun check_objects :: "Limits \<Rightarrow> ObjectRef option \<Rightarrow> int \<Rightarrow> ObjectState list \<Rightarrow> ObjectState list result" where
  "check_objects l prev est [] = Inr []"
| "check_objects l prev est (obj # objs) =
     (if \<not> Valid (os_Ref obj) \<or> os_Archetype obj = 0 then Inl ErrInvalidObjectRef
      else if prev = Some (os_Ref obj) then Inl ErrInvalidFrame
      else if int (length (os_Components obj)) > MaxComponentsPerObject l then Inl ErrComponentLimit
      else try_bind (check_components l None (est + 9) (sort_key cs_TypeID (os_Components obj))) (\<lambda>est'.
           try_bind (check_objects l (Some (os_Ref obj)) est' objs) (\<lambda>objs'.
           Inr (obj\<lparr>os_Components := sort_key cs_TypeID (os_Components obj)\<rparr> # objs'))))"

definition NewSnapshot :: "SnapshotMeta \<Rightarrow> ObjectState list \<Rightarrow> Limits \<Rightarrow> Snapshot result" where
  "NewSnapshot meta objects limits =
     try_bind (meta_validate meta) (\<lambda>_.
       let l = normalizeLimits limits in
       if int (length objects) > MaxObjects l then Inl ErrObjectLimit
       else try_bind (check_objects l None 32 (sort_key os_Ref (cloneObjects objects))) (\<lambda>objs.
            Inr \<lparr>sn_Meta = meta, sn_Objects = objs\<rparr>))"


subsection \<open>What the normaliser guarantees\<close>

lemma cloneObjects_id [simp]: "cloneObjects objs = objs"
  by (simp add: cloneObjects_def map_idI)

lemma Snapshot_Clone_id [simp]: "Snapshot_Clone s = s"
  by (simp add: Snapshot_Clone_def)

definition component_ok :: "Limits \<Rightarrow> ComponentState \<Rightarrow> bool" where
  "component_ok l c \<longleftrightarrow> cs_TypeID c \<noteq> 0 \<and> cs_SchemaVersion c \<noteq> 0
     \<and> int (length (cs_Data c)) \<le> MaxComponentBytes l"

definition strict_keys :: "('a \<Rightarrow> 'b::linorder) \<Rightarrow> 'a list \<Rightarrow> bool" where
  "strict_keys f xs \<longleftrightarrow> sorted (map f xs) \<and> distinct (map f xs)"

definition object_ok :: "Limits \<Rightarrow> ObjectState \<Rightarrow> bool" where
  "object_ok l obj \<longleftrightarrow> Valid (os_Ref obj) \<and> os_Archetype obj \<noteq> 0
     \<and> int (length (os_Components obj)) \<le> MaxComponentsPerObject l
     \<and> strict_keys cs_TypeID (os_Components obj)
     \<and> list_all (component_ok l) (os_Components obj)"

definition components_size :: "ComponentState list \<Rightarrow> int" where
  "components_size cs = (\<Sum>c \<leftarrow> cs. 12 + int (length (cs_Data c)))"

fun size_ok :: "Limits \<Rightarrow> int \<Rightarrow> ObjectState list \<Rightarrow> bool" where
  "size_ok l est [] = True"
| "size_ok l est (obj # objs) =
     ((os_Components obj \<noteq> [] \<longrightarrow> est + 9 + components_size (os_Components obj) \<le> MaxFrameBytes l)
      \<and> size_ok l (est + 9 + components_size (os_Components obj)) objs)"

text \<open>The canonical form: references and component types strictly ascending, every reference,
  archetype, type and schema version set, every limit kept.\<close>

definition snapshot_ok :: "Limits \<Rightarrow> Snapshot \<Rightarrow> bool" where
  "snapshot_ok l s \<longleftrightarrow> meta_validate (sn_Meta s) = Inr ()
     \<and> int (length (sn_Objects s)) \<le> MaxObjects l
     \<and> strict_keys os_Ref (sn_Objects s)
     \<and> list_all (object_ok l) (sn_Objects s)
     \<and> size_ok l 32 (sn_Objects s)"

definition canon_object :: "ObjectState \<Rightarrow> ObjectState" where
  "canon_object obj = obj\<lparr>os_Components := sort_key cs_TypeID (os_Components obj)\<rparr>"

lemma canon_object_simps [simp]:
  "os_Ref (canon_object obj) = os_Ref obj"
  "os_Archetype (canon_object obj) = os_Archetype obj"
  "os_Components (canon_object obj) = sort_key cs_TypeID (os_Components obj)"
  by (simp_all add: canon_object_def)

lemma canon_object_id: "object_ok l obj \<Longrightarrow> canon_object obj = obj"
  by (simp add: canon_object_def object_ok_def strict_keys_def sort_key_id_if_sorted)

lemma components_size_Cons [simp]:
  "components_size [] = 0"
  "components_size (c # cs) = 12 + int (length (cs_Data c)) + components_size cs"
  by (simp_all add: components_size_def)

lemma components_size_nonneg: "0 \<le> components_size cs"
  by (induction cs) auto

abbreviation opt_cons :: "'a option \<Rightarrow> 'a list \<Rightarrow> 'a list" where
  "opt_cons a xs \<equiv> (case a of None \<Rightarrow> xs | Some x \<Rightarrow> x # xs)"

lemma check_components_Inr:
  "check_components l prev est cs = Inr est' \<longleftrightarrow>
     list_all (component_ok l) cs \<and> distinct_adj (opt_cons prev (map cs_TypeID cs))
     \<and> est' = est + components_size cs
     \<and> (cs \<noteq> [] \<longrightarrow> est + components_size cs \<le> MaxFrameBytes l)"
proof (induction cs arbitrary: prev est)
  case Nil
  then show ?case by (auto split: option.splits)
next
  case (Cons c cs)
  have "0 \<le> components_size cs" by (rule components_size_nonneg)
  then show ?case
    using Cons [of "Some (cs_TypeID c)" "est + (12 + int (length (cs_Data c)))"]
    by (cases cs; cases prev) (auto simp: component_ok_def)
qed

lemma sorted_distinct_adj:
  fixes xs :: "'a::linorder list"
  shows "sorted xs \<Longrightarrow> distinct_adj xs \<longleftrightarrow> distinct xs"
  by (induction xs rule: induct_list012) force+

lemma strict_keys_iff_adj:
  "sorted (map f xs) \<Longrightarrow> strict_keys f xs \<longleftrightarrow> distinct_adj (map f xs)"
  by (simp add: strict_keys_def sorted_distinct_adj)

lemma object_ok_canon:
  "object_ok l (canon_object obj) \<longleftrightarrow> Valid (os_Ref obj) \<and> os_Archetype obj \<noteq> 0
     \<and> int (length (os_Components obj)) \<le> MaxComponentsPerObject l
     \<and> distinct_adj (map cs_TypeID (sort_key cs_TypeID (os_Components obj)))
     \<and> list_all (component_ok l) (os_Components obj)"
  by (simp add: object_ok_def strict_keys_iff_adj list_all_iff)

lemma check_objects_Inr:
  "check_objects l prev est objs = Inr objs' \<longleftrightarrow>
     list_all (object_ok l) (map canon_object objs) \<and> distinct_adj (opt_cons prev (map os_Ref objs))
     \<and> size_ok l est (map canon_object objs) \<and> objs' = map canon_object objs"
proof (induction objs arbitrary: prev est objs')
  case Nil
  then show ?case by (auto split: option.splits)
next
  case (Cons obj objs)
  let ?cs = "sort_key cs_TypeID (os_Components obj)"
  have adj: "distinct_adj (opt_cons prev (map os_Ref (obj # objs))) \<longleftrightarrow>
      prev \<noteq> Some (os_Ref obj) \<and> distinct_adj (opt_cons (Some (os_Ref obj)) (map os_Ref objs))"
    by (cases prev) auto
  have "check_objects l prev est (obj # objs) = Inr objs' \<longleftrightarrow>
      Valid (os_Ref obj) \<and> os_Archetype obj \<noteq> 0 \<and> prev \<noteq> Some (os_Ref obj)
      \<and> int (length (os_Components obj)) \<le> MaxComponentsPerObject l
      \<and> (\<exists>est'. check_components l None (est + 9) ?cs = Inr est'
          \<and> (\<exists>rest. check_objects l (Some (os_Ref obj)) est' objs = Inr rest
              \<and> objs' = canon_object obj # rest))"
    by (simp add: try_bind_Inr_iff canon_object_def eq_commute [of objs'])
  also have "\<dots> \<longleftrightarrow> object_ok l (canon_object obj) \<and> prev \<noteq> Some (os_Ref obj)
      \<and> (?cs \<noteq> [] \<longrightarrow> est + 9 + components_size ?cs \<le> MaxFrameBytes l)
      \<and> list_all (object_ok l) (map canon_object objs)
      \<and> distinct_adj (opt_cons (Some (os_Ref obj)) (map os_Ref objs))
      \<and> size_ok l (est + 9 + components_size ?cs) (map canon_object objs)
      \<and> objs' = canon_object obj # map canon_object objs"
    unfolding check_components_Inr Cons object_ok_canon by (auto simp: list_all_iff)
  finally show ?case unfolding adj by (auto simp: add.assoc)
qed

text \<open>\<open>NewSnapshot\<close> succeeds exactly on the inputs whose canonical form meets every limit, and then
  returns that canonical form, whatever order the objects and components came in.\<close>

lemma NewSnapshot_Inr:
  "NewSnapshot meta objs limits = Inr s \<longleftrightarrow>
     snapshot_ok (normalizeLimits limits) s \<and> sn_Meta s = meta
     \<and> sn_Objects s = map canon_object (sort_key os_Ref objs)"
proof -
  have refs: "map (os_Ref \<circ> canon_object) xs = map os_Ref xs" for xs
    by simp
  have len: "length (map canon_object (sort_key os_Ref objs)) = length objs"
    by simp
  have strict: "strict_keys os_Ref (map canon_object (sort_key os_Ref objs))
      \<longleftrightarrow> distinct_adj (map os_Ref (sort_key os_Ref objs))"
    by (simp add: strict_keys_def comp_def sorted_distinct_adj)
  show ?thesis
    by (cases s) (auto simp: NewSnapshot_def Let_def result_Inr check_objects_Inr snapshot_ok_def
        strict len simp del: length_map)
qed


section \<open>Properties\<close>

text \<open>
  C31. A snapshot is a canonical form: what NewSnapshot accepts is sorted strictly by reference
  and by component type within the limits, and handing over the same objects in any other order
  gives the very same snapshot, so two servers with equal states publish equal snapshots.
\<close>

theorem NewSnapshot_canonical:
  assumes "NewSnapshot meta objs limits = Inr s"
  shows "snapshot_ok (normalizeLimits limits) s \<and> sn_Meta s = meta
    \<and> mset (sn_Objects s) = mset (map canon_object objs)
    \<and> (\<forall>objs'. mset objs' = mset objs \<longrightarrow> NewSnapshot meta objs' limits = Inr s)"
proof -
  have s: "snapshot_ok (normalizeLimits limits) s" "sn_Meta s = meta"
    "sn_Objects s = map canon_object (sort_key os_Ref objs)"
    using assms unfolding NewSnapshot_Inr by blast+
  have "map os_Ref (sn_Objects s) = map os_Ref (sort_key os_Ref objs)"
    unfolding s(3) by simp
  then have d: "distinct (map os_Ref (sort_key os_Ref objs))"
    using s(1) unfolding snapshot_ok_def strict_keys_def by metis
  have "sort_key os_Ref objs' = sort_key os_Ref objs" if "mset objs' = mset objs" for objs'
    using that d by (intro sort_key_strict) simp_all
  moreover have "mset (sn_Objects s) = mset (map canon_object objs)"
    unfolding s(3) by simp
  ultimately show ?thesis using s unfolding NewSnapshot_Inr by metis
qed

theorem NewSnapshot_canonical_witness:
  "NewSnapshot \<lparr>meta_RoomID = 9, meta_Epoch = 1, meta_Tick = 3, meta_SchemaVersion = 1\<rparr>
     [\<lparr>os_Ref = ObjectRef 1 1, os_Archetype = 5, os_Components = []\<rparr>,
      \<lparr>os_Ref = ObjectRef 2 1, os_Archetype = 5, os_Components = []\<rparr>] DefaultLimits
   = NewSnapshot \<lparr>meta_RoomID = 9, meta_Epoch = 1, meta_Tick = 3, meta_SchemaVersion = 1\<rparr>
     [\<lparr>os_Ref = ObjectRef 2 1, os_Archetype = 5, os_Components = []\<rparr>,
      \<lparr>os_Ref = ObjectRef 1 1, os_Archetype = 5, os_Components = []\<rparr>] DefaultLimits"
    (is "NewSnapshot ?m ?o _ = NewSnapshot ?m ?o' _")
proof -
  have "\<not> isl (NewSnapshot ?m ?o DefaultLimits)" by code_simp
  then have "NewSnapshot ?m ?o DefaultLimits = Inr (projr (NewSnapshot ?m ?o DefaultLimits))" by simp
  from NewSnapshot_canonical [OF this] have "mset ?o' = mset ?o \<Longrightarrow>
      NewSnapshot ?m ?o' DefaultLimits = Inr (projr (NewSnapshot ?m ?o DefaultLimits))" by blast
  with \<open>NewSnapshot ?m ?o DefaultLimits = _\<close> show ?thesis by simp
qed

end
