(* ===== verification/Repl_Codec.thy ===== *)
theory Repl_Codec
  imports Repl_Types
begin

text \<open>
  The frame codec, \<open>src/replication/codec.go\<close>: the validator both directions share, the encoder
  with its running size check, and the decoder with its bounds. A reader holds the bytes not read
  yet; \<open>reader.Len()\<close> is their number.
\<close>

section \<open>Validation\<close>

fun validate_components :: "Limits \<Rightarrow> u8 \<Rightarrow> u16 list \<Rightarrow> ComponentDelta list \<Rightarrow> unit result" where
  "validate_components l objop seen [] = Inr ()"
| "validate_components l objop seen (c # cs) =
     (if cd_TypeID c = 0 \<or> cd_Operation c < ComponentSet \<or> cd_Operation c > ComponentRemove
      then Inl ErrInvalidFrame
      else if cd_TypeID c \<in> set seen then Inl ErrInvalidFrame
      else if objop = ObjectCreate \<and> cd_Operation c \<noteq> ComponentSet then Inl ErrInvalidFrame
      else if cd_Operation c = ComponentSet \<and> cd_SchemaVersion c = 0 then Inl ErrInvalidFrame
      else if cd_Operation c = ComponentRemove \<and> (cd_SchemaVersion c \<noteq> 0 \<or> length (cd_Data c) \<noteq> 0)
      then Inl ErrInvalidFrame
      else if int (length (cd_Data c)) > MaxComponentBytes l then Inl ErrComponentTooLarge
      else validate_components l objop (cd_TypeID c # seen) cs)"

fun validate_objects :: "Limits \<Rightarrow> u8 \<Rightarrow> ObjectRef list \<Rightarrow> ObjectDelta list \<Rightarrow> unit result" where
  "validate_objects l kind seen [] = Inr ()"
| "validate_objects l kind seen (obj # objs) =
     (if \<not> Valid (od_Ref obj) then Inl ErrInvalidObjectRef
      else if od_Operation obj < ObjectCreate \<or> od_Operation obj > ObjectRemove then Inl ErrInvalidFrame
      else if od_Ref obj \<in> set seen then Inl ErrInvalidFrame
      else if kind = FrameFull \<and> od_Operation obj \<noteq> ObjectCreate then Inl ErrInvalidFrame
      else if od_Operation obj = ObjectCreate \<and> od_Archetype obj = 0 then Inl ErrInvalidObjectRef
      else if od_Operation obj = ObjectRemove \<and> length (od_Components obj) > 0 then Inl ErrInvalidFrame
      else if int (length (od_Components obj)) > MaxComponentsPerObject l * 2 then Inl ErrComponentLimit
      else try_bind (validate_components l (od_Operation obj) [] (od_Components obj)) (\<lambda>_.
           validate_objects l kind (od_Ref obj # seen) objs))"

definition validateDeltaFrame :: "DeltaFrame \<Rightarrow> Limits \<Rightarrow> unit result" where
  "validateDeltaFrame f l =
     try_bind (meta_validate (fr_Meta f)) (\<lambda>_.
       if fr_Kind f \<noteq> FrameFull \<and> fr_Kind f \<noteq> FrameDelta then Inl ErrInvalidFrame
       else if fr_Kind f = FrameFull \<and> fr_BaseTick f \<noteq> 0 then Inl ErrInvalidFrame
       else if fr_Kind f = FrameDelta \<and> (fr_BaseTick f = 0 \<or> fr_BaseTick f \<ge> meta_Tick (fr_Meta f))
       then Inl ErrBaselineMismatch
       else if int (length (fr_Objects f)) > MaxObjects l * 2 then Inl ErrObjectLimit
       else validate_objects l (fr_Kind f) [] (fr_Objects f))"

section \<open>Encoding\<close>

abbreviation (input) frameMagic :: u32 where "frameMagic \<equiv> 0x43525031"

definition put_component :: "ComponentDelta \<Rightarrow> bytes" where
  "put_component c = be_enc 1 (cd_Operation c) @ be_enc 2 (cd_TypeID c) @ be_enc 2 (cd_SchemaVersion c)
     @ be_enc 4 (of_nat (length (cd_Data c)) :: u32) @ cd_Data c"

definition put_object_header :: "ObjectDelta \<Rightarrow> bytes" where
  "put_object_header obj = be_enc 1 (od_Operation obj) @ be_enc 2 (RefID (od_Ref obj))
     @ be_enc 2 (RefGeneration (od_Ref obj)) @ be_enc 2 (od_Archetype obj)
     @ be_enc 2 (of_nat (length (od_Components obj)) :: u16)"

definition put_frame_header :: "DeltaFrame \<Rightarrow> bytes" where
  "put_frame_header f = be_enc 4 frameMagic @ be_enc 2 ProtocolVersion @ be_enc 1 (fr_Kind f)
     @ be_enc 1 (0 :: u8) @ be_enc 8 (meta_RoomID (fr_Meta f)) @ be_enc 4 (meta_Epoch (fr_Meta f))
     @ be_enc 4 (meta_Tick (fr_Meta f)) @ be_enc 4 (fr_BaseTick f)
     @ be_enc 2 (meta_SchemaVersion (fr_Meta f)) @ be_enc 2 (of_nat (length (fr_Objects f)) :: u16)"

fun encode_components :: "Limits \<Rightarrow> bytes \<Rightarrow> ComponentDelta list \<Rightarrow> bytes result" where
  "encode_components l buf [] = Inr buf"
| "encode_components l buf (c # cs) =
     (if int (length (buf @ put_component c)) > MaxFrameBytes l then Inl ErrFrameTooLarge
      else encode_components l (buf @ put_component c) cs)"

fun encode_objects :: "Limits \<Rightarrow> bytes \<Rightarrow> ObjectDelta list \<Rightarrow> bytes result" where
  "encode_objects l buf [] = Inr buf"
| "encode_objects l buf (obj # objs) =
     (if int (length (od_Components obj)) > 65535 then Inl ErrComponentLimit
      else try_bind (encode_components l (buf @ put_object_header obj) (od_Components obj)) (\<lambda>buf'.
           encode_objects l buf' objs))"

definition EncodeFrame :: "DeltaFrame \<Rightarrow> Limits \<Rightarrow> bytes result" where
  "EncodeFrame f limits =
     (let l = normalizeLimits limits in
      try_bind (validateDeltaFrame f l) (\<lambda>_.
        if int (length (fr_Objects f)) > 65535 then Inl ErrObjectLimit
        else encode_objects l (put_frame_header f) (fr_Objects f)))"

section \<open>Decoding\<close>

definition rd :: "nat \<Rightarrow> bytes \<Rightarrow> ('a::len word \<times> bytes) result" where
  "rd n bs = (case read_be n bs of None \<Rightarrow> Inl ErrInvalidFrame | Some p \<Rightarrow> Inr p)"

definition get_component :: "Limits \<Rightarrow> bytes \<Rightarrow> (ComponentDelta \<times> bytes) result" where
  "get_component l bs =
     try_bind (rd 1 bs) (\<lambda>(op, bs).
     try_bind (rd 2 bs) (\<lambda>(ty, bs).
     try_bind (rd 2 bs) (\<lambda>(ver, bs).
     try_bind (rd 4 bs) (\<lambda>(len :: u32, bs).
       if len > word_of_int (MaxComponentBytes l) \<or> unat len > length bs then Inl ErrComponentTooLarge
       else Inr (\<lparr>cd_Operation = op, cd_TypeID = ty, cd_SchemaVersion = ver,
                  cd_Data = take (unat len) bs\<rparr>, drop (unat len) bs)))))"

definition get_object :: "Limits \<Rightarrow> bytes \<Rightarrow> (ObjectDelta \<times> bytes) result" where
  "get_object l bs =
     try_bind (rd 1 bs) (\<lambda>(op, bs).
     try_bind (rd 2 bs) (\<lambda>(rid, bs).
     try_bind (rd 2 bs) (\<lambda>(gen, bs).
     try_bind (rd 2 bs) (\<lambda>(arch, bs).
     try_bind (rd 2 bs) (\<lambda>(count :: u16, bs).
       if int (unat count) > MaxComponentsPerObject l * 2 then Inl ErrComponentLimit
       else try_bind (read_n (get_component l) (unat count) bs) (\<lambda>(cs, bs).
            Inr (\<lparr>od_Operation = op, od_Ref = ObjectRef rid gen, od_Archetype = arch,
                  od_Components = cs\<rparr>, bs)))))))"

definition DecodeFrame :: "bytes \<Rightarrow> Limits \<Rightarrow> DeltaFrame result" where
  "DecodeFrame data limits =
     (let l = normalizeLimits limits in
      if length data = 0 \<or> int (length data) > MaxFrameBytes l then Inl ErrFrameTooLarge
      else
        try_bind (rd 4 data) (\<lambda>(magic :: u32, bs).
        try_bind (rd 2 bs) (\<lambda>(protocol :: u16, bs).
        try_bind (rd 1 bs) (\<lambda>(kind, bs).
        try_bind (rd 1 bs) (\<lambda>(reserved :: u8, bs).
        try_bind (rd 8 bs) (\<lambda>(room, bs).
        try_bind (rd 4 bs) (\<lambda>(epoch, bs).
        try_bind (rd 4 bs) (\<lambda>(tick, bs).
        try_bind (rd 4 bs) (\<lambda>(base, bs).
        try_bind (rd 2 bs) (\<lambda>(schema, bs).
        try_bind (rd 2 bs) (\<lambda>(objectCount :: u16, bs).
          if magic \<noteq> frameMagic \<or> protocol \<noteq> ProtocolVersion \<or> reserved \<noteq> 0 then Inl ErrInvalidFrame
          else if int (unat objectCount) > MaxObjects l * 2 then Inl ErrObjectLimit
          else try_bind (read_n (get_object l) (unat objectCount) bs) (\<lambda>(objs, bs).
            if length bs \<noteq> 0 then Inl ErrInvalidFrame
            else
              let f = \<lparr>fr_Meta = \<lparr>meta_RoomID = room, meta_Epoch = epoch, meta_Tick = tick,
                                  meta_SchemaVersion = schema\<rparr>,
                       fr_Kind = kind, fr_BaseTick = base, fr_Objects = objs\<rparr>
              in try_bind (validateDeltaFrame f l) (\<lambda>_. Inr f)))))))))))))"


section \<open>Reader and writer agree\<close>

lemma rd_fields [wire]:
  "rd 1 (be_enc 1 (x8 :: u8) @ rest) = Inr (x8, rest)"
  "rd 2 (be_enc 2 (x16 :: u16) @ rest) = Inr (x16, rest)"
  "rd 4 (be_enc 4 (x32 :: u32) @ rest) = Inr (x32, rest)"
  "rd 8 (be_enc 8 (x64 :: u64) @ rest) = Inr (x64, rest)"
  by (simp_all add: rd_def wire del: be_enc.simps One_nat_def)

lemma rd_Inr:
  fixes x :: "'a::len word"
  assumes "LENGTH('a) = 8 * n"
  shows "rd n bs = Inr (x, rest) \<longleftrightarrow> bs = be_enc n x @ rest"
  using read_be_SomeD [of n bs x rest, OF _ assms] read_be_enc [of n x rest] assms
  by (auto simp: rd_def split: option.splits)

text \<open>The limits a peer must keep for lengths to survive the 32-bit length field.\<close>

definition wire_limits :: "Limits \<Rightarrow> bool" where
  "wire_limits l \<longleftrightarrow> MaxComponentBytes l < 2 ^ 32 \<and> 0 < MaxComponentBytes l"

definition component_wire_ok :: "Limits \<Rightarrow> ComponentDelta \<Rightarrow> bool" where
  "component_wire_ok l c \<longleftrightarrow> wire_limits l \<and> int (length (cd_Data c)) \<le> MaxComponentBytes l"

lemma length_fits:
  assumes "wire_limits l"
  shows "(len :: u32) \<le> word_of_int (MaxComponentBytes l) \<longleftrightarrow> int (unat len) \<le> MaxComponentBytes l"
proof -
  have "uint (word_of_int (MaxComponentBytes l) :: u32) = MaxComponentBytes l"
    using assms by (simp add: wire_limits_def uint_word_of_int)
  then show ?thesis by (simp add: word_le_def)
qed

interpretation component_wire: exact_wire_format put_component "get_component l" "component_wire_ok l"
  "\<lambda>c. length (cd_Data c) < 2 ^ 32" for l
proof
  fix c rest
  assume ok: "component_wire_ok l c"
  then have wl: "wire_limits l" and n: "length (cd_Data c) < 2 ^ 32"
    and le: "int (length (cd_Data c)) \<le> MaxComponentBytes l"
    by (auto simp: component_wire_ok_def wire_limits_def)
  have "unat (of_nat (length (cd_Data c)) :: u32) = length (cd_Data c)"
    using n by (simp add: unat_of_nat)
  with le show "get_component l (put_component c @ rest) = Inr (c, rest)"
    using length_fits [OF wl, of "of_nat (length (cd_Data c))"]
    by (simp add: get_component_def put_component_def wire not_less del: be_enc.simps One_nat_def)
next
  fix bs c rest
  assume "get_component l bs = Inr (c, rest)"
  moreover have "unat (len :: u32) < 2 ^ 32" for len
    using unsigned_less [of len, where 'a = nat] by simp
  ultimately show "bs = put_component c @ rest \<and> length (cd_Data c) < 2 ^ 32"
    by (auto simp: get_component_def put_component_def rd_Inr result_Inr
        split: if_splits simp del: be_enc.simps One_nat_def)
qed

definition put_object :: "ObjectDelta \<Rightarrow> bytes" where
  "put_object obj = put_object_header obj @ concat (map put_component (od_Components obj))"

definition object_wire_ok :: "Limits \<Rightarrow> ObjectDelta \<Rightarrow> bool" where
  "object_wire_ok l obj \<longleftrightarrow> list_all (component_wire_ok l) (od_Components obj)
     \<and> length (od_Components obj) \<le> 65535
     \<and> int (length (od_Components obj)) \<le> MaxComponentsPerObject l * 2"

lemma u16_length [wire]:
  assumes "n \<le> 65535"
  shows "unat (of_nat n :: u16) = n" and "uint (of_nat n :: u16) = int n"
  using assms by (simp_all add: unat_of_nat uint_nat)

lemma u16_max: "unat (x :: u16) \<le> 65535"
  using unsigned_less [of x, where 'a = nat] by simp

interpretation object_wire: exact_wire_format put_object "get_object l" "object_wire_ok l"
  "\<lambda>obj. length (od_Components obj) \<le> 65535" for l
proof
  fix obj rest
  assume ok: "object_wire_ok l obj"
  then show "get_object l (put_object obj @ rest) = Inr (obj, rest)"
    by (simp add: object_wire_ok_def get_object_def put_object_def put_object_header_def wire
        not_less component_wire.read_n_concat del: be_enc.simps One_nat_def)
next
  fix bs obj rest
  assume "get_object l bs = Inr (obj, rest)"
  then show "bs = put_object obj @ rest \<and> length (od_Components obj) \<le> 65535"
    by (auto simp: get_object_def put_object_def put_object_header_def rd_Inr result_Inr u16_max
        dest!: component_wire.read_n_exact split: if_splits simp del: be_enc.simps One_nat_def)
qed

section \<open>Encoding as one concatenation\<close>

lemma encode_components_Inr:
  "encode_components l buf cs = Inr out \<longleftrightarrow>
     out = buf @ concat (map put_component cs)
     \<and> (cs \<noteq> [] \<longrightarrow> int (length out) \<le> MaxFrameBytes l)"
proof (induction cs arbitrary: buf)
  case Nil
  then show ?case by auto
next
  case (Cons c cs)
  show ?case
    by (cases "cs = []") (auto simp: Cons if_Inl_Inr_iff)
qed

definition put_frame :: "DeltaFrame \<Rightarrow> bytes" where
  "put_frame f = put_frame_header f @ concat (map put_object (fr_Objects f))"

lemma encode_objects_Inr:
  assumes "encode_objects l buf objs = Inr out"
  shows "out = buf @ concat (map put_object objs)
     \<and> list_all (\<lambda>obj. length (od_Components obj) \<le> 65535) objs"
  using assms
proof (induction objs arbitrary: buf)
  case Nil
  then show ?case by simp
next
  case (Cons obj objs)
  then obtain buf' where "\<not> 65535 < length (od_Components obj)"
    "encode_components l (buf @ put_object_header obj) (od_Components obj) = Inr buf'"
    "encode_objects l buf' objs = Inr out"
    by (auto simp: result_Inr)
  then show ?case
    using Cons.IH [of buf'] by (simp add: encode_components_Inr put_object_def)
qed

lemma encode_objects_fits:
  assumes "list_all (\<lambda>obj. length (od_Components obj) \<le> 65535) objs"
    and "int (length (buf @ concat (map put_object objs))) \<le> MaxFrameBytes l"
  shows "encode_objects l buf objs = Inr (buf @ concat (map put_object objs))"
  using assms
proof (induction objs arbitrary: buf)
  case Nil
  then show ?case by simp
next
  case (Cons obj objs)
  have "encode_components l (buf @ put_object_header obj) (od_Components obj) = Inr (buf @ put_object obj)"
    using Cons.prems(2) by (simp add: encode_components_Inr put_object_def)
  with Cons show ?case by (simp add: not_less)
qed


section \<open>What the validator accepts\<close>

definition component_delta_ok :: "Limits \<Rightarrow> u8 \<Rightarrow> ComponentDelta \<Rightarrow> bool" where
  "component_delta_ok l objop c \<longleftrightarrow> cd_TypeID c \<noteq> 0
     \<and> (cd_Operation c = ComponentSet \<and> cd_SchemaVersion c \<noteq> 0
        \<or> cd_Operation c = ComponentRemove \<and> cd_SchemaVersion c = 0 \<and> cd_Data c = []
          \<and> objop \<noteq> ObjectCreate)
     \<and> int (length (cd_Data c)) \<le> MaxComponentBytes l"

definition object_delta_ok :: "Limits \<Rightarrow> u8 \<Rightarrow> ObjectDelta \<Rightarrow> bool" where
  "object_delta_ok l kind obj \<longleftrightarrow> Valid (od_Ref obj)
     \<and> od_Operation obj \<in> {ObjectCreate, ObjectUpdate, ObjectRemove}
     \<and> (kind = FrameFull \<longrightarrow> od_Operation obj = ObjectCreate)
     \<and> (od_Operation obj = ObjectCreate \<longrightarrow> od_Archetype obj \<noteq> 0)
     \<and> (od_Operation obj = ObjectRemove \<longrightarrow> od_Components obj = [])
     \<and> int (length (od_Components obj)) \<le> MaxComponentsPerObject l * 2
     \<and> list_all (component_delta_ok l (od_Operation obj)) (od_Components obj)
     \<and> distinct (map cd_TypeID (od_Components obj))"

lemma op_ranges:
  fixes x :: u8
  shows "x < 1 \<or> 2 < x \<longleftrightarrow> x \<noteq> 1 \<and> x \<noteq> 2"
    and "x < 1 \<or> 3 < x \<longleftrightarrow> x \<noteq> 1 \<and> x \<noteq> 2 \<and> x \<noteq> 3"
  by (simp add: word_less_nat_alt word_unat_eq_iff; arith)+

lemma validate_components_Inr:
  "validate_components l objop seen cs = Inr u \<longleftrightarrow>
     list_all (component_delta_ok l objop) cs \<and> distinct (map cd_TypeID cs)
     \<and> set seen \<inter> set (map cd_TypeID cs) = {}"
proof (induction cs arbitrary: seen)
  case Nil
  then show ?case by simp
next
  case (Cons c cs)
  have "validate_components l objop seen (c # cs) = Inr u \<longleftrightarrow>
      component_delta_ok l objop c \<and> cd_TypeID c \<notin> set seen
      \<and> validate_components l objop (cd_TypeID c # seen) cs = Inr u"
    unfolding validate_components.simps if_Inl_Inr_iff component_delta_ok_def op_ranges by auto
  then show ?case unfolding Cons by auto
qed

lemma validate_objects_Inr:
  "validate_objects l kind seen objs = Inr u \<longleftrightarrow>
     list_all (object_delta_ok l kind) objs \<and> distinct (map od_Ref objs)
     \<and> set seen \<inter> set (map od_Ref objs) = {}"
proof (induction objs arbitrary: seen)
  case Nil
  then show ?case by simp
next
  case (Cons obj objs)
  have "validate_objects l kind seen (obj # objs) = Inr u \<longleftrightarrow>
      object_delta_ok l kind obj \<and> od_Ref obj \<notin> set seen
      \<and> validate_objects l kind (od_Ref obj # seen) objs = Inr u"
    unfolding validate_objects.simps result_Inr object_delta_ok_def op_ranges validate_components_Inr
    by auto
  then show ?case unfolding Cons by auto
qed

definition frame_ok :: "Limits \<Rightarrow> DeltaFrame \<Rightarrow> bool" where
  "frame_ok l f \<longleftrightarrow> meta_validate (fr_Meta f) = Inr ()
     \<and> (fr_Kind f = FrameFull \<and> fr_BaseTick f = 0
        \<or> fr_Kind f = FrameDelta \<and> fr_BaseTick f \<noteq> 0 \<and> fr_BaseTick f < meta_Tick (fr_Meta f))
     \<and> int (length (fr_Objects f)) \<le> MaxObjects l * 2
     \<and> list_all (object_delta_ok l (fr_Kind f)) (fr_Objects f)
     \<and> distinct (map od_Ref (fr_Objects f))"

lemma validateDeltaFrame_Inr: "validateDeltaFrame f l = Inr u \<longleftrightarrow> frame_ok l f"
  unfolding validateDeltaFrame_def frame_ok_def result_Inr validate_objects_Inr by auto

lemma frame_ok_validate: "frame_ok l f \<Longrightarrow> validateDeltaFrame f l = Inr ()"
  by (simp add: validateDeltaFrame_Inr)

lemma frame_ok_wire:
  assumes "frame_ok l f" "wire_limits l"
    "list_all (\<lambda>obj. length (od_Components obj) \<le> 65535) (fr_Objects f)"
  shows "list_all (object_wire_ok l) (fr_Objects f)"
  using assms
  by (auto simp: frame_ok_def list_all_iff object_delta_ok_def object_wire_ok_def
      component_wire_ok_def component_delta_ok_def)

section \<open>Round trips\<close>

lemma EncodeFrame_Inr:
  assumes "EncodeFrame f limits = Inr out"
  shows "out = put_frame f \<and> frame_ok (normalizeLimits limits) f \<and> length (fr_Objects f) \<le> 65535
    \<and> list_all (\<lambda>obj. length (od_Components obj) \<le> 65535) (fr_Objects f)"
  using assms
  by (auto simp: EncodeFrame_def Let_def result_Inr validateDeltaFrame_Inr put_frame_def
      dest: encode_objects_Inr)

lemma decode_put_frame:
  assumes "frame_ok (normalizeLimits limits) f" "wire_limits (normalizeLimits limits)"
    and "length (fr_Objects f) \<le> 65535"
    and "list_all (\<lambda>obj. length (od_Components obj) \<le> 65535) (fr_Objects f)"
    and "int (length (put_frame f)) \<le> MaxFrameBytes (normalizeLimits limits)"
  shows "DecodeFrame (put_frame f) limits = Inr f"
proof -
  let ?l = "normalizeLimits limits"
  have "int (length (fr_Objects f)) \<le> MaxObjects ?l * 2"
    using assms(1) by (simp add: frame_ok_def)
  moreover have eta: "\<lparr>fr_Meta = \<lparr>meta_RoomID = meta_RoomID (fr_Meta f), meta_Epoch = meta_Epoch (fr_Meta f),
      meta_Tick = meta_Tick (fr_Meta f), meta_SchemaVersion = meta_SchemaVersion (fr_Meta f)\<rparr>,
      fr_Kind = fr_Kind f, fr_BaseTick = fr_BaseTick f, fr_Objects = fr_Objects f\<rparr> = f"
    by (cases f; cases "fr_Meta f") simp
  moreover have "length (put_frame f) \<noteq> 0"
    by (simp add: put_frame_def put_frame_header_def)
  moreover have "list_all (object_wire_ok ?l) (fr_Objects f)"
    by (rule frame_ok_wire) fact+
  ultimately show ?thesis
    using assms object_wire.read_n_concat [of ?l "fr_Objects f" "length (fr_Objects f)" "[]"]
    by (simp add: DecodeFrame_def Let_def put_frame_def put_frame_header_def wire not_less
        eta frame_ok_validate del: be_enc.simps One_nat_def length_greater_0_conv)
qed

lemma DecodeFrame_Inr:
  assumes "DecodeFrame data limits = Inr f"
  shows "data = put_frame f \<and> frame_ok (normalizeLimits limits) f \<and> length (fr_Objects f) \<le> 65535
    \<and> list_all (\<lambda>obj. length (od_Components obj) \<le> 65535) (fr_Objects f)
    \<and> int (length data) \<le> MaxFrameBytes (normalizeLimits limits)"
  using assms
  by (clarsimp simp: DecodeFrame_def Let_def result_Inr rd_Inr validateDeltaFrame_Inr put_frame_def
      put_frame_header_def u16_max split: if_splits simp del: be_enc.simps One_nat_def
      dest!: object_wire.read_n_exact)

lemma encode_put_frame:
  assumes "frame_ok (normalizeLimits limits) f" "length (fr_Objects f) \<le> 65535"
    and "list_all (\<lambda>obj. length (od_Components obj) \<le> 65535) (fr_Objects f)"
    and "int (length (put_frame f)) \<le> MaxFrameBytes (normalizeLimits limits)"
  shows "EncodeFrame f limits = Inr (put_frame f)"
  using assms encode_objects_fits [of "fr_Objects f" "put_frame_header f" "normalizeLimits limits"]
  by (simp add: EncodeFrame_def Let_def frame_ok_validate put_frame_def not_less)

lemma encode_objects_removes:
  "list_all (\<lambda>obj. od_Components obj = []) objs
    \<Longrightarrow> encode_objects l buf objs = Inr (buf @ concat (map put_object objs))"
  by (induction objs arbitrary: buf) (simp_all add: put_object_def)

section \<open>Properties\<close>

text \<open>
  C11. A frame that \<open>EncodeFrame\<close> accepts is decoded by \<open>DecodeFrame\<close>, under the same limits, to
  the same frame, when the encoding keeps the frame limit and component lengths fit their 32-bit
  field.
\<close>

theorem frame_roundtrip:
  assumes "EncodeFrame f limits = Inr data"
    and "wire_limits (normalizeLimits limits)"
    and "int (length data) \<le> MaxFrameBytes (normalizeLimits limits)"
  shows "DecodeFrame data limits = Inr f"
  using EncodeFrame_Inr [OF assms(1)] decode_put_frame [of limits f] assms(2,3) by simp

definition ex_wire_frame :: DeltaFrame where
  "ex_wire_frame =
     \<lparr>fr_Meta = \<lparr>meta_RoomID = 9, meta_Epoch = 1, meta_Tick = 5, meta_SchemaVersion = 1\<rparr>,
      fr_Kind = FrameDelta, fr_BaseTick = 4,
      fr_Objects = [\<lparr>od_Operation = ObjectCreate, od_Ref = ObjectRef 2 1, od_Archetype = 7,
                      od_Components = [\<lparr>cd_Operation = ComponentSet, cd_TypeID = 4,
                                        cd_SchemaVersion = 1, cd_Data = [1, 2, 3]\<rparr>]\<rparr>,
                    \<lparr>od_Operation = ObjectRemove, od_Ref = ObjectRef 3 1, od_Archetype = 7,
                      od_Components = []\<rparr>]\<rparr>"

definition ex_wire_bytes :: bytes where
  "ex_wire_bytes = [0x43, 0x52, 0x50, 0x31, 0, 1, 2, 0, 0, 0, 0, 0, 0, 0, 0, 9, 0, 0, 0, 1, 0, 0, 0, 5,
     0, 0, 0, 4, 0, 1, 0, 2, 1, 0, 2, 0, 1, 0, 7, 0, 1, 1, 0, 4, 0, 1, 0, 0, 0, 3, 1, 2, 3,
     3, 0, 3, 0, 1, 0, 7, 0, 0]"

theorem frame_roundtrip_witness: "DecodeFrame ex_wire_bytes DefaultLimits = Inr ex_wire_frame"
  by (rule frame_roundtrip; code_simp)

text \<open>
  C16. The decoder is exact: bytes it accepts are the encoding of the frame it returns, that frame
  passes the validator, and encoding it again gives the same bytes. So no two byte strings decode
  to the same frame, and nothing invalid enters through the wire.
\<close>

theorem decode_exact:
  assumes "DecodeFrame data limits = Inr f"
  shows "EncodeFrame f limits = Inr data \<and> validateDeltaFrame f (normalizeLimits limits) = Inr ()"
  using DecodeFrame_Inr [OF assms] encode_put_frame [of limits f]
  by (auto simp: validateDeltaFrame_Inr)

theorem decode_exact_witness: "EncodeFrame ex_wire_frame DefaultLimits = Inr ex_wire_bytes"
proof -
  have "DecodeFrame ex_wire_bytes DefaultLimits = Inr ex_wire_frame" by code_simp
  from decode_exact [OF this] show ?thesis by simp
qed

text \<open>
  C37. The encoder measures the frame only while it writes components: a frame whose objects carry
  none, such as a delta that only removes, is encoded at any length, and the decoder with the same
  limits then refuses it.
\<close>

theorem removal_frame_unchecked:
  assumes "validateDeltaFrame f (normalizeLimits limits) = Inr ()" "length (fr_Objects f) \<le> 65535"
    and "list_all (\<lambda>obj. od_Components obj = []) (fr_Objects f)"
  shows "\<exists>data. EncodeFrame f limits = Inr data \<and> length data = 32 + 9 * length (fr_Objects f)
    \<and> (int (length data) > MaxFrameBytes (normalizeLimits limits)
        \<longrightarrow> DecodeFrame data limits = Inl ErrFrameTooLarge)"
proof -
  have "length (concat (map put_object objs)) = 9 * length objs"
    if "list_all (\<lambda>obj. od_Components obj = []) objs" for objs
    using that by (induction objs) (simp_all add: put_object_def put_object_header_def)
  then have "length (put_frame_header f @ concat (map put_object (fr_Objects f))) = 32 + 9 * length (fr_Objects f)"
    using assms(3) by (simp add: put_frame_header_def)
  moreover have "EncodeFrame f limits = Inr (put_frame_header f @ concat (map put_object (fr_Objects f)))"
    using assms by (simp add: EncodeFrame_def Let_def encode_objects_removes)
  ultimately show ?thesis by (auto simp: DecodeFrame_def Let_def)
qed

theorem removal_frame_unchecked_witness:
  "\<exists>data. EncodeFrame (ex_wire_frame\<lparr>fr_Objects := tl (fr_Objects ex_wire_frame)\<rparr>)
       (DefaultLimits\<lparr>MaxFrameBytes := 40\<rparr>) = Inr data
     \<and> DecodeFrame data (DefaultLimits\<lparr>MaxFrameBytes := 40\<rparr>) = Inl ErrFrameTooLarge"
proof -
  let ?f = "ex_wire_frame\<lparr>fr_Objects := tl (fr_Objects ex_wire_frame)\<rparr>"
  let ?l = "DefaultLimits\<lparr>MaxFrameBytes := 40\<rparr>"
  have "validateDeltaFrame ?f (normalizeLimits ?l) = Inr ()" "int (length (fr_Objects ?f)) \<le> 65535"
    "list_all (\<lambda>obj. od_Components obj = []) (fr_Objects ?f)" "length (fr_Objects ?f) = 1"
    "MaxFrameBytes (normalizeLimits ?l) = 40"
    by code_simp+
  with removal_frame_unchecked [of ?f ?l] show ?thesis by auto
qed

end
