(* ===== verification/Repl_Delta.thy ===== *)
theory Repl_Delta
  imports Repl_Codec
begin

text \<open>
  Delta construction and application, \<open>src/replication/delta.go\<close>. The two-index merge loops of
  \<open>diffObjects\<close> and \<open>diffComponents\<close> recurse on the unread parts of their two sorted inputs;
  \<open>ApplyDelta\<close> keeps its objects in a Go map and normalises the result at the end.
\<close>

section \<open>Building a delta\<close>

definition setComponentDelta :: "ComponentState \<Rightarrow> ComponentDelta" where
  "setComponentDelta c = \<lparr>cd_Operation = ComponentSet, cd_TypeID = cs_TypeID c,
     cd_SchemaVersion = cs_SchemaVersion c, cd_Data = cs_Data c\<rparr>"

definition removeComponentDelta :: "ComponentState \<Rightarrow> ComponentDelta" where
  "removeComponentDelta c = \<lparr>cd_Operation = ComponentRemove, cd_TypeID = cs_TypeID c,
     cd_SchemaVersion = 0, cd_Data = []\<rparr>"

definition createObjectDelta :: "ObjectState \<Rightarrow> ObjectDelta" where
  "createObjectDelta obj = \<lparr>od_Operation = ObjectCreate, od_Ref = os_Ref obj,
     od_Archetype = os_Archetype obj, od_Components = map setComponentDelta (os_Components obj)\<rparr>"

definition removeObjectDelta :: "ObjectState \<Rightarrow> ObjectDelta" where
  "removeObjectDelta obj = \<lparr>od_Operation = ObjectRemove, od_Ref = os_Ref obj, od_Archetype = 0,
     od_Components = []\<rparr>"

fun diffComponents :: "ComponentState list \<Rightarrow> ComponentState list \<Rightarrow> ComponentDelta list" where
  "diffComponents [] [] = []"
| "diffComponents [] (c # cs) = setComponentDelta c # diffComponents [] cs"
| "diffComponents (b # bs) [] = removeComponentDelta b # diffComponents bs []"
| "diffComponents (b # bs) (c # cs) =
     (if cs_TypeID b < cs_TypeID c then removeComponentDelta b # diffComponents bs (c # cs)
      else if cs_TypeID c < cs_TypeID b then setComponentDelta c # diffComponents (b # bs) cs
      else if cs_SchemaVersion b \<noteq> cs_SchemaVersion c \<or> cs_Data b \<noteq> cs_Data c
      then setComponentDelta c # diffComponents bs cs
      else diffComponents bs cs)"

definition updateObjectDelta :: "ObjectState \<Rightarrow> ComponentDelta list \<Rightarrow> ObjectDelta" where
  "updateObjectDelta obj cds = \<lparr>od_Operation = ObjectUpdate, od_Ref = os_Ref obj,
     od_Archetype = os_Archetype obj, od_Components = cds\<rparr>"

fun diffObjects :: "ObjectState list \<Rightarrow> ObjectState list \<Rightarrow> ObjectDelta list" where
  "diffObjects [] [] = []"
| "diffObjects [] (c # cs) = createObjectDelta c # diffObjects [] cs"
| "diffObjects (b # bs) [] = removeObjectDelta b # diffObjects bs []"
| "diffObjects (b # bs) (c # cs) =
     (if Less (os_Ref b) (os_Ref c) then removeObjectDelta b # diffObjects bs (c # cs)
      else if Less (os_Ref c) (os_Ref b) then createObjectDelta c # diffObjects (b # bs) cs
      else if os_Archetype b \<noteq> os_Archetype c then createObjectDelta c # diffObjects bs cs
      else let components = diffComponents (os_Components b) (os_Components c) in
        if length components > 0 then updateObjectDelta c components # diffObjects bs cs
        else diffObjects bs cs)"

definition BuildDelta :: "Snapshot option \<Rightarrow> Snapshot \<Rightarrow> DeltaFrame result" where
  "BuildDelta base current =
     try_bind (meta_validate (sn_Meta current)) (\<lambda>_.
       case base of
         None \<Rightarrow> Inr \<lparr>fr_Meta = sn_Meta current, fr_Kind = FrameFull, fr_BaseTick = 0,
                      fr_Objects = map createObjectDelta (sn_Objects current)\<rparr>
       | Some b \<Rightarrow>
           if meta_RoomID (sn_Meta b) \<noteq> meta_RoomID (sn_Meta current)
             \<or> meta_Epoch (sn_Meta b) \<noteq> meta_Epoch (sn_Meta current)
             \<or> meta_SchemaVersion (sn_Meta b) \<noteq> meta_SchemaVersion (sn_Meta current)
             \<or> sn_Tick b \<ge> sn_Tick current
           then Inl ErrBaselineMismatch
           else Inr \<lparr>fr_Meta = sn_Meta current, fr_Kind = FrameDelta, fr_BaseTick = sn_Tick b,
                     fr_Objects = diffObjects (sn_Objects b) (sn_Objects current)\<rparr>)"

section \<open>Applying a delta\<close>

fun apply_component_loop ::
  "Limits \<Rightarrow> (u16, ComponentState) gomap \<Rightarrow> ComponentDelta list \<Rightarrow> (u16, ComponentState) gomap result" where
  "apply_component_loop l m [] = Inr m"
| "apply_component_loop l m (d # ds) =
     (if cd_TypeID d = 0 then Inl ErrInvalidFrame
      else try_bind
        (if cd_Operation d = ComponentSet then
           (if cd_SchemaVersion d = 0 \<or> int (length (cd_Data d)) > MaxComponentBytes l
            then Inl ErrComponentTooLarge
            else Inr (AList.update (cd_TypeID d)
              \<lparr>cs_TypeID = cd_TypeID d, cs_SchemaVersion = cd_SchemaVersion d, cs_Data = cd_Data d\<rparr> m))
         else if cd_Operation d = ComponentRemove then Inr (AList.delete (cd_TypeID d) m)
         else Inl ErrInvalidFrame)
        (\<lambda>m'. if int (length m') > MaxComponentsPerObject l then Inl ErrComponentLimit
              else apply_component_loop l m' ds))"

definition applyComponentDeltas ::
  "ComponentState list \<Rightarrow> ComponentDelta list \<Rightarrow> Limits \<Rightarrow> ComponentState list result" where
  "applyComponentDeltas base deltas l =
     try_bind (apply_component_loop l (gomap_by cs_TypeID base) deltas) (\<lambda>m. Inr (govalues m))"

fun apply_object_loop ::
  "Limits \<Rightarrow> (ObjectRef, ObjectState) gomap \<Rightarrow> ObjectDelta list \<Rightarrow> (ObjectRef, ObjectState) gomap result" where
  "apply_object_loop l m [] = Inr m"
| "apply_object_loop l m (d # ds) =
     (if \<not> Valid (od_Ref d) then Inl ErrInvalidObjectRef
      else try_bind
        (if od_Operation d = ObjectCreate then
           (if od_Archetype d = 0 then Inl ErrInvalidObjectRef
            else try_bind (applyComponentDeltas [] (od_Components d) l) (\<lambda>cs.
              Inr (AList.update (od_Ref d)
                \<lparr>os_Ref = od_Ref d, os_Archetype = od_Archetype d, os_Components = cs\<rparr> m)))
         else if od_Operation d = ObjectUpdate then
           (case map_of m (od_Ref d) of
              None \<Rightarrow> Inl ErrObjectNotFound
            | Some obj \<Rightarrow>
                if od_Archetype d \<noteq> 0 \<and> od_Archetype d \<noteq> os_Archetype obj then Inl ErrInvalidFrame
                else try_bind (applyComponentDeltas (os_Components obj) (od_Components d) l) (\<lambda>cs.
                  Inr (AList.update (od_Ref d) (obj\<lparr>os_Components := cs\<rparr>) m)))
         else if od_Operation d = ObjectRemove then Inr (AList.delete (od_Ref d) m)
         else Inl ErrInvalidFrame)
        (\<lambda>m'. if int (length m') > MaxObjects l then Inl ErrObjectLimit
              else apply_object_loop l m' ds))"

definition ApplyDelta :: "Snapshot option \<Rightarrow> DeltaFrame \<Rightarrow> Limits \<Rightarrow> Snapshot result" where
  "ApplyDelta base f limits =
     (let l = normalizeLimits limits in
      try_bind (meta_validate (fr_Meta f)) (\<lambda>_.
      try_bind
        (if fr_Kind f = FrameFull then
           (if fr_BaseTick f \<noteq> 0 then Inl ErrInvalidFrame else Inr [])
         else if fr_Kind f = FrameDelta then
           (case base of
              None \<Rightarrow> Inl ErrBaselineMismatch
            | Some b \<Rightarrow>
                if fr_BaseTick f = 0 \<or> sn_Tick b \<noteq> fr_BaseTick f
                  \<or> meta_RoomID (sn_Meta b) \<noteq> meta_RoomID (fr_Meta f)
                  \<or> meta_Epoch (sn_Meta b) \<noteq> meta_Epoch (fr_Meta f)
                  \<or> meta_SchemaVersion (sn_Meta b) \<noteq> meta_SchemaVersion (fr_Meta f)
                then Inl ErrBaselineMismatch
                else Inr (gomap_by os_Ref (cloneObjects (sn_Objects b))))
         else Inl ErrInvalidFrame) (\<lambda>m.
      try_bind (apply_object_loop l m (fr_Objects f)) (\<lambda>m'.
        NewSnapshot (fr_Meta f) (govalues m') l))))"


section \<open>Replaying a component diff\<close>

abbreviation index_by :: "('v \<Rightarrow> 'k) \<Rightarrow> 'v list \<Rightarrow> 'k \<Rightarrow> 'v option" where
  "index_by key xs \<equiv> map_of (map (\<lambda>x. (key x, x)) xs)"

lemma strict_keys_Cons [simp]:
  "strict_keys f [] "
  "strict_keys f (x # xs) \<longleftrightarrow> (\<forall>y \<in> set xs. f x < f y) \<and> strict_keys f xs"
  unfolding strict_keys_def by (simp, metis sorted_distinct_keys_Cons)

lemma index_by_None: "k \<notin> key ` set xs \<Longrightarrow> index_by key xs k = None"
  by (induction xs) auto

lemma index_by_dom: "dom (index_by key xs) = key ` set xs"
  by (simp add: dom_map_of_conv_image_fst image_image)

lemma index_by_SomeD: "index_by key xs k = Some x \<Longrightarrow> x \<in> set xs \<and> key x = k"
  by (induction xs) (auto split: if_splits)

text \<open>A map that indexes a list by distinct keys holds exactly the elements of the list.\<close>

lemma mset_govalues_index:
  assumes "gomap_ok m" "distinct (map key xs)" "map_of m = index_by key xs"
  shows "mset (govalues m) = mset xs"
proof (rule mset_eq_of_set_eq)
  have kv: "\<And>k v. (k, v) \<in> set m \<Longrightarrow> key v = k"
    using assms(1,3) by (metis gomap_ok_def index_by_SomeD map_of_eq_Some_iff)
  have "map key (govalues m) = gokeys m"
    using kv by (auto simp: comp_def)
  then show "distinct (govalues m)"
    using assms(1) by (metis distinct_map gomap_ok_def)
  show "distinct xs" using assms(2) by (simp add: distinct_map)
  have "index_by key xs k = Some v \<longleftrightarrow> v \<in> set xs \<and> key v = k" for k v
    using assms(2) by (subst map_of_eq_Some_iff) (auto simp: comp_def)
  then show "set (govalues m) = set xs"
    using gomap_values_iff [OF assms(1)] assms(3) by auto
qed

definition union_size :: "('v \<Rightarrow> 'k) \<Rightarrow> 'v list \<Rightarrow> 'v list \<Rightarrow> int" where
  "union_size key xs ys = int (length (remdups (map key xs @ map key ys)))"

lemma union_size_card: "union_size key xs ys = int (card (key ` set xs \<union> key ` set ys))"
  by (simp add: union_size_def length_remdups_card_conv)

lemma gomap_length_le:
  assumes "gomap_ok m" "dom (map_of m) \<subseteq> A" "finite A" "int (card A) \<le> n"
  shows "int (length m) \<le> n"
  using gomap_card [OF assms(1)] card_mono [OF assms(3,2)] assms(4) by linarith

lemma apply_set_step:
  assumes "component_ok l c" "gomap_ok m"
    and "insert (cs_TypeID c) (dom (map_of m)) \<subseteq> A" "finite A" "int (card A) \<le> MaxComponentsPerObject l"
  shows "apply_component_loop l m (setComponentDelta c # ds)
       = apply_component_loop l (AList.update (cs_TypeID c) c m) ds"
proof -
  have "int (length (AList.update (cs_TypeID c) c m)) \<le> MaxComponentsPerObject l"
    by (rule gomap_length_le [of _ A]) (use assms in auto)
  then show ?thesis
    using assms(1) by (simp add: setComponentDelta_def component_ok_def not_less)
qed

lemma apply_remove_step:
  assumes "cs_TypeID b \<noteq> 0" "gomap_ok m"
    and "dom (map_of m) \<subseteq> A" "finite A" "int (card A) \<le> MaxComponentsPerObject l"
  shows "apply_component_loop l m (removeComponentDelta b # ds)
       = apply_component_loop l (AList.delete (cs_TypeID b) m) ds"
proof -
  have "int (length (AList.delete (cs_TypeID b) m)) \<le> MaxComponentsPerObject l"
    by (rule gomap_length_le [of _ A]) (use assms in auto)
  then show ?thesis
    using assms(1) by (simp add: removeComponentDelta_def not_less)
qed

declare apply_component_loop.simps(2) [simp del]

text \<open>The map after a diff: the baseline's entries are gone and the target's are in place.\<close>

definition diff_target :: "('v \<Rightarrow> 'k) \<Rightarrow> ('k \<rightharpoonup> 'v) \<Rightarrow> 'v list \<Rightarrow> 'v list \<Rightarrow> 'k \<rightharpoonup> 'v" where
  "diff_target key m bs cs = (m |` (- (key ` set bs))) ++ index_by key cs"

lemma diff_target_remove:
  "diff_target key (m(key b := None)) bs cs = diff_target key m (b # bs) cs"
  by (auto simp: diff_target_def fun_eq_iff map_add_def restrict_map_def split: option.splits)

lemma diff_target_set:
  assumes "key c \<notin> key ` set bs" "key c \<notin> key ` set cs"
  shows "diff_target key (m(key c \<mapsto> c)) bs cs = diff_target key m bs (c # cs)"
  using assms index_by_None [of "key c" key cs]
  by (auto simp: diff_target_def fun_eq_iff map_add_def restrict_map_def split: option.splits)

lemma diff_target_replace:
  assumes "key c = key b" "key b \<notin> key ` set bs" "key c \<notin> key ` set cs"
  shows "diff_target key (m(key c \<mapsto> c)) bs cs = diff_target key m (b # bs) (c # cs)"
  using assms index_by_None [of "key c" key cs]
  by (auto simp: diff_target_def fun_eq_iff map_add_def restrict_map_def split: option.splits)

lemma diff_state_remove:
  assumes "gomap_ok m" "\<forall>b \<in> set (b0 # bs). map_of m (key b) = Some b" "key b0 \<notin> key ` set bs"
    and "dom (map_of m) \<union> B \<subseteq> A"
  shows "gomap_ok (AList.delete (key b0) m)"
    and "\<forall>b \<in> set bs. map_of (AList.delete (key b0) m) (key b) = Some b"
    and "dom (map_of (AList.delete (key b0) m)) \<union> B \<subseteq> A"
    and "diff_target key (map_of (AList.delete (key b0) m)) bs cs = diff_target key (map_of m) (b0 # bs) cs"
proof -
  show "gomap_ok (AList.delete (key b0) m)" using assms(1) by simp
  show "\<forall>b \<in> set bs. map_of (AList.delete (key b0) m) (key b) = Some b"
  proof
    fix b assume "b \<in> set bs"
    then have "map_of m (key b) = Some b" and "key b \<noteq> key b0"
      using assms(2) imageI [of b "set bs" key] assms(3) by (simp, metis)
    then show "map_of (AList.delete (key b0) m) (key b) = Some b" by (simp add: gomap_get_delete)
  qed
  have "dom (map_of (AList.delete (key b0) m)) \<subseteq> dom (map_of m)"
    unfolding gomap_get_delete by (simp add: Diff_subset del: fun_upd_apply)
  then show "dom (map_of (AList.delete (key b0) m)) \<union> B \<subseteq> A" using assms(4) by blast
  show "diff_target key (map_of (AList.delete (key b0) m)) bs cs = diff_target key (map_of m) (b0 # bs) cs"
    by (simp only: gomap_get_delete diff_target_remove)
qed

lemma diff_state_set:
  assumes "gomap_ok m" "\<forall>b \<in> set bs. map_of m (key b) = Some b" "k \<notin> key ` set bs"
    and "insert k (dom (map_of m)) \<union> B \<subseteq> A"
  shows "gomap_ok (AList.update k c m)"
    and "\<forall>b \<in> set bs. map_of (AList.update k c m) (key b) = Some b"
    and "dom (map_of (AList.update k c m)) \<union> B \<subseteq> A"
proof -
  show "gomap_ok (AList.update k c m)" using assms(1) by simp
  show "\<forall>b \<in> set bs. map_of (AList.update k c m) (key b) = Some b"
  proof
    fix b assume "b \<in> set bs"
    then have "map_of m (key b) = Some b" and "key b \<noteq> k"
      using assms(2) imageI [of b "set bs" key] assms(3) by (blast, metis)
    then show "map_of (AList.update k c m) (key b) = Some b" by (simp add: gomap_get_update)
  qed
  have "dom (map_of (AList.update k c m)) = insert k (dom (map_of m))"
    unfolding gomap_get_update by (simp del: fun_upd_apply)
  then show "dom (map_of (AList.update k c m)) \<union> B \<subseteq> A" using assms(4) by blast
qed

lemma apply_diffComponents:
  assumes "finite A" "int (card A) \<le> MaxComponentsPerObject l"
    and "strict_keys cs_TypeID bs" "strict_keys cs_TypeID cs"
    and "list_all (component_ok l) bs" "list_all (component_ok l) cs"
    and "gomap_ok m" "\<forall>b \<in> set bs. map_of m (cs_TypeID b) = Some b"
    and "dom (map_of m) \<union> cs_TypeID ` set cs \<subseteq> A"
  shows "\<exists>m'. apply_component_loop l m (diffComponents bs cs) = Inr m' \<and> gomap_ok m'
    \<and> map_of m' = diff_target cs_TypeID (map_of m) bs cs"
  using assms(3-9)
proof (induction bs cs arbitrary: m rule: diffComponents.induct)
  case 1
  then show ?case by (simp add: diff_target_def)
next
  case (2 c cs)
  have fresh: "cs_TypeID c \<notin> cs_TypeID ` set []" "cs_TypeID c \<notin> cs_TypeID ` set cs"
    using 2(3) by auto
  have step: "apply_component_loop l m (diffComponents [] (c # cs))
      = apply_component_loop l (AList.update (cs_TypeID c) c m) (diffComponents [] cs)"
    using 2(5,8) by (simp add: apply_set_step [OF _ 2(6) _ assms(1,2)])
  have "insert (cs_TypeID c) (dom (map_of m)) \<union> cs_TypeID ` set cs \<subseteq> A" using 2(8) by auto
  note state = diff_state_set [OF 2(6,7) fresh(1) this, of c]
  show ?case
    using 2(1) [OF _ _ _ _ state] 2(2-5) unfolding step gomap_get_update diff_target_set [OF fresh] by simp
next
  case (3 b bs)
  have fresh: "cs_TypeID b \<notin> cs_TypeID ` set bs" using 3(2) by auto
  have step: "apply_component_loop l m (diffComponents (b # bs) [])
      = apply_component_loop l (AList.delete (cs_TypeID b) m) (diffComponents bs [])"
    using 3(4,8) by (simp add: component_ok_def apply_remove_step [OF _ 3(6) _ assms(1,2)])
  note state = diff_state_remove [OF 3(6,7) fresh 3(8)]
  show ?case
    using 3(1) [OF _ _ _ _ state(1-3)] 3(2-5) unfolding step state(4) by simp
next
  case (4 b bs c cs)
  have fresh: "cs_TypeID b \<notin> cs_TypeID ` set bs" "cs_TypeID c \<notin> cs_TypeID ` set cs"
    using 4(5,6) by auto
  have ins: "insert (cs_TypeID c) (dom (map_of m)) \<union> cs_TypeID ` set cs \<subseteq> A" using 4(11) by auto
  have dom: "dom (map_of m) \<subseteq> A" "insert (cs_TypeID c) (dom (map_of m)) \<subseteq> A" using 4(11) by auto
  have "cs_TypeID b \<noteq> 0" "component_ok l c" using 4(7,8) by (auto simp: component_ok_def)
  note remove = apply_remove_step [OF this(1) 4(9) dom(1) assms(1,2)]
    and set = apply_set_step [OF this(2) 4(9) dom(2) assms(1,2)]
  show ?case
  proof (cases "cs_TypeID b" "cs_TypeID c" rule: linorder_cases)
    case less
    then have step: "apply_component_loop l m (diffComponents (b # bs) (c # cs))
        = apply_component_loop l (AList.delete (cs_TypeID b) m) (diffComponents bs (c # cs))"
      by (simp add: remove)
    note state = diff_state_remove [OF 4(9,10) fresh(1) 4(11)]
    show ?thesis
      using 4(1) [OF less _ _ _ _ state(1-3)] 4(5-8) unfolding step state(4) by simp
  next
    case greater
    then have ng: "\<not> cs_TypeID b < cs_TypeID c" by simp
    with greater have step: "apply_component_loop l m (diffComponents (b # bs) (c # cs))
        = apply_component_loop l (AList.update (cs_TypeID c) c m) (diffComponents (b # bs) cs)"
      by (simp add: set)
    have new: "cs_TypeID c \<notin> cs_TypeID ` set (b # bs)"
      using 4(5) greater by auto
    note state = diff_state_set [OF 4(9,10) new ins, of c]
    show ?thesis
      using 4(2) [OF ng greater _ _ _ _ state] 4(5-8)
      unfolding step gomap_get_update diff_target_set [OF new fresh(2)] by simp
  next
    case equal
    have rest: "cs_TypeID c \<notin> cs_TypeID ` set bs" "\<forall>b' \<in> set bs. map_of m (cs_TypeID b') = Some b'"
      using fresh(1) equal 4(10) by auto
    have eq: "diff_target cs_TypeID ((map_of m)(cs_TypeID c \<mapsto> c)) bs cs
        = diff_target cs_TypeID (map_of m) (b # bs) (c # cs)"
      by (rule diff_target_replace [OF equal [symmetric] fresh])
    show ?thesis
    proof (cases "cs_SchemaVersion b \<noteq> cs_SchemaVersion c \<or> cs_Data b \<noteq> cs_Data c")
      case True
      then have step: "apply_component_loop l m (diffComponents (b # bs) (c # cs))
          = apply_component_loop l (AList.update (cs_TypeID c) c m) (diffComponents bs cs)"
        using equal by (simp add: set)
      note state = diff_state_set [OF 4(9) rest(2,1) ins, of c]
      show ?thesis
        using 4(3) [OF _ _ True _ _ _ _ state] 4(5-8) equal
        unfolding step gomap_get_update eq by simp
    next
      case False
      then have bc: "b = c" using equal by simp
      have same: "(map_of m)(cs_TypeID c \<mapsto> c) = map_of m"
        using 4(10) bc by (simp add: fun_upd_idem)
      have "dom (map_of m) \<union> cs_TypeID ` set cs \<subseteq> A" using ins by auto
      then show ?thesis
        using 4(4) [OF _ _ False _ _ _ _ 4(9) rest(2)] 4(5-8) equal False eq unfolding same by simp
    qed
  qed
qed


lemma diffComponents_Nil: "diffComponents [] cs = map setComponentDelta cs"
  by (induction cs) auto

lemma applyComponentDeltas_diff:
  assumes "strict_keys cs_TypeID bs" "strict_keys cs_TypeID cs"
    and "list_all (component_ok l) bs" "list_all (component_ok l) cs"
    and "union_size cs_TypeID bs cs \<le> MaxComponentsPerObject l"
  shows "\<exists>out. applyComponentDeltas bs (diffComponents bs cs) l = Inr out \<and> mset out = mset cs"
proof -
  let ?A = "cs_TypeID ` set bs \<union> cs_TypeID ` set cs"
  have get: "map_of (gomap_by cs_TypeID bs) = index_by cs_TypeID bs"
    using assms(1) by (intro gomap_by_get) (simp add: strict_keys_def)
  have lookup: "map_of (gomap_by cs_TypeID bs) (cs_TypeID b) = Some b" if "b \<in> set bs" for b
    unfolding get using assms(1) that
    by (subst map_of_eq_Some_iff) (auto simp: comp_def strict_keys_def)
  have A: "int (card ?A) \<le> MaxComponentsPerObject l" using assms(5) by (simp add: union_size_card)
  obtain m' where m': "apply_component_loop l (gomap_by cs_TypeID bs) (diffComponents bs cs) = Inr m'"
    "gomap_ok m'" "map_of m' = diff_target cs_TypeID (index_by cs_TypeID bs) bs cs"
    using apply_diffComponents [OF _ A assms(1-4) gomap_ok_by [of cs_TypeID bs]] lookup
    unfolding get index_by_dom by blast
  have "diff_target cs_TypeID (index_by cs_TypeID bs) bs cs = index_by cs_TypeID cs"
    using index_by_None [of _ cs_TypeID bs]
    by (auto simp: diff_target_def fun_eq_iff map_add_def restrict_map_def split: option.splits)
  with m' have "mset (govalues m') = mset cs"
    using assms(2) by (intro mset_govalues_index [where key = cs_TypeID]) (simp_all add: strict_keys_def)
  with m'(1) show ?thesis by (simp add: applyComponentDeltas_def)
qed

section \<open>Replaying an object diff\<close>

text \<open>Objects are compared in canonical form, since a Go map returns components in any order.\<close>

definition object_view :: "(ObjectRef, ObjectState) gomap \<Rightarrow> ObjectRef \<rightharpoonup> ObjectState" where
  "object_view m = (\<lambda>k. map_option canon_object (map_of m k))"

lemma object_view_update: "object_view (AList.update k c m) = (object_view m)(k \<mapsto> canon_object c)"
  by (auto simp: object_view_def)

lemma object_view_delete: "object_view (AList.delete k m) = (object_view m)(k := None)"
  by (auto simp: object_view_def)

lemma apply_object_limit:
  assumes "gomap_ok m" "dom (map_of m) \<subseteq> A" "finite A" "int (card A) \<le> MaxObjects l"
  shows "\<not> int (length m) > MaxObjects l"
  using gomap_length_le [OF assms] by simp

lemma canon_of_mset:
  assumes "object_ok l c" "mset out = mset (os_Components c)" "os_Ref c' = os_Ref c"
    "os_Archetype c' = os_Archetype c" "os_Components c' = out"
  shows "canon_object c' = c"
proof -
  have "sort_key cs_TypeID out = os_Components c"
    using assms(1,2) by (intro sort_key_strict) (auto simp: object_ok_def strict_keys_def)
  with assms(3-5) show ?thesis by (simp add: canon_object_def)
qed

lemma apply_create_raw:
  assumes "object_ok l c"
  shows "\<exists>c'. canon_object c' = c \<and> os_Ref c' = os_Ref c
    \<and> (\<forall>m ds. apply_object_loop l m (createObjectDelta c # ds)
        = (if int (length (AList.update (os_Ref c) c' m)) > MaxObjects l then Inl ErrObjectLimit
           else apply_object_loop l (AList.update (os_Ref c) c' m) ds))"
proof -
  have "union_size cs_TypeID [] (os_Components c) \<le> MaxComponentsPerObject l"
    using assms(1) by (simp add: union_size_def object_ok_def strict_keys_def distinct_remdups_id)
  then obtain out where out: "applyComponentDeltas [] (map setComponentDelta (os_Components c)) l = Inr out"
    and eq: "mset out = mset (os_Components c)"
    using applyComponentDeltas_diff [of "[]" "os_Components c" l] assms(1)
    by (auto simp: object_ok_def diffComponents_Nil)
  let ?c = "\<lparr>os_Ref = os_Ref c, os_Archetype = os_Archetype c, os_Components = out\<rparr>"
  have "canon_object ?c = c" by (rule canon_of_mset [OF assms eq]) simp_all
  then show ?thesis
    using assms out by (intro exI [of _ ?c]) (simp add: createObjectDelta_def object_ok_def)
qed

lemma apply_create_step:
  assumes "object_ok l c" "gomap_ok m"
    and "insert (os_Ref c) (dom (map_of m)) \<subseteq> A" "finite A" "int (card A) \<le> MaxObjects l"
  shows "\<exists>c'. canon_object c' = c \<and> os_Ref c' = os_Ref c
    \<and> (\<forall>ds. apply_object_loop l m (createObjectDelta c # ds)
        = apply_object_loop l (AList.update (os_Ref c) c' m) ds)"
proof -
  have "dom (map_of (AList.update (os_Ref c) c' m)) = insert (os_Ref c) (dom (map_of m))" for c'
    unfolding gomap_get_update by (simp del: fun_upd_apply)
  then have "\<not> int (length (AList.update (os_Ref c) c' m)) > MaxObjects l" for c'
    using apply_object_limit [OF gomap_ok_update [OF assms(2)] _ assms(4,5)] assms(3) by metis
  with apply_create_raw [OF assms(1)] show ?thesis by metis
qed

lemma apply_update_step:
  assumes "object_ok l b" "object_ok l c" "gomap_ok m" "map_of m (os_Ref b) = Some b"
    and "os_Ref b = os_Ref c" "os_Archetype b = os_Archetype c"
    and "union_size cs_TypeID (os_Components b) (os_Components c) \<le> MaxComponentsPerObject l"
    and "dom (map_of m) \<subseteq> A" "finite A" "int (card A) \<le> MaxObjects l"
  shows "\<exists>c'. canon_object c' = c \<and> os_Ref c' = os_Ref c
    \<and> (\<forall>ds. apply_object_loop l m
          (updateObjectDelta c (diffComponents (os_Components b) (os_Components c)) # ds)
        = apply_object_loop l (AList.update (os_Ref c) c' m) ds)"
proof -
  obtain out where out: "applyComponentDeltas (os_Components b)
      (diffComponents (os_Components b) (os_Components c)) l = Inr out"
    and eq: "mset out = mset (os_Components c)"
    using applyComponentDeltas_diff [OF _ _ _ _ assms(7)] assms(1,2) by (auto simp: object_ok_def)
  let ?c = "b\<lparr>os_Components := out\<rparr>"
  have "dom (map_of (AList.update (os_Ref c) ?c m)) = insert (os_Ref c) (dom (map_of m))"
    unfolding gomap_get_update by (simp del: fun_upd_apply)
  moreover have "os_Ref c \<in> dom (map_of m)" using assms(4,5) by auto
  ultimately have "\<not> int (length (AList.update (os_Ref c) ?c m)) > MaxObjects l"
    using apply_object_limit [OF gomap_ok_update [OF assms(3)] _ assms(9,10)] assms(8)
    by (metis insert_absorb)
  moreover have "canon_object ?c = c"
    by (rule canon_of_mset [OF assms(2) eq]) (simp_all add: assms(5,6))
  ultimately show ?thesis
    using assms(1,4-6) out
    by (intro exI [of _ ?c]) (simp add: updateObjectDelta_def object_ok_def)
qed

lemma apply_object_remove_step:
  assumes "Valid (os_Ref b)" "gomap_ok m" "dom (map_of m) \<subseteq> A" "finite A" "int (card A) \<le> MaxObjects l"
  shows "apply_object_loop l m (removeObjectDelta b # ds) = apply_object_loop l (AList.delete (os_Ref b) m) ds"
proof -
  have "dom (map_of (AList.delete (os_Ref b) m)) \<subseteq> A"
    unfolding gomap_get_delete using assms(3) by (auto simp del: fun_upd_apply)
  then have "\<not> int (length (AList.delete (os_Ref b) m)) > MaxObjects l"
    using apply_object_limit [OF gomap_ok_delete [OF assms(2)] _ assms(4,5)] by metis
  then show ?thesis using assms(1) by (simp add: removeObjectDelta_def)
qed


declare apply_object_loop.simps(2) [simp del]

definition components_fit :: "Limits \<Rightarrow> ObjectState list \<Rightarrow> ObjectState list \<Rightarrow> bool" where
  "components_fit l bs cs \<longleftrightarrow>
     list_all (\<lambda>b. list_all (\<lambda>c. os_Ref b = os_Ref c \<and> os_Archetype b = os_Archetype c \<longrightarrow>
       union_size cs_TypeID (os_Components b) (os_Components c) \<le> MaxComponentsPerObject l) cs) bs"

lemma components_fit_sub:
  "components_fit l bs cs \<Longrightarrow> set bs' \<subseteq> set bs \<Longrightarrow> set cs' \<subseteq> set cs \<Longrightarrow> components_fit l bs' cs'"
  unfolding components_fit_def list_all_iff by blast

lemma diff_unchanged:
  assumes "strict_keys cs_TypeID bs" "strict_keys cs_TypeID cs" "diffComponents bs cs = []"
  shows "bs = cs"
  using assms
  by (induction bs cs rule: diffComponents.induct) (auto split: if_splits)

lemma apply_diffObjects:
  assumes "finite A" "int (card A) \<le> MaxObjects l"
    and "strict_keys os_Ref bs" "strict_keys os_Ref cs"
    and "list_all (object_ok l) bs" "list_all (object_ok l) cs"
    and "gomap_ok m" "\<forall>b \<in> set bs. map_of m (os_Ref b) = Some b"
    and "dom (map_of m) \<union> os_Ref ` set cs \<subseteq> A"
    and "components_fit l bs cs"
  shows "\<exists>m'. apply_object_loop l m (diffObjects bs cs) = Inr m' \<and> gomap_ok m'
    \<and> object_view m' = diff_target os_Ref (object_view m) bs cs"
  using assms(3-10)
proof (induction bs cs arbitrary: m rule: diffObjects.induct)
  case 1
  then show ?case by (simp add: diff_target_def)
next
  case (2 c cs)
  have fresh: "os_Ref c \<notin> os_Ref ` set []" "os_Ref c \<notin> os_Ref ` set cs"
    using 2(3) by auto
  have "insert (os_Ref c) (dom (map_of m)) \<subseteq> A" "object_ok l c" using 2(5,8) by auto
  from apply_create_step [OF this(2) 2(6) this(1) assms(1,2)]
  obtain c' where c': "canon_object c' = c" and step: "\<And>ds. apply_object_loop l m (createObjectDelta c # ds)
      = apply_object_loop l (AList.update (os_Ref c) c' m) ds" by blast
  have "insert (os_Ref c) (dom (map_of m)) \<union> os_Ref ` set cs \<subseteq> A" using 2(8) by auto
  note state = diff_state_set [OF 2(6,7) fresh(1) this, of c']
  have "components_fit l [] cs" by (rule components_fit_sub [OF 2(9)]) auto
  then show ?case
    using 2(1) [OF _ _ _ _ state] 2(2-5)
    unfolding diffObjects.simps step object_view_update c' diff_target_set [OF fresh] by simp
next
  case (3 b bs)
  have fresh: "os_Ref b \<notin> os_Ref ` set bs" using 3(2) by auto
  have "Valid (os_Ref b)" "dom (map_of m) \<subseteq> A" using 3(4,8) by (auto simp: object_ok_def)
  note step = apply_object_remove_step [OF this(1) 3(6) this(2) assms(1,2)]
  note state = diff_state_remove [OF 3(6,7) fresh 3(8)]
  have "components_fit l bs []" by (rule components_fit_sub [OF 3(9)]) auto
  then show ?case
    using 3(1) [OF _ _ _ _ state(1-3)] 3(2-5)
    unfolding diffObjects.simps step object_view_delete diff_target_remove by simp
next
  case (4 b bs c cs)
  have fresh: "os_Ref b \<notin> os_Ref ` set bs" "os_Ref c \<notin> os_Ref ` set cs"
    using 4(6,7) by auto
  have ins: "insert (os_Ref c) (dom (map_of m)) \<union> os_Ref ` set cs \<subseteq> A" using 4(12) by auto
  have dom: "dom (map_of m) \<subseteq> A" "insert (os_Ref c) (dom (map_of m)) \<subseteq> A" using 4(12) by auto
  have ok: "object_ok l b" "object_ok l c" using 4(8,9) by auto
  then have "Valid (os_Ref b)" by (simp add: object_ok_def)
  note remove = apply_object_remove_step [OF this 4(10) dom(1) assms(1,2)]
  from apply_create_step [OF ok(2) 4(10) dom(2) assms(1,2)]
  obtain c' where c': "canon_object c' = c" and create: "\<And>ds. apply_object_loop l m (createObjectDelta c # ds)
      = apply_object_loop l (AList.update (os_Ref c) c' m) ds" by blast
  have fit: "components_fit l bs (c # cs)" "components_fit l (b # bs) cs" "components_fit l bs cs"
    by (rule components_fit_sub [OF 4(13)]; auto)+
  show ?case
  proof (cases "os_Ref b" "os_Ref c" rule: linorder_cases)
    case less
    then have lt: "Less (os_Ref b) (os_Ref c)" by (simp add: less_ObjectRef_def)
    note state = diff_state_remove [OF 4(10,11) fresh(1) 4(12)]
    show ?thesis
      using 4(1) [OF lt _ _ _ _ state(1-3) fit(1)] 4(6-9) lt
      by (simp add: remove object_view_delete diff_target_remove del: fun_upd_apply)
  next
    case greater
    then have gt: "\<not> Less (os_Ref b) (os_Ref c)" "Less (os_Ref c) (os_Ref b)"
      by (simp_all add: less_ObjectRef_def [symmetric])
    have new: "os_Ref c \<notin> os_Ref ` set (b # bs)" using 4(6) greater by auto
    note state = diff_state_set [OF 4(10,11) new ins, of c']
    show ?thesis
      using 4(2) [OF gt _ _ _ _ state fit(2)] 4(6-9) gt diff_target_set [OF new fresh(2), of "object_view m"]
      by (simp add: create object_view_update c' del: fun_upd_apply)
  next
    case equal
    then have eq: "\<not> Less (os_Ref b) (os_Ref c)" "\<not> Less (os_Ref c) (os_Ref b)"
      by (simp_all add: less_ObjectRef_def [symmetric])
    have rest: "os_Ref c \<notin> os_Ref ` set bs" "\<forall>b' \<in> set bs. map_of m (os_Ref b') = Some b'"
      using fresh(1) equal 4(11) by auto
    have tgt: "diff_target os_Ref ((object_view m)(os_Ref c \<mapsto> c)) bs cs
        = diff_target os_Ref (object_view m) (b # bs) (c # cs)"
      by (rule diff_target_replace [OF equal [symmetric] fresh])
    note state = diff_state_set [OF 4(10) rest(2,1) ins]
    show ?thesis
    proof (cases "os_Archetype b = os_Archetype c")
      case False
      then show ?thesis
        using 4(3) [OF eq False _ _ _ _ state [of c'] fit(3)] 4(6-9) eq tgt
        by (simp add: create object_view_update c' del: fun_upd_apply)
    next
      case True
      let ?ds = "diffComponents (os_Components b) (os_Components c)"
      have lookup: "map_of m (os_Ref b) = Some b" using 4(11) by simp
      have "union_size cs_TypeID (os_Components b) (os_Components c) \<le> MaxComponentsPerObject l"
        using 4(13) True equal by (simp add: components_fit_def)
      from apply_update_step [OF ok 4(10) lookup equal True this dom(1) assms(1,2)]
      obtain u where u: "canon_object u = c" and update: "\<And>ds. apply_object_loop l m (updateObjectDelta c ?ds # ds)
          = apply_object_loop l (AList.update (os_Ref c) u m) ds" by blast
      show ?thesis
      proof (cases "?ds = []")
        case False
        then show ?thesis
          using 4(4) [OF eq _ refl _ _ _ _ _ state [of u] fit(3)] 4(6-9) eq tgt True
          by (simp add: update object_view_update u Let_def del: fun_upd_apply)
      next
        case Nil: True
        then have "os_Components b = os_Components c"
          using diff_unchanged ok by (simp add: object_ok_def)
        then have bc: "b = c" using equal True by simp
        have same: "(object_view m)(os_Ref c \<mapsto> c) = object_view m"
          using lookup ok(2) bc by (intro ext) (simp add: object_view_def canon_object_id)
        have "dom (map_of m) \<union> os_Ref ` set cs \<subseteq> A" using ins by auto
        then show ?thesis
          using 4(5) [OF eq _ refl _ _ _ _ _ 4(10) rest(2) _ fit(3)] 4(6-9) eq tgt True Nil
          unfolding same by (simp add: Let_def)
      qed
    qed
  qed
qed

section \<open>The round trip\<close>

text \<open>
  The deltas are applied one at a time in ascending order of reference, and the limits are checked
  after each one. Objects and components that come before those they replace are therefore counted
  together with them: what must fit is the union of the two snapshots.
\<close>

definition delta_fits :: "Limits \<Rightarrow> ObjectState list \<Rightarrow> ObjectState list \<Rightarrow> bool" where
  "delta_fits l bs cs \<longleftrightarrow> union_size os_Ref bs cs \<le> MaxObjects l \<and> components_fit l bs cs"

lemma apply_to_target:
  assumes "snapshot_ok l cur" "normalizeLimits l = l" "gomap_ok m"
    and "strict_keys os_Ref bs" "list_all (object_ok l) bs"
    and "map_of m = index_by os_Ref bs"
    and "delta_fits l bs (sn_Objects cur)"
  shows "\<exists>m'. apply_object_loop l m (diffObjects bs (sn_Objects cur)) = Inr m'
    \<and> NewSnapshot (sn_Meta cur) (govalues m') l = Inr cur"
proof -
  let ?cs = "sn_Objects cur" and ?A = "os_Ref ` set bs \<union> os_Ref ` set (sn_Objects cur)"
  have cs: "strict_keys os_Ref ?cs" "list_all (object_ok l) ?cs"
    using assms(1) by (auto simp: snapshot_ok_def)
  have A: "int (card ?A) \<le> MaxObjects l" and fit: "components_fit l bs ?cs"
    using assms(7) by (simp_all add: delta_fits_def union_size_card)
  have lookup: "\<forall>b \<in> set bs. map_of m (os_Ref b) = Some b"
    unfolding assms(6) using assms(4)
    by (intro ballI, subst map_of_eq_Some_iff) (auto simp: comp_def strict_keys_def)
  have dom: "dom (map_of m) \<union> os_Ref ` set ?cs \<subseteq> ?A"
    unfolding assms(6) index_by_dom by simp
  obtain m' where m': "apply_object_loop l m (diffObjects bs ?cs) = Inr m'" "gomap_ok m'"
    "object_view m' = diff_target os_Ref (object_view m) bs ?cs"
    using apply_diffObjects [OF _ A assms(4) cs(1) assms(5) cs(2) assms(3) lookup dom fit] by auto
  have "diff_target os_Ref (object_view m) bs ?cs = index_by os_Ref ?cs"
    using index_by_None [of _ os_Ref bs]
    by (auto simp: diff_target_def object_view_def assms(6) fun_eq_iff map_add_def restrict_map_def
        split: option.splits)
  then have view: "map_of (map (\<lambda>(k, v). (k, canon_object v)) m') = index_by os_Ref ?cs"
    using m'(3) by (simp add: object_view_def fun_eq_iff map_of_map)
  have "mset (govalues (map (\<lambda>(k, v). (k, canon_object v)) m')) = mset ?cs"
    by (rule mset_govalues_index [OF _ _ view])
      (use m'(2) cs(1) in \<open>auto simp: gomap_ok_def strict_keys_def comp_def case_prod_beta\<close>)
  then have ms: "mset (map canon_object (govalues m')) = mset ?cs"
    by (simp add: comp_def case_prod_beta)
  have "map canon_object (sort_key os_Ref (govalues m')) = ?cs"
  proof -
    let ?ys = "map canon_object (sort_key os_Ref (govalues m'))"
    have "sorted (map os_Ref ?ys)" by (simp add: comp_def)
    then have "sort_key os_Ref ?ys = ?ys" by (rule sort_key_id_if_sorted)
    moreover have "mset ?ys = mset ?cs" by (simp only: ms [symmetric] mset_map mset_sort)
    then have "sort_key os_Ref ?ys = ?cs"
      using cs(1) by (intro sort_key_strict) (simp_all only: strict_keys_def)
    ultimately show ?thesis by simp
  qed
  then have "NewSnapshot (sn_Meta cur) (govalues m') l = Inr cur"
    using assms(1,2) by (simp add: NewSnapshot_Inr)
  with m'(1) show ?thesis by blast
qed

lemma diffObjects_Nil: "diffObjects [] cs = map createObjectDelta cs"
  by (induction cs) auto

lemma delta_roundtrip_aux:
  assumes "BuildDelta base cur = Inr f"
    and "snapshot_ok (normalizeLimits limits) cur"
    and "\<forall>b. base = Some b \<longrightarrow> snapshot_ok (normalizeLimits limits) b
          \<and> delta_fits (normalizeLimits limits) (sn_Objects b) (sn_Objects cur)"
  shows "ApplyDelta base f limits = Inr cur"
proof (cases base)
  case None
  let ?l = "normalizeLimits limits"
  have "delta_fits ?l [] (sn_Objects cur)"
    using assms(2)
    by (simp add: delta_fits_def components_fit_def union_size_def snapshot_ok_def strict_keys_def
        distinct_remdups_id)
  then obtain m' where "apply_object_loop ?l [] (diffObjects [] (sn_Objects cur)) = Inr m'"
    "NewSnapshot (sn_Meta cur) (govalues m') ?l = Inr cur"
    using apply_to_target [OF assms(2), of "[]" "[]"] by auto
  with assms(1,2) None show ?thesis
    by (auto simp: BuildDelta_def ApplyDelta_def Let_def result_Inr snapshot_ok_def diffObjects_Nil)
next
  case (Some b)
  let ?l = "normalizeLimits limits"
  have b: "snapshot_ok ?l b" "delta_fits ?l (sn_Objects b) (sn_Objects cur)"
    using assms(3) Some by auto
  have "map_of (gomap_by os_Ref (sn_Objects b)) = index_by os_Ref (sn_Objects b)"
    using b(1) by (intro gomap_by_get) (simp add: snapshot_ok_def strict_keys_def)
  then obtain m' where "apply_object_loop ?l (gomap_by os_Ref (sn_Objects b))
      (diffObjects (sn_Objects b) (sn_Objects cur)) = Inr m'"
    "NewSnapshot (sn_Meta cur) (govalues m') ?l = Inr cur"
    using apply_to_target [OF assms(2) _ gomap_ok_by _ _ _ b(2)] b(1)
    by (auto simp: snapshot_ok_def)
  moreover have "sn_Tick b \<noteq> 0" using b(1) by (auto simp: snapshot_ok_def meta_validate_def split: if_splits)
  ultimately show ?thesis
    using assms(1,2) Some
    by (auto simp: BuildDelta_def ApplyDelta_def Let_def result_Inr snapshot_ok_def split: if_splits)
qed


section \<open>Deltas between canonical snapshots pass the validator\<close>

lemma diffComponents_keys:
  "d \<in> set (diffComponents bs cs) \<Longrightarrow> \<exists>x. (x \<in> set bs \<or> x \<in> set cs) \<and> cd_TypeID d = cs_TypeID x"
  by (induction bs cs rule: diffComponents.induct)
    (auto simp: setComponentDelta_def removeComponentDelta_def split: if_splits)

lemma diffComponents_length: "length (diffComponents bs cs) \<le> length bs + length cs"
  by (induction bs cs rule: diffComponents.induct) auto

lemma diffComponents_fresh:
  assumes "\<forall>b \<in> set bs. k < cs_TypeID b" "\<forall>c \<in> set cs. k < cs_TypeID c"
  shows "k \<notin> cd_TypeID ` set (diffComponents bs cs)"
  using assms diffComponents_keys [of _ bs cs] by fastforce

lemma diffComponents_distinct:
  assumes "strict_keys cs_TypeID bs" "strict_keys cs_TypeID cs"
  shows "distinct (map cd_TypeID (diffComponents bs cs))"
  using assms
proof (induction bs cs rule: diffComponents.induct)
  case (4 b bs c cs)
  have "cs_TypeID b < cs_TypeID c \<Longrightarrow> cs_TypeID b \<notin> cd_TypeID ` set (diffComponents bs (c # cs))"
    "cs_TypeID c < cs_TypeID b \<Longrightarrow> cs_TypeID c \<notin> cd_TypeID ` set (diffComponents (b # bs) cs)"
    "cs_TypeID b = cs_TypeID c \<Longrightarrow> cs_TypeID c \<notin> cd_TypeID ` set (diffComponents bs cs)"
    using 4(5,6) by (intro diffComponents_fresh; fastforce)+
  with 4 show ?case by (auto simp: setComponentDelta_def removeComponentDelta_def)
qed (use diffComponents_fresh in \<open>auto simp: setComponentDelta_def removeComponentDelta_def\<close>)

lemma diffComponents_ok:
  assumes "list_all (component_ok l) bs" "list_all (component_ok l) cs" "bs = [] \<or> op \<noteq> ObjectCreate"
    "0 \<le> MaxComponentBytes l"
  shows "list_all (component_delta_ok l op) (diffComponents bs cs)"
  using assms
  by (induction bs cs rule: diffComponents.induct)
    (auto simp: setComponentDelta_def removeComponentDelta_def component_ok_def component_delta_ok_def)

lemma createObjectDelta_ok:
  assumes "object_ok l c" "0 \<le> MaxComponentBytes l" "0 \<le> MaxComponentsPerObject l"
  shows "object_delta_ok l kind (createObjectDelta c)"
proof -
  have "list_all (component_delta_ok l ObjectCreate) (map setComponentDelta (os_Components c))"
    using diffComponents_ok [of l "[]" "os_Components c"] assms by (simp add: object_ok_def diffComponents_Nil)
  moreover have "distinct (map cd_TypeID (map setComponentDelta (os_Components c)))"
    using assms(1) by (simp add: object_ok_def strict_keys_def setComponentDelta_def comp_def)
  ultimately show ?thesis
    using assms by (auto simp: object_delta_ok_def createObjectDelta_def object_ok_def)
qed

lemma updateObjectDelta_ok:
  assumes "object_ok l b" "object_ok l c" "0 \<le> MaxComponentBytes l"
  shows "object_delta_ok l FrameDelta
    (updateObjectDelta c (diffComponents (os_Components b) (os_Components c)))"
proof -
  have "int (length (diffComponents (os_Components b) (os_Components c))) \<le> MaxComponentsPerObject l * 2"
    using diffComponents_length [of "os_Components b" "os_Components c"] assms(1,2)
    by (simp add: object_ok_def)
  then show ?thesis
    using assms diffComponents_ok [of l "os_Components b" "os_Components c" ObjectUpdate]
      diffComponents_distinct [of "os_Components b" "os_Components c"]
    by (simp add: object_delta_ok_def updateObjectDelta_def object_ok_def)
qed

lemma removeObjectDelta_ok:
  "object_ok l b \<Longrightarrow> 0 \<le> MaxComponentsPerObject l \<Longrightarrow> object_delta_ok l FrameDelta (removeObjectDelta b)"
  by (simp add: object_delta_ok_def removeObjectDelta_def object_ok_def)

lemma delta_refs [simp]:
  "od_Ref (createObjectDelta c) = os_Ref c"
  "od_Ref (removeObjectDelta c) = os_Ref c"
  "od_Ref (updateObjectDelta c ds) = os_Ref c"
  by (simp_all add: createObjectDelta_def removeObjectDelta_def updateObjectDelta_def)

lemma diffObjects_keys:
  "d \<in> set (diffObjects bs cs) \<Longrightarrow> \<exists>x. (x \<in> set bs \<or> x \<in> set cs) \<and> od_Ref d = os_Ref x"
  by (induction bs cs rule: diffObjects.induct) (auto simp: Let_def split: if_splits)

lemma diffObjects_length: "length (diffObjects bs cs) \<le> length bs + length cs"
  by (induction bs cs rule: diffObjects.induct) (auto simp: Let_def)

lemma diffObjects_fresh:
  assumes "\<forall>b \<in> set bs. k < os_Ref b" "\<forall>c \<in> set cs. k < os_Ref c"
  shows "k \<notin> od_Ref ` set (diffObjects bs cs)"
  using assms diffObjects_keys [of _ bs cs] by fastforce

lemma diffObjects_distinct:
  assumes "strict_keys os_Ref bs" "strict_keys os_Ref cs"
  shows "distinct (map od_Ref (diffObjects bs cs))"
  using assms
proof (induction bs cs rule: diffObjects.induct)
  case (4 b bs c cs)
  have "os_Ref b < os_Ref c \<Longrightarrow> os_Ref b \<notin> od_Ref ` set (diffObjects bs (c # cs))"
    "os_Ref c < os_Ref b \<Longrightarrow> os_Ref c \<notin> od_Ref ` set (diffObjects (b # bs) cs)"
    "os_Ref b = os_Ref c \<Longrightarrow> os_Ref c \<notin> od_Ref ` set (diffObjects bs cs)"
    using 4(6,7) by (intro diffObjects_fresh; fastforce)+
  with 4 show ?case by (auto simp: Let_def less_ObjectRef_def [symmetric] not_less)
qed (use diffObjects_fresh in auto)

lemma diffObjects_ok:
  assumes "list_all (object_ok l) bs" "list_all (object_ok l) cs"
    "0 \<le> MaxComponentBytes l" "0 \<le> MaxComponentsPerObject l"
  shows "list_all (object_delta_ok l FrameDelta) (diffObjects bs cs)"
  using assms
  by (induction bs cs rule: diffObjects.induct)
    (auto simp: Let_def createObjectDelta_ok removeObjectDelta_ok updateObjectDelta_ok)

lemma BuildDelta_frame_ok:
  assumes "BuildDelta base cur = Inr f" "snapshot_ok l cur" "\<forall>b. base = Some b \<longrightarrow> snapshot_ok l b"
    and "limits_pos l"
  shows "frame_ok l f"
proof (cases base)
  case None
  then have f: "f = \<lparr>fr_Meta = sn_Meta cur, fr_Kind = FrameFull, fr_BaseTick = 0,
      fr_Objects = map createObjectDelta (sn_Objects cur)\<rparr>" and "meta_validate (sn_Meta cur) = Inr ()"
    using assms(1) by (auto simp: BuildDelta_def result_Inr)
  moreover have "list_all (object_delta_ok l FrameFull) (map createObjectDelta (sn_Objects cur))"
    using assms(2,4) by (auto simp: list_all_iff snapshot_ok_def limits_pos_def intro!: createObjectDelta_ok)
  ultimately show ?thesis
    using assms(2,4) by (simp add: frame_ok_def snapshot_ok_def strict_keys_def comp_def limits_pos_def)
next
  case (Some b)
  have b: "snapshot_ok l b" using assms(3) Some by simp
  have f: "f = \<lparr>fr_Meta = sn_Meta cur, fr_Kind = FrameDelta, fr_BaseTick = sn_Tick b,
      fr_Objects = diffObjects (sn_Objects b) (sn_Objects cur)\<rparr>" "meta_validate (sn_Meta cur) = Inr ()"
    "sn_Tick b < sn_Tick cur"
    using assms(1) Some by (auto simp: BuildDelta_def result_Inr not_le split: if_splits)
  moreover have "sn_Tick b \<noteq> 0"
    using b by (auto simp: snapshot_ok_def meta_validate_def split: if_splits)
  moreover have "int (length (diffObjects (sn_Objects b) (sn_Objects cur))) \<le> MaxObjects l * 2"
    using diffObjects_length [of "sn_Objects b" "sn_Objects cur"] assms(2) b by (simp add: snapshot_ok_def)
  ultimately show ?thesis
    using assms(2,4) b diffObjects_ok [of l "sn_Objects b" "sn_Objects cur"]
      diffObjects_distinct [of "sn_Objects b" "sn_Objects cur"]
    by (simp add: frame_ok_def snapshot_ok_def limits_pos_def)
qed


section \<open>Properties\<close>

text \<open>Two small snapshots of one room used as concrete inputs: the second drops object 2, changes
  object 1 and creates object 3.\<close>

definition ex_meta :: "u32 \<Rightarrow> SnapshotMeta" where
  "ex_meta tick = \<lparr>meta_RoomID = 9, meta_Epoch = 1, meta_Tick = tick, meta_SchemaVersion = 1\<rparr>"

definition ex_obj :: "u16 \<Rightarrow> bytes \<Rightarrow> ObjectState" where
  "ex_obj i d = \<lparr>os_Ref = ObjectRef i 1, os_Archetype = 7,
     os_Components = [\<lparr>cs_TypeID = 4, cs_SchemaVersion = 1, cs_Data = d\<rparr>]\<rparr>"

definition ex_base :: Snapshot where
  "ex_base = \<lparr>sn_Meta = ex_meta 1, sn_Objects = [ex_obj 1 [10], ex_obj 2 [20]]\<rparr>"

definition ex_cur :: Snapshot where
  "ex_cur = \<lparr>sn_Meta = ex_meta 2, sn_Objects = [ex_obj 1 [11, 12], ex_obj 3 [30]]\<rparr>"

definition ex_limits :: Limits where
  "ex_limits = DefaultLimits\<lparr>MaxObjects := 3\<rparr>"

lemmas ex_defs = ex_meta_def ex_obj_def ex_base_def ex_cur_def ex_limits_def DefaultLimits_def

definition ex_frame :: DeltaFrame where
  "ex_frame = projr (BuildDelta (Some ex_base) ex_cur)"

lemma ex_build: "BuildDelta (Some ex_base) ex_cur = Inr ex_frame"
proof -
  have "\<not> isl (BuildDelta (Some ex_base) ex_cur)" by code_simp
  then show ?thesis by (simp add: ex_frame_def)
qed


lemma ex_limits_norm [simp]: "normalizeLimits ex_limits = ex_limits"
  by (rule normalizeLimits_id) (simp add: limits_pos_def ex_defs)

lemma ex_snapshots_ok: "snapshot_ok ex_limits ex_base" "snapshot_ok ex_limits ex_cur"
  by code_simp+

text \<open>
  C10. What the server diffs the client rebuilds: applying the delta built between a baseline and
  the current snapshot (or the full frame built without one) to that baseline gives the current
  snapshot back, exactly. Both snapshots are canonical, and the union of their objects, and of the
  components of each updated object, keeps the limits.
\<close>

theorem delta_roundtrip:
  assumes "BuildDelta base cur = Inr f"
    and "snapshot_ok (normalizeLimits limits) cur"
    and "\<forall>b. base = Some b \<longrightarrow> snapshot_ok (normalizeLimits limits) b
          \<and> delta_fits (normalizeLimits limits) (sn_Objects b) (sn_Objects cur)"
  shows "ApplyDelta base f limits = Inr cur"
  using assms by (rule delta_roundtrip_aux)

theorem delta_roundtrip_witness:
  "ApplyDelta (Some ex_base) ex_frame ex_limits = Inr ex_cur"
proof (rule delta_roundtrip [OF ex_build])
  have "delta_fits ex_limits (sn_Objects ex_base) (sn_Objects ex_cur)" by code_simp
  then show "\<forall>b. Some ex_base = Some b \<longrightarrow> snapshot_ok (normalizeLimits ex_limits) b
      \<and> delta_fits (normalizeLimits ex_limits) (sn_Objects b) (sn_Objects ex_cur)"
    by (simp add: ex_snapshots_ok)
qed (simp add: ex_snapshots_ok)

text \<open>
  C27. Every frame built between canonical snapshots passes the validator of the codec: references
  and component types are distinct, operations are known, a full frame only creates, a removed
  object carries no components, and the doubled limits of the validator hold.
\<close>

theorem built_delta_validates:
  assumes "BuildDelta base cur = Inr f"
    and "snapshot_ok (normalizeLimits limits) cur"
    and "\<forall>b. base = Some b \<longrightarrow> snapshot_ok (normalizeLimits limits) b"
  shows "validateDeltaFrame f (normalizeLimits limits) = Inr ()"
  using BuildDelta_frame_ok [OF assms normalizeLimits_pos] by (rule frame_ok_validate)

theorem built_delta_validates_witness: "validateDeltaFrame ex_frame ex_limits = Inr ()"
  using built_delta_validates [OF ex_build, of ex_limits] by (simp add: ex_snapshots_ok)

lemma gomap_by_length: "distinct (map key xs) \<Longrightarrow> length (gomap_by key xs) = length xs"
proof -
  assume d: "distinct (map key xs)"
  have "length (gomap_by key xs) = card (key ` set xs)"
    using gomap_card [OF gomap_ok_by, of key xs] unfolding gomap_by_get [OF d] index_by_dom by simp
  then show ?thesis using distinct_card [OF d] by simp
qed

lemma full_room_loop:
  assumes "object_ok l c" "gomap_ok m" "int (length m) = MaxObjects l" "os_Ref c \<notin> dom (map_of m)"
  shows "apply_object_loop l m (createObjectDelta c # ds) = Inl ErrObjectLimit"
proof -
  have "int (length (AList.update (os_Ref c) c' m)) > MaxObjects l" for c'
    using gomap_length_update [OF assms(2), of "os_Ref c" c'] assms(3,4) by simp
  then show ?thesis using apply_create_raw [OF assms(1)] by metis
qed

lemma diffObjects_head_create:
  assumes "bs \<noteq> []" "\<forall>x \<in> set bs. os_Ref c < os_Ref x"
  shows "diffObjects bs (c # cs) = createObjectDelta c # diffObjects bs cs"
proof (cases bs)
  case (Cons b bs')
  then have c: "os_Ref c < os_Ref b" using assms(2) by simp
  then have "\<not> os_Ref b < os_Ref c" by simp
  with c show ?thesis unfolding Cons less_ObjectRef_def by simp
qed (use assms(1) in simp)

lemma BuildDelta_Some_Inr:
  assumes "BuildDelta (Some b) cur = Inr f"
  shows "f = \<lparr>fr_Meta = sn_Meta cur, fr_Kind = FrameDelta, fr_BaseTick = sn_Tick b,
      fr_Objects = diffObjects (sn_Objects b) (sn_Objects cur)\<rparr>"
    "meta_validate (sn_Meta cur) = Inr ()"
    "meta_RoomID (sn_Meta b) = meta_RoomID (sn_Meta cur)" "meta_Epoch (sn_Meta b) = meta_Epoch (sn_Meta cur)"
    "meta_SchemaVersion (sn_Meta b) = meta_SchemaVersion (sn_Meta cur)" "sn_Tick b < sn_Tick cur"
  using assms by (simp_all add: BuildDelta_def result_Inr not_le split: if_splits)

lemma ApplyDelta_built:
  assumes "BuildDelta (Some b) cur = Inr f" "snapshot_ok l b"
  shows "ApplyDelta (Some b) f limits =
    try_bind (apply_object_loop (normalizeLimits limits) (gomap_by os_Ref (sn_Objects b))
        (diffObjects (sn_Objects b) (sn_Objects cur)))
      (\<lambda>m. NewSnapshot (sn_Meta cur) (govalues m) (normalizeLimits limits))"
proof -
  have "sn_Tick b \<noteq> 0" using assms(2) by (auto simp: snapshot_ok_def meta_validate_def split: if_splits)
  with BuildDelta_Some_Inr(2-5) [OF assms(1)] show ?thesis
    unfolding BuildDelta_Some_Inr(1) [OF assms(1)] ApplyDelta_def Let_def by simp
qed

text \<open>
  C36. A limit the two sides do not agree on: when the room is full and the new snapshot starts
  with an object whose reference is smaller than every old one, the server builds and validates
  the delta, but the client refuses it with the object limit, because the create is counted before
  the removes that make room for it.
\<close>

theorem full_room_delta_refused:
  assumes "BuildDelta (Some b) cur = Inr f"
    and "snapshot_ok (normalizeLimits limits) b" "snapshot_ok (normalizeLimits limits) cur"
    and "int (length (sn_Objects b)) = MaxObjects (normalizeLimits limits)"
    and "sn_Objects cur = c # cs" "\<forall>x \<in> set (sn_Objects b). os_Ref c < os_Ref x"
  shows "validateDeltaFrame f (normalizeLimits limits) = Inr ()
    \<and> ApplyDelta (Some b) f limits = Inl ErrObjectLimit"
proof
  let ?l = "normalizeLimits limits" and ?m = "gomap_by os_Ref (sn_Objects b)"
  show "validateDeltaFrame f ?l = Inr ()"
    using BuildDelta_frame_ok [OF assms(1,3) _ normalizeLimits_pos] assms(2)
    by (intro frame_ok_validate) simp
  have d: "distinct (map os_Ref (sn_Objects b))"
    using assms(2) by (simp add: snapshot_ok_def strict_keys_def)
  have ne: "sn_Objects b \<noteq> []"
    using assms(4) normalizeLimits_pos [of limits] by (auto simp: limits_pos_def)
  have "os_Ref c \<notin> dom (map_of ?m)"
    unfolding gomap_by_get [OF d] index_by_dom using assms(6) by fastforce
  moreover have "object_ok ?l c" using assms(3,5) by (simp add: snapshot_ok_def)
  ultimately have "apply_object_loop ?l ?m (diffObjects (sn_Objects b) (c # cs)) = Inl ErrObjectLimit"
    unfolding diffObjects_head_create [OF ne assms(6)]
    by (intro full_room_loop) (simp_all add: gomap_by_length [OF d] assms(4))
  then show "ApplyDelta (Some b) f limits = Inl ErrObjectLimit"
    by (simp add: ApplyDelta_built [OF assms(1,2)] assms(5))
qed

definition ex_full_base :: Snapshot where
  "ex_full_base = \<lparr>sn_Meta = ex_meta 1, sn_Objects = [ex_obj 3 [30]]\<rparr>"

definition ex_full_cur :: Snapshot where
  "ex_full_cur = \<lparr>sn_Meta = ex_meta 2, sn_Objects = [ex_obj 1 [10]]\<rparr>"

definition ex_one :: Limits where
  "ex_one = DefaultLimits\<lparr>MaxObjects := 1\<rparr>"

theorem full_room_delta_refused_witness:
  "snapshot_ok ex_one ex_full_base \<and> snapshot_ok ex_one ex_full_cur
   \<and> ApplyDelta (Some ex_full_base) (projr (BuildDelta (Some ex_full_base) ex_full_cur)) ex_one
     = Inl ErrObjectLimit"
proof -
  have l: "normalizeLimits ex_one = ex_one"
    by (rule normalizeLimits_id) code_simp
  have ok: "snapshot_ok ex_one ex_full_base" "snapshot_ok ex_one ex_full_cur"
    by code_simp+
  have "\<not> isl (BuildDelta (Some ex_full_base) ex_full_cur)" by code_simp
  then have "BuildDelta (Some ex_full_base) ex_full_cur = Inr (projr (BuildDelta (Some ex_full_base) ex_full_cur))"
    by simp
  moreover have "int (length (sn_Objects ex_full_base)) = MaxObjects ex_one"
    "sn_Objects ex_full_cur = ex_obj 1 [10] # []"
    "\<forall>x \<in> set (sn_Objects ex_full_base). os_Ref (ex_obj 1 [10]) < os_Ref x"
    by code_simp+
  ultimately show ?thesis
    using full_room_delta_refused [of ex_full_base ex_full_cur _ ex_one "ex_obj 1 [10]" "[]"] ok
    unfolding l by blast
qed

text \<open>
  C20. Whatever frame arrives, a snapshot that ApplyDelta returns is canonical and within the limits,
  carries the metadata of the frame, and, for a delta frame, was applied to a baseline with the tick
  the frame names and with the same room, epoch and schema.
\<close>

theorem ApplyDelta_safe:
  assumes "ApplyDelta base f limits = Inr s"
  shows "snapshot_ok (normalizeLimits limits) s \<and> sn_Meta s = fr_Meta f
    \<and> (fr_Kind f = FrameFull \<and> fr_BaseTick f = 0
       \<or> fr_Kind f = FrameDelta \<and> (\<exists>b. base = Some b \<and> sn_Tick b = fr_BaseTick f
            \<and> meta_RoomID (sn_Meta b) = meta_RoomID (fr_Meta f) \<and> meta_Epoch (sn_Meta b) = meta_Epoch (fr_Meta f)
            \<and> meta_SchemaVersion (sn_Meta b) = meta_SchemaVersion (fr_Meta f)))"
proof -
  obtain m :: "(ObjectRef, ObjectState) gomap" where m: "NewSnapshot (fr_Meta f) (govalues m) (normalizeLimits limits) = Inr s"
    using assms unfolding ApplyDelta_def Let_def try_bind_Inr_iff by blast
  have "fr_Kind f = FrameFull \<and> fr_BaseTick f = 0
       \<or> fr_Kind f = FrameDelta \<and> (\<exists>b. base = Some b \<and> sn_Tick b = fr_BaseTick f
            \<and> meta_RoomID (sn_Meta b) = meta_RoomID (fr_Meta f) \<and> meta_Epoch (sn_Meta b) = meta_Epoch (fr_Meta f)
            \<and> meta_SchemaVersion (sn_Meta b) = meta_SchemaVersion (fr_Meta f))"
    using assms unfolding ApplyDelta_def Let_def try_bind_Inr_iff
    by (auto split: if_splits option.splits)
  with m show ?thesis unfolding NewSnapshot_Inr normalizeLimits_idem by blast
qed

theorem ApplyDelta_safe_witness:
  "snapshot_ok ex_limits (projr (ApplyDelta (Some ex_base) ex_frame ex_limits))"
proof -
  have "\<not> isl (ApplyDelta (Some ex_base) ex_frame ex_limits)" by code_simp
  then have "ApplyDelta (Some ex_base) ex_frame ex_limits
      = Inr (projr (ApplyDelta (Some ex_base) ex_frame ex_limits))" by simp
  from ApplyDelta_safe [OF this] show ?thesis by simp
qed

end
