(* ===== verification/Checksum.thy ===== *)
theory Checksum
  imports Prelude
begin

text \<open>
  The two checksums that guard the packets of the replication protocol: CRC-32 with the IEEE
  polynomial, as \<open>hash/crc32\<close> computes it, for datagrams (\<open>datagram.go\<close>, \<open>checksumDatagram\<close>), and
  32-bit FNV-1a for control messages (\<open>control.go\<close>, \<open>checksumControl\<close>). Both absorb one byte at a
  time. The interface \<open>byte_hash\<close> states the two laws that both steps have, injectivity in the
  state and in the byte, and derives from them that a change of one byte is always noticed.
\<close>

locale byte_hash =
  fixes step :: "'h \<Rightarrow> u8 \<Rightarrow> 'h"
  assumes step_state: "step h b = step h' b \<Longrightarrow> h = h'"
    and step_byte: "step h b = step h b' \<Longrightarrow> b = b'"
begin

lemma foldl_state: "foldl step h bs = foldl step h' bs \<Longrightarrow> h = h'"
  by (induction bs arbitrary: h h') (auto dest: step_state)

lemma detects_byte:
  assumes "i < length bs" "bs ! i \<noteq> b"
  shows "foldl step h (bs[i := b]) \<noteq> foldl step h bs"
proof
  assume eq: "foldl step h (bs[i := b]) = foldl step h bs"
  let ?s = "foldl step h (take i bs)"
  have "foldl step (step ?s b) (drop (Suc i) bs) = foldl step (step ?s (bs ! i)) (drop (Suc i) bs)"
    using eq assms(1) id_take_nth_drop [OF assms(1)] upd_conv_take_nth_drop [OF assms(1), of b]
    by (metis foldl_append foldl_Cons)
  then have "step ?s b = step ?s (bs ! i)" by (rule foldl_state)
  then show False using step_byte assms(2) by metis
qed

end

lemma xor_cancel_right: "a XOR b = c XOR b \<Longrightarrow> a = (c :: 'a::len word)"
proof -
  have "(x XOR b) XOR b = x" for x by (rule bit_word_eqI) (auto simp: bit_xor_iff)
  then show "a XOR b = c XOR b \<Longrightarrow> a = c" by metis
qed

lemma xor_cancel_left: "b XOR a = b XOR c \<Longrightarrow> a = (c :: 'a::len word)"
  by (metis xor_cancel_right xor.commute)

lemma u8_u32_inj: "ucast (b :: u8) = (ucast b' :: u32) \<Longrightarrow> b = b'"
proof (rule bit_word_eqI)
  fix n
  assume eq: "ucast b = (ucast b' :: u32)" and n: "n < LENGTH(8)"
  have "bit (ucast x :: u32) n \<longleftrightarrow> bit x n" for x :: u8
    using n by (simp add: bit_ucast_iff)
  with eq show "bit b n \<longleftrightarrow> bit b' n" by metis
qed

section \<open>CRC-32\<close>

definition crc_bit :: "u32 \<Rightarrow> u32" where
  "crc_bit c = drop_bit 1 c XOR (if bit c 0 then 0xEDB88320 else 0)"

definition crc_byte :: "u32 \<Rightarrow> u8 \<Rightarrow> u32" where
  "crc_byte c b = (crc_bit ^^ 8) (c XOR ucast b)"

definition crc32 :: "bytes \<Rightarrow> u32" where
  "crc32 bs = NOT (foldl crc_byte (NOT 0) bs)"

text \<open>The polynomial has its top bit set, so that bit tells which way a shift went and the shift can
  be undone.\<close>

lemma crc_bit_top: "bit (crc_bit c) 31 \<longleftrightarrow> bit c 0"
proof -
  have "bit (0xEDB88320 :: u32) 31" by code_simp
  moreover have "\<not> bit (drop_bit 1 c) 31"
    using bit_imp_le_length [of c 32] by (auto simp: bit_drop_bit_eq)
  ultimately show ?thesis by (simp add: crc_bit_def bit_xor_iff)
qed

lemma crc_bit_inj: "crc_bit c = crc_bit d \<Longrightarrow> c = d"
proof (rule bit_word_eqI)
  fix n
  assume eq: "crc_bit c = crc_bit d" and n: "n < LENGTH(32)"
  have odd: "bit c 0 \<longleftrightarrow> bit d 0" using crc_bit_top eq by metis
  with eq have drop: "drop_bit 1 c = drop_bit 1 d"
    by (auto simp: crc_bit_def dest: xor_cancel_right split: if_splits)
  show "bit c n \<longleftrightarrow> bit d n"
  proof (cases n)
    case 0
    with odd show ?thesis by simp
  next
    case (Suc m)
    have "bit (drop_bit 1 c) m \<longleftrightarrow> bit (drop_bit 1 d) m" using drop by simp
    with Suc show ?thesis by (simp add: bit_drop_bit_eq)
  qed
qed

lemma crc_bits_inj: "(crc_bit ^^ n) c = (crc_bit ^^ n) d \<Longrightarrow> c = d"
  by (induction n) (auto dest: crc_bit_inj)

interpretation crc_hash: byte_hash crc_byte
proof
  show "h = h'" if "crc_byte h b = crc_byte h' b" for h h' b
    by (rule xor_cancel_right [OF crc_bits_inj [OF that [unfolded crc_byte_def]]])
  show "b = b'" if "crc_byte h b = crc_byte h b'" for h b b'
    by (rule u8_u32_inj [OF xor_cancel_left [OF crc_bits_inj [OF that [unfolded crc_byte_def]]]])
qed

lemma crc32_detects:
  "i < length bs \<Longrightarrow> bs ! i \<noteq> b \<Longrightarrow> crc32 (bs[i := b]) \<noteq> crc32 bs"
  unfolding crc32_def by (metis crc_hash.detects_byte bit.double_compl)

section \<open>FNV-1a\<close>

definition fnv_byte :: "u32 \<Rightarrow> u8 \<Rightarrow> u32" where
  "fnv_byte h b = (h XOR ucast b) * 16777619"

definition fnv1a :: "bytes \<Rightarrow> u32" where
  "fnv1a bs = foldl fnv_byte 2166136261 bs"

text \<open>The prime is odd, hence invertible modulo \<open>2 ^ 32\<close>.\<close>

lemma fnv_prime_inj: "x * 16777619 = y * 16777619 \<Longrightarrow> x = (y :: u32)"
proof -
  assume eq: "x * 16777619 = y * 16777619"
  have one: "(16777619 :: u32) * 899433627 = 1" by code_simp
  have inv: "z * 16777619 * 899433627 = z" for z :: u32
    unfolding mult.assoc one by (rule mult_1_right)
  have "x = x * 16777619 * 899433627" by (rule inv [symmetric])
  also have "\<dots> = y" unfolding eq by (rule inv)
  finally show "x = y" .
qed

interpretation fnv_hash: byte_hash fnv_byte
proof
  show "h = h'" if "fnv_byte h b = fnv_byte h' b" for h h' b
    by (rule xor_cancel_right [OF fnv_prime_inj [OF that [unfolded fnv_byte_def]]])
  show "b = b'" if "fnv_byte h b = fnv_byte h b'" for h b b'
    by (rule u8_u32_inj [OF xor_cancel_left [OF fnv_prime_inj [OF that [unfolded fnv_byte_def]]]])
qed

lemma fnv1a_detects:
  "i < length bs \<Longrightarrow> bs ! i \<noteq> b \<Longrightarrow> fnv1a (bs[i := b]) \<noteq> fnv1a bs"
  unfolding fnv1a_def by (rule fnv_hash.detects_byte)

section \<open>Sealed packets\<close>

text \<open>A packet that carries the hash of itself, taken while the four bytes of the hash are zero.\<close>

definition zeroed :: "nat \<Rightarrow> bytes \<Rightarrow> bytes" where
  "zeroed lo packet = take lo packet @ [0, 0, 0, 0] @ drop (lo + 4) packet"

lemma length_zeroed: "lo + 4 \<le> length packet \<Longrightarrow> length (zeroed lo packet) = length packet"
  by (simp add: zeroed_def)

lemma zeroed_nth:
  "lo + 4 \<le> length packet \<Longrightarrow> j < length packet
    \<Longrightarrow> zeroed lo packet ! j = (if j < lo \<or> lo + 4 \<le> j then packet ! j else 0)"
  by (auto simp: zeroed_def nth_append nth_Cons')

lemma zeroed_update:
  assumes "lo + 4 \<le> length packet" "i < length packet"
  shows "zeroed lo (packet[i := b]) = (if i < lo \<or> lo + 4 \<le> i then (zeroed lo packet)[i := b] else zeroed lo packet)"
  using assms
  by (intro nth_equalityI) (auto simp: length_zeroed zeroed_nth nth_list_update)

text \<open>The contract of a decoder of sealed packets, and what it gives: no two accepted packets differ
  in exactly one byte.\<close>

locale sealed_packet =
  fixes hash :: "bytes \<Rightarrow> u32" and lo :: nat and accepts :: "bytes \<Rightarrow> bool"
  assumes hash_detects: "i < length bs \<Longrightarrow> bs ! i \<noteq> b \<Longrightarrow> hash (bs[i := b]) \<noteq> hash bs"
    and accepts_sealed: "accepts p \<Longrightarrow> lo + 4 \<le> length p \<and> hash (zeroed lo p) = be_at lo (lo + 4) p"
begin

lemma corruption:
  assumes "accepts packet" "i < length packet" "packet ! i \<noteq> b"
  shows "\<not> accepts (packet[i := b])"
proof
  assume y: "accepts (packet[i := b])"
  let ?p = "packet[i := b]"
  have len: "lo + 4 \<le> length packet" using accepts_sealed [OF assms(1)] by blast
  have sum: "hash (zeroed lo packet) = be_at lo (lo + 4) packet" "hash (zeroed lo ?p) = be_at lo (lo + 4) ?p"
    using accepts_sealed [OF assms(1)] accepts_sealed [OF y] by blast+
  note upd = zeroed_update [OF len assms(2), of b]
  show False
  proof (cases "i < lo \<or> lo + 4 \<le> i")
    case True
    have "hash (zeroed lo ?p) \<noteq> hash (zeroed lo packet)"
      unfolding upd using len assms(2,3) True
      by (simp, intro hash_detects) (auto simp: length_zeroed zeroed_nth)
    moreover have "slice lo (lo + 4) ?p = slice lo (lo + 4) packet" by (rule slice_update_other [OF True])
    ultimately show False using sum by simp
  next
    case False
    then have "slice lo (lo + 4) ?p \<noteq> slice lo (lo + 4) packet"
      using len assms(3) by (intro slice_update_inside) auto
    moreover have "be_at lo (lo + 4) ?p = (be_at lo (lo + 4) packet :: u32)"
      using sum False unfolding upd by simp
    then have "slice lo (lo + 4) ?p = slice lo (lo + 4) packet"
      using be_enc_at [of "lo + 4" lo ?p, where 'a = 32] be_enc_at [of "lo + 4" lo packet, where 'a = 32] len
      by (simp del: be_enc.simps)
    ultimately show False by simp
  qed
qed

end

end
