(* ===== verification/Repl_Datagram.thy ===== *)
theory Repl_Datagram
  imports Repl_Codec Checksum
begin

text \<open>
  The datagram layer of the replication protocol (\<open>src/replication/datagram.go\<close>): an encoded frame is
  cut into checksummed packets (\<open>FragmentFrame\<close>, \<open>encodeDatagram\<close>), packets are read back
  (\<open>decodeDatagram\<close>), and a \<open>Reassembler\<close> collects the packets of a frame in any order.

  Times are integers (nanoseconds), zero is the zero time, and the wall clock is an argument of
  the operations that read it. An operation under the mutex of the \<open>Reassembler\<close> is one step on its
  state. A received chunk is \<open>None\<close> where the Go slice is nil; the copy of an empty payload is nil.
\<close>

section \<open>Packets\<close>

abbreviation (input) datagramMagic :: u32 where "datagramMagic \<equiv> 0x43524431"
abbreviation (input) DatagramHeaderSize :: nat where "DatagramHeaderSize \<equiv> 42"
abbreviation (input) DatagramFlagFull :: u16 where "DatagramFlagFull \<equiv> 1"

record DatagramHeader =
  dh_Protocol :: u16
  dh_Flags :: u16
  dh_RoomID :: u64
  dh_Epoch :: u32
  dh_Tick :: u32
  dh_BaseTick :: u32
  dh_Sequence :: u32
  dh_ChunkIndex :: u16
  dh_ChunkCount :: u16
  dh_PayloadLen :: u16
  dh_Checksum :: u32

definition noHeader :: DatagramHeader where
  "noHeader = \<lparr>dh_Protocol = 0, dh_Flags = 0, dh_RoomID = 0, dh_Epoch = 0, dh_Tick = 0, dh_BaseTick = 0,
     dh_Sequence = 0, dh_ChunkIndex = 0, dh_ChunkCount = 0, dh_PayloadLen = 0, dh_Checksum = 0\<rparr>"

definition checksumDatagram :: "bytes \<Rightarrow> u32" where
  "checksumDatagram packet = crc32 (take 38 packet @ [0, 0, 0, 0]
     @ (if length packet > DatagramHeaderSize then drop DatagramHeaderSize packet else []))"

definition put_datagram_header :: "DatagramHeader \<Rightarrow> bytes" where
  "put_datagram_header h = be_enc 4 datagramMagic @ be_enc 2 (dh_Protocol h) @ be_enc 2 (dh_Flags h)
     @ be_enc 8 (dh_RoomID h) @ be_enc 4 (dh_Epoch h) @ be_enc 4 (dh_Tick h) @ be_enc 4 (dh_BaseTick h)
     @ be_enc 4 (dh_Sequence h) @ be_enc 2 (dh_ChunkIndex h) @ be_enc 2 (dh_ChunkCount h)
     @ be_enc 2 (dh_PayloadLen h)"

text \<open>The packet is checksummed while its checksum field is still zero; the field is written last.\<close>

definition encodeDatagram :: "DatagramHeader \<Rightarrow> bytes \<Rightarrow> bytes result" where
  "encodeDatagram h payload =
     (if dh_Protocol h \<noteq> ProtocolVersion \<or> dh_RoomID h = 0 \<or> dh_Epoch h = 0 \<or> dh_Tick h = 0
        \<or> dh_Sequence h = 0 \<or> dh_ChunkCount h = 0 \<or> dh_ChunkIndex h \<ge> dh_ChunkCount h
        \<or> length payload \<noteq> unat (dh_PayloadLen h)
      then Inl ErrInvalidDatagram
      else
        let packet = put_datagram_header h @ be_enc 4 (0 :: u32) @ payload in
        Inr (take 38 packet @ be_enc 4 (checksumDatagram packet) @ drop 42 packet))"

definition get_datagram_header :: "bytes \<Rightarrow> DatagramHeader" where
  "get_datagram_header packet =
     \<lparr>dh_Protocol = be_at 4 6 packet, dh_Flags = be_at 6 8 packet, dh_RoomID = be_at 8 16 packet,
      dh_Epoch = be_at 16 20 packet, dh_Tick = be_at 20 24 packet, dh_BaseTick = be_at 24 28 packet,
      dh_Sequence = be_at 28 32 packet, dh_ChunkIndex = be_at 32 34 packet,
      dh_ChunkCount = be_at 34 36 packet, dh_PayloadLen = be_at 36 38 packet,
      dh_Checksum = be_at 38 42 packet\<rparr>"

text \<open>The flag \<open>copyPayload\<close> decides only whether the payload is copied, so it has no counterpart on
  values; \<open>DecodeDatagram\<close> and \<open>InspectDatagram\<close> are the two callers.\<close>

definition decodeDatagram :: "bytes \<Rightarrow> Limits \<Rightarrow> (DatagramHeader \<times> bytes) result" where
  "decodeDatagram packet limits =
     (let l = normalizeLimits limits in
      if length packet < DatagramHeaderSize \<or> int (length packet) > MaxDatagramBytes l
        \<or> be_at 0 4 packet \<noteq> datagramMagic
      then Inl ErrInvalidDatagram
      else
        let h = get_datagram_header packet in
        if dh_Protocol h \<noteq> ProtocolVersion \<or> dh_RoomID h = 0 \<or> dh_Epoch h = 0 \<or> dh_Tick h = 0
          \<or> dh_Sequence h = 0 \<or> dh_ChunkCount h = 0 \<or> uint (dh_ChunkCount h) > MaxFragments l
          \<or> dh_ChunkIndex h \<ge> dh_ChunkCount h
          \<or> unat (dh_PayloadLen h) \<noteq> length packet - DatagramHeaderSize
          \<or> dh_Flags h AND NOT DatagramFlagFull \<noteq> 0
        then Inl ErrInvalidDatagram
        else if checksumDatagram packet \<noteq> dh_Checksum h then Inl ErrChecksumMismatch
        else Inr (h, drop DatagramHeaderSize packet))"

definition DecodeDatagram :: "bytes \<Rightarrow> Limits \<Rightarrow> (DatagramHeader \<times> bytes) result" where
  "DecodeDatagram packet limits = decodeDatagram packet limits"

definition InspectDatagram :: "bytes \<Rightarrow> Limits \<Rightarrow> DatagramHeader result" where
  "InspectDatagram packet limits = try_bind (decodeDatagram packet limits) (\<lambda>(h, _). Inr h)"

section \<open>Fragmentation\<close>

definition fragment_header :: "DeltaFrame \<Rightarrow> u32 \<Rightarrow> u16 \<Rightarrow> nat \<Rightarrow> nat \<Rightarrow> nat \<Rightarrow> DatagramHeader" where
  "fragment_header f seq flags n i len =
     \<lparr>dh_Protocol = ProtocolVersion, dh_Flags = flags, dh_RoomID = meta_RoomID (fr_Meta f),
      dh_Epoch = meta_Epoch (fr_Meta f), dh_Tick = meta_Tick (fr_Meta f), dh_BaseTick = fr_BaseTick f,
      dh_Sequence = seq, dh_ChunkIndex = of_nat i, dh_ChunkCount = of_nat n,
      dh_PayloadLen = of_nat len, dh_Checksum = 0\<rparr>"

fun fragment_loop :: "(nat \<Rightarrow> bytes result) \<Rightarrow> int \<Rightarrow> nat list \<Rightarrow> bytes list result" where
  "fragment_loop enc maxDatagram [] = Inr []"
| "fragment_loop enc maxDatagram (i # is) =
     try_bind (enc i) (\<lambda>packet.
       if int (length packet) > maxDatagram then Inl ErrInvalidDatagram
       else try_bind (fragment_loop enc maxDatagram is) (\<lambda>out. Inr (packet # out)))"

definition FragmentFrame :: "DeltaFrame \<Rightarrow> u32 \<Rightarrow> bytes \<Rightarrow> int \<Rightarrow> Limits \<Rightarrow> bytes list result" where
  "FragmentFrame f seq encoded maxDatagram0 limits =
     (let l = normalizeLimits limits in
      if seq = 0 \<or> length encoded = 0 \<or> int (length encoded) > MaxFrameBytes l then Inl ErrInvalidDatagram
      else
        let maxDatagram = (if maxDatagram0 \<le> 0 then DefaultMaxDatagram else maxDatagram0) in
        if maxDatagram > MaxDatagramBytes l then Inl ErrInvalidDatagram
        else
          let maxPayload = maxDatagram - int DatagramHeaderSize in
          if maxPayload \<le> 0 \<or> maxPayload > 65535 then Inl ErrInvalidDatagram
          else
            let count = (int (length encoded) + maxPayload - 1) div maxPayload in
            if count \<le> 0 \<or> count > MaxFragments l \<or> count > 65535 then Inl ErrFragmentLimit
            else
              let flags = (if fr_Kind f = FrameFull then DatagramFlagFull else 0);
                  enc = (\<lambda>i. let start = i * nat maxPayload;
                                 end' = min (start + nat maxPayload) (length encoded)
                             in encodeDatagram (fragment_header f seq flags (nat count) i (end' - start))
                                  (slice start end' encoded))
              in fragment_loop enc maxDatagram [0..<nat count])"

section \<open>Reassembly\<close>

record assemblyKey =
  ak_session :: SessionID
  ak_roomID :: u64
  ak_epoch :: u32
  ak_tick :: u32
  ak_sequence :: u32

record frameAssembly =
  fa_header :: DatagramHeader
  fa_created :: int
  fa_chunks :: "bytes option list"
  fa_received :: nat
  fa_total :: nat

record Reassembler =
  ra_limits :: Limits
  ra_ttl :: int
  ra_inflight :: "(assemblyKey, frameAssembly) gomap"

definition NewReassembler :: "Limits \<Rightarrow> int \<Rightarrow> Reassembler" where
  "NewReassembler limits ttl = \<lparr>ra_limits = normalizeLimits limits,
     ra_ttl = (if ttl \<le> 0 then 2000000000 else ttl), ra_inflight = []\<rparr>"

definition expireLocked :: "Reassembler \<Rightarrow> int \<Rightarrow> Reassembler \<times> nat" where
  "expireLocked r now =
     (let live = filter (\<lambda>(_, a). \<not> now - fa_created a \<ge> ra_ttl r) (ra_inflight r)
      in (r\<lparr>ra_inflight := live\<rparr>, length (ra_inflight r) - length live))"

text \<open>The four results of \<open>push\<close>: the frame, whether it is complete, the header, the error.\<close>

type_synonym push_result = "bytes \<times> bool \<times> DatagramHeader \<times> repl_error option"

definition assembly_key :: "SessionID \<Rightarrow> DatagramHeader \<Rightarrow> assemblyKey" where
  "assembly_key session h = \<lparr>ak_session = session, ak_roomID = dh_RoomID h, ak_epoch = dh_Epoch h,
     ak_tick = dh_Tick h, ak_sequence = dh_Sequence h\<rparr>"

definition new_assembly :: "DatagramHeader \<Rightarrow> int \<Rightarrow> frameAssembly" where
  "new_assembly h now = \<lparr>fa_header = h, fa_created = now,
     fa_chunks = replicate (unat (dh_ChunkCount h)) None, fa_received = 0, fa_total = 0\<rparr>"

definition nil_if_empty :: "bytes \<Rightarrow> bytes option" where
  "nil_if_empty payload = (if payload = [] then None else Some payload)"

text \<open>The rest of \<open>push\<close> once the assembly of the packet is known.\<close>

definition push_chunk ::
  "Reassembler \<Rightarrow> assemblyKey \<Rightarrow> frameAssembly \<Rightarrow> DatagramHeader \<Rightarrow> bytes \<Rightarrow> Reassembler \<times> push_result" where
  "push_chunk r key a h payload =
     (let drop = r\<lparr>ra_inflight := AList.delete key (ra_inflight r)\<rparr>;
          index = unat (dh_ChunkIndex h) in
      case fa_chunks a ! index of
        Some existing \<Rightarrow>
          if existing \<noteq> payload then (drop, [], False, h, Some ErrInvalidDatagram)
          else (r, [], False, h, None)
      | None \<Rightarrow>
          if int (fa_total a + length payload) > MaxFrameBytes (ra_limits r)
          then (drop, [], False, h, Some ErrFrameTooLarge)
          else
            let a' = a\<lparr>fa_chunks := (fa_chunks a)[index := nil_if_empty payload],
                       fa_received := fa_received a + 1, fa_total := fa_total a + length payload\<rparr>;
                r' = r\<lparr>ra_inflight := AList.update key a' (ra_inflight r)\<rparr> in
            if fa_received a' \<noteq> length (fa_chunks a') then (r', [], False, h, None)
            else (drop, concat (map (case_option [] id) (fa_chunks a')), True, h, None))"

definition push ::
  "int \<Rightarrow> Reassembler \<Rightarrow> SessionID \<Rightarrow> bytes \<Rightarrow> int \<Rightarrow> Reassembler \<times> push_result" where
  "push clock r0 session packet now0 =
     (let now = (if now0 = 0 then clock else now0) in
      case DecodeDatagram packet (ra_limits r0) of
        Inl e \<Rightarrow> (r0, [], False, noHeader, Some e)
      | Inr (h, payload) \<Rightarrow>
          if dh_ChunkCount h = 1 then (r0, payload, True, h, None)
          else
            let key = assembly_key session h; r = fst (expireLocked r0 now) in
            case map_of (ra_inflight r) key of
              None \<Rightarrow>
                if int (length (ra_inflight r)) \<ge> MaxInflightFrames (ra_limits r)
                then (r, [], False, h, Some ErrReassemblyCapacity)
                else
                  let a = new_assembly h now in
                  push_chunk (r\<lparr>ra_inflight := AList.update key a (ra_inflight r)\<rparr>) key a h payload
            | Some a \<Rightarrow>
                if dh_ChunkCount (fa_header a) \<noteq> dh_ChunkCount h \<or> dh_BaseTick (fa_header a) \<noteq> dh_BaseTick h
                  \<or> dh_Flags (fa_header a) \<noteq> dh_Flags h
                then (r\<lparr>ra_inflight := AList.delete key (ra_inflight r)\<rparr>, [], False, h, Some ErrInvalidDatagram)
                else push_chunk r key a h payload)"

definition Push :: "int \<Rightarrow> Reassembler \<Rightarrow> bytes \<Rightarrow> int \<Rightarrow> Reassembler \<times> push_result" where
  "Push clock r packet now = push clock r 0 packet now"

definition PushFor :: "int \<Rightarrow> Reassembler \<Rightarrow> SessionID \<Rightarrow> bytes \<Rightarrow> int \<Rightarrow> Reassembler \<times> push_result" where
  "PushFor clock r session packet now =
     (if session = 0 then (r, [], False, noHeader, Some ErrSessionNotFound)
      else push clock r session packet now)"

definition Expire :: "int \<Rightarrow> Reassembler \<Rightarrow> int \<Rightarrow> Reassembler \<times> nat" where
  "Expire clock r now = expireLocked r (if now = 0 then clock else now)"

definition Len :: "Reassembler \<Rightarrow> nat" where
  "Len r = length (ra_inflight r)"


section \<open>The packet format\<close>

definition dgram :: "DatagramHeader \<Rightarrow> bytes \<Rightarrow> u32 \<Rightarrow> bytes" where
  "dgram h payload s = put_datagram_header h @ be_enc 4 s @ payload"

lemma length_put_datagram_header [simp]: "length (put_datagram_header h) = 38"
  by (simp add: put_datagram_header_def)

lemma be_enc_4_zero: "be_enc 4 (0 :: u32) = [0, 0, 0, 0]"
  by code_simp

definition header_ok :: "DatagramHeader \<Rightarrow> bool" where
  "header_ok h \<longleftrightarrow> dh_Protocol h = ProtocolVersion \<and> dh_RoomID h \<noteq> 0 \<and> dh_Epoch h \<noteq> 0 \<and> dh_Tick h \<noteq> 0
     \<and> dh_Sequence h \<noteq> 0 \<and> dh_ChunkCount h \<noteq> 0 \<and> dh_ChunkIndex h < dh_ChunkCount h"

definition datagram_sum :: "DatagramHeader \<Rightarrow> bytes \<Rightarrow> u32" where
  "datagram_sum h payload = crc32 (put_datagram_header h @ [0, 0, 0, 0] @ payload)"

lemma checksum_dgram: "checksumDatagram (dgram h payload s) = datagram_sum h payload"
  by (simp add: checksumDatagram_def dgram_def datagram_sum_def)

lemma encodeDatagram_Inr:
  "encodeDatagram h payload = Inr packet \<longleftrightarrow>
     header_ok h \<and> length payload = unat (dh_PayloadLen h) \<and> packet = dgram h payload (datagram_sum h payload)"
proof -
  have "checksumDatagram (put_datagram_header h @ be_enc 4 (0 :: u32) @ payload) = datagram_sum h payload"
    using checksum_dgram [of h payload 0] by (simp add: dgram_def)
  then show ?thesis
    by (auto simp: encodeDatagram_def header_ok_def Let_def dgram_def not_le)
qed

lemma get_header_dgram: "get_datagram_header (dgram h payload s) = h\<lparr>dh_Checksum := s\<rparr>"
  "be_at 0 4 (dgram h payload s) = datagramMagic" "drop 42 (dgram h payload s) = payload"
  by (simp_all add: get_datagram_header_def dgram_def put_datagram_header_def slice_append_right
      slice_append_left del: be_enc.simps)

lemma be_at_dgram:
  assumes "42 \<le> length packet" "be_at 0 4 packet = datagramMagic"
  shows "packet = dgram (get_datagram_header packet) (drop 42 packet) (be_at 38 42 packet)"
proof -
  note f = drop_be_fields [of _ packet]
  have "packet = be_enc 4 (be_at 0 4 packet :: u32) @ be_enc 2 (be_at 4 6 packet :: u16)
      @ be_enc 2 (be_at 6 8 packet :: u16) @ be_enc 8 (be_at 8 16 packet :: u64)
      @ be_enc 4 (be_at 16 20 packet :: u32) @ be_enc 4 (be_at 20 24 packet :: u32)
      @ be_enc 4 (be_at 24 28 packet :: u32) @ be_enc 4 (be_at 28 32 packet :: u32)
      @ be_enc 2 (be_at 32 34 packet :: u16) @ be_enc 2 (be_at 34 36 packet :: u16)
      @ be_enc 2 (be_at 36 38 packet :: u16) @ be_enc 4 (be_at 38 42 packet :: u32) @ drop 42 packet"
    using assms(1) f(3) [of 0] f(2) [of 4] f(2) [of 6] f(4) [of 8] f(3) [of 16] f(3) [of 20] f(3) [of 24]
      f(3) [of 28] f(2) [of 32] f(2) [of 34] f(2) [of 36] f(3) [of 38]
    by (simp del: be_enc.simps)
  then show ?thesis
    unfolding dgram_def put_datagram_header_def get_datagram_header_def append_assoc
      DatagramHeader.select_convs assms(2) .
qed

definition packet_fits :: "Limits \<Rightarrow> DatagramHeader \<Rightarrow> bytes \<Rightarrow> bool" where
  "packet_fits l h packet \<longleftrightarrow> int (length packet) \<le> MaxDatagramBytes l
     \<and> uint (dh_ChunkCount h) \<le> MaxFragments l \<and> dh_Flags h AND NOT DatagramFlagFull = 0"

lemma put_datagram_header_sum [simp]: "put_datagram_header (h\<lparr>dh_Checksum := s\<rparr>) = put_datagram_header h"
  by (simp add: put_datagram_header_def)

lemma header_sum_simps [simp]: "header_ok (h\<lparr>dh_Checksum := s\<rparr>) = header_ok h"
  "datagram_sum (h\<lparr>dh_Checksum := s\<rparr>) = datagram_sum h"
  "packet_fits l (h\<lparr>dh_Checksum := s\<rparr>) = packet_fits l h"
  by (simp_all add: header_ok_def datagram_sum_def packet_fits_def fun_eq_iff)

lemma decode_dgram:
  assumes "header_ok h" "length payload = unat (dh_PayloadLen h)"
    and "packet_fits (normalizeLimits limits) h (dgram h payload (datagram_sum h payload))"
  shows "decodeDatagram (dgram h payload (datagram_sum h payload)) limits
    = Inr (h\<lparr>dh_Checksum := datagram_sum h payload\<rparr>, payload)"
proof -
  have "length (dgram h payload s) = 42 + length payload" for s by (simp add: dgram_def)
  with assms show ?thesis
    by (simp add: decodeDatagram_def Let_def get_header_dgram checksum_dgram header_ok_def
        packet_fits_def not_le not_less)
qed

lemma decodeDatagram_Inr:
  assumes "decodeDatagram packet limits = Inr (h, payload)"
  shows "header_ok h \<and> length payload = unat (dh_PayloadLen h) \<and> dh_Checksum h = datagram_sum h payload
    \<and> packet = dgram h payload (datagram_sum h payload) \<and> packet_fits (normalizeLimits limits) h packet"
proof -
  have len: "42 \<le> length packet" and magic: "be_at 0 4 packet = datagramMagic"
    and h: "h = get_datagram_header packet" and payload: "payload = drop 42 packet"
    and sum: "checksumDatagram packet = dh_Checksum h"
    and ok: "header_ok h" "length payload = unat (dh_PayloadLen h)" "packet_fits (normalizeLimits limits) h packet"
    using assms
    by (auto simp: decodeDatagram_def Let_def header_ok_def packet_fits_def not_le not_less split: if_splits)
  have "packet = dgram h payload (dh_Checksum h)"
    using be_at_dgram [OF len magic] unfolding h payload by (simp add: get_datagram_header_def)
  with sum ok show ?thesis by (metis checksum_dgram)
qed

section \<open>A changed byte is noticed\<close>

lemma checksumDatagram_zeroed: "checksumDatagram packet = crc32 (zeroed 38 packet)"
  by (simp add: checksumDatagram_def zeroed_def)

interpretation datagram_seal: sealed_packet crc32 38 "\<lambda>p. \<exists>limits x. decodeDatagram p limits = Inr x"
proof
  show "crc32 (bs[i := b]) \<noteq> crc32 bs" if "i < length bs" "bs ! i \<noteq> b" for i b and bs :: bytes
    using that by (rule crc32_detects)
  show "38 + 4 \<le> length p \<and> crc32 (zeroed 38 p) = be_at 38 (38 + 4) p"
    if "\<exists>limits x. decodeDatagram p limits = Inr x" for p
    using that
    by (auto simp: decodeDatagram_def Let_def checksumDatagram_zeroed [symmetric] get_datagram_header_def
        split: if_splits)
qed

section \<open>Fragments of a frame\<close>

definition chunk :: "nat \<Rightarrow> bytes \<Rightarrow> nat \<Rightarrow> bytes" where
  "chunk k encoded i = take k (drop (i * k) encoded)"

lemma concat_chunks: "concat (map (chunk k xs) [0..<n]) = take (n * k) xs"
proof (induction n)
  case 0
  show ?case by simp
next
  case (Suc n)
  have "take (Suc n * k) xs = take (n * k) xs @ take k (drop (n * k) xs)"
    using take_add [of "n * k" k xs] by (simp add: add.commute)
  with Suc show ?case by (simp add: chunk_def)
qed

text \<open>Packet \<open>i\<close> of a frame cut into \<open>n\<close> pieces of at most \<open>k\<close> bytes.\<close>

definition frame_flags :: "DeltaFrame \<Rightarrow> u16" where
  "frame_flags f = (if fr_Kind f = FrameFull then DatagramFlagFull else 0)"

definition fragment :: "DeltaFrame \<Rightarrow> u32 \<Rightarrow> bytes \<Rightarrow> nat \<Rightarrow> nat \<Rightarrow> nat \<Rightarrow> bytes result" where
  "fragment f seq encoded k n i =
     encodeDatagram (fragment_header f seq (frame_flags f) n i (length (chunk k encoded i))) (chunk k encoded i)"

lemma fragment_loop_Inr:
  "fragment_loop enc md is = Inr ps \<longleftrightarrow>
     list_all2 (\<lambda>i p. enc i = Inr p \<and> int (length p) \<le> md) is ps"
  by (induction "is" arbitrary: ps) (auto simp: result_Inr list_all2_Cons1)

lemma slice_chunk:
  "slice (i * k) (min (i * k + k) (length xs)) xs = chunk k xs i"
  "min (i * k + k) (length xs) - i * k = length (chunk k xs i)"
  by (auto simp: slice_def chunk_def min_def)

definition fragmented :: "DeltaFrame \<Rightarrow> u32 \<Rightarrow> bytes \<Rightarrow> Limits \<Rightarrow> nat \<Rightarrow> nat \<Rightarrow> bytes list \<Rightarrow> bool" where
  "fragmented f seq encoded l k n ps \<longleftrightarrow> 0 < k \<and> length ps = n \<and> 0 < n \<and> n \<le> 65535 \<and> int n \<le> MaxFragments l
     \<and> (n - 1) * k < length encoded \<and> length encoded \<le> n * k \<and> int (length encoded) \<le> MaxFrameBytes l
     \<and> (\<forall>i<n. fragment f seq encoded k n i = Inr (ps ! i) \<and> int (length (ps ! i)) \<le> MaxDatagramBytes l)"

lemma ceil_div:
  fixes len k :: int
  assumes "0 < len" "0 < k" and n: "n = (len + k - 1) div k"
  shows "0 < n" "(n - 1) * k < len" "len \<le> n * k"
proof -
  have "len + k - 1 = n * k + (len + k - 1) mod k" unfolding n by simp
  moreover have "0 \<le> (len + k - 1) mod k" "(len + k - 1) mod k < k" using assms(2) by simp_all
  ultimately have eq: "(n - 1) * k < len" "len \<le> n * k" unfolding left_diff_distrib by linarith+
  then show "(n - 1) * k < len" "len \<le> n * k" by blast+
  have "0 < n * k" using eq(2) assms(1) by linarith
  then show "0 < n" using assms(2) by (simp add: zero_less_mult_iff)
qed

lemma FragmentFrame_fragmented:
  assumes "FragmentFrame f seq encoded md limits = Inr ps"
  shows "\<exists>k n. fragmented f seq encoded (normalizeLimits limits) k n ps"
proof -
  let ?l = "normalizeLimits limits"
  define md' where "md' = (if md \<le> 0 then DefaultMaxDatagram else md)"
  define k where "k = nat (md' - 42)"
  define n where "n = nat ((int (length encoded) + (md' - 42) - 1) div (md' - 42))"
  note F = assms [unfolded FragmentFrame_def Let_def, folded md'_def frame_flags_def, simplified if_Inl_Inr_iff]
  have g: "length encoded \<noteq> 0" "int (length encoded) \<le> MaxFrameBytes ?l" "md' \<le> MaxDatagramBytes ?l"
    "0 < md' - 42" "int n \<le> MaxFragments ?l" "int n \<le> 65535"
    using F by (simp_all add: n_def)
  have loop: "fragment_loop (\<lambda>i. encodeDatagram (fragment_header f seq (frame_flags f) n i
        (min (i * k + k) (length encoded) - i * k)) (slice (i * k) (min (i * k + k) (length encoded)) encoded))
      md' [0..<n] = Inr ps"
    using F by (simp add: n_def k_def)
  have k: "int k = md' - 42" "0 < k" using g(4) by (simp_all add: k_def)
  have n: "int n = (int (length encoded) + int k - 1) div int k"
    unfolding n_def k(1) using g(1,4) by (simp add: pos_imp_zdiv_nonneg_iff)
  have n': "0 < int n" "(int n - 1) * int k < int (length encoded)" "int (length encoded) \<le> int n * int k"
    using ceil_div [of "int (length encoded)" "int k", OF _ _ n] g(1) k(2) by simp_all
  have "int ((n - 1) * k) = (int n - 1) * int k" using n'(1) by (simp add: of_nat_diff Suc_leI)
  then have "0 < n" "(n - 1) * k < length encoded" "length encoded \<le> n * k"
    using n' by (metis of_nat_0_less_iff, metis of_nat_less_iff, metis of_nat_le_iff of_nat_mult)
  moreover have "list_all2 (\<lambda>i p. fragment f seq encoded k n i = Inr p \<and> int (length p) \<le> md') [0..<n] ps"
    using loop unfolding fragment_loop_Inr slice_chunk fragment_def .
  then have "length ps = n \<and> (\<forall>i<n. fragment f seq encoded k n i = Inr (ps ! i) \<and> int (length (ps ! i)) \<le> MaxDatagramBytes ?l)"
    using g(3) by (auto simp: list_all2_conv_all_nth)
  ultimately show ?thesis
    using g k(2) unfolding fragmented_def by (intro exI [of _ k] exI [of _ n]) simp
qed


lemma chunk_nonempty:
  assumes "i < n" "(n - 1) * k < length xs" "0 < k"
  shows "chunk k xs i \<noteq> []"
proof -
  have "i * k \<le> (n - 1) * k" using assms(1) by (intro mult_le_mono1) linarith
  then have "i * k < length xs" using assms(2) by (rule le_less_trans)
  with assms(3) show ?thesis by (simp add: chunk_def)
qed

lemma frame_flags_ok: "frame_flags f AND NOT DatagramFlagFull = 0"
  by (simp add: frame_flags_def)

lemma fragment_decodes:
  assumes "fragmented f seq encoded (normalizeLimits limits) k n ps" "i < n"
  defines "h \<equiv> fragment_header f seq (frame_flags f) n i (length (chunk k encoded i))"
  shows "decodeDatagram (ps ! i) limits
      = Inr (h\<lparr>dh_Checksum := datagram_sum h (chunk k encoded i)\<rparr>, chunk k encoded i)"
proof -
  have n: "n \<le> 65535" "int n \<le> MaxFragments (normalizeLimits limits)"
    and enc: "encodeDatagram h (chunk k encoded i) = Inr (ps ! i)"
    and len: "int (length (ps ! i)) \<le> MaxDatagramBytes (normalizeLimits limits)"
    using assms(1,2) unfolding fragmented_def fragment_def h_def by blast+
  have "uint (of_nat n :: u16) = int n" using n(1) by (rule u16_length)
  then have "packet_fits (normalizeLimits limits) h (ps ! i)"
    using n(2) len frame_flags_ok by (simp add: packet_fits_def h_def fragment_header_def)
  then show ?thesis
    using decode_dgram [of h "chunk k encoded i" limits] enc unfolding encodeDatagram_Inr by simp
qed

section \<open>Collecting the fragments of one frame\<close>

text \<open>A packet that carries chunk \<open>i\<close> of the frame \<open>key\<close>, cut into \<open>n\<close> chunks.\<close>

definition is_fragment ::
  "Limits \<Rightarrow> SessionID \<Rightarrow> assemblyKey \<Rightarrow> u32 \<Rightarrow> u16 \<Rightarrow> (nat \<Rightarrow> bytes) \<Rightarrow> nat \<Rightarrow> nat \<Rightarrow> bytes \<Rightarrow> bool" where
  "is_fragment l session key bt fl ch n i packet \<longleftrightarrow> i < n \<and> ch i \<noteq> [] \<and>
     (\<exists>h. decodeDatagram packet l = Inr (h, ch i) \<and> assembly_key session h = key
        \<and> unat (dh_ChunkIndex h) = i \<and> unat (dh_ChunkCount h) = n \<and> dh_BaseTick h = bt \<and> dh_Flags h = fl)"

text \<open>The assembly that has received the chunks with indices in \<open>S\<close>.\<close>

definition collects :: "u32 \<Rightarrow> u16 \<Rightarrow> (nat \<Rightarrow> bytes) \<Rightarrow> nat \<Rightarrow> int \<Rightarrow> nat set \<Rightarrow> frameAssembly \<Rightarrow> bool" where
  "collects bt fl ch n t S a \<longleftrightarrow> S \<subseteq> {..<n}
     \<and> fa_chunks a = map (\<lambda>i. if i \<in> S then Some (ch i) else None) [0..<n]
     \<and> fa_received a = card S \<and> fa_total a = (\<Sum>i\<in>S. length (ch i)) \<and> fa_created a = t
     \<and> unat (dh_ChunkCount (fa_header a)) = n \<and> dh_BaseTick (fa_header a) = bt \<and> dh_Flags (fa_header a) = fl"

definition add_chunk :: "nat \<Rightarrow> bytes \<Rightarrow> frameAssembly \<Rightarrow> frameAssembly" where
  "add_chunk i payload a = a\<lparr>fa_chunks := (fa_chunks a)[i := nil_if_empty payload],
     fa_received := fa_received a + 1, fa_total := fa_total a + length payload\<rparr>"

lemma collects_finite: "collects bt fl ch n t S a \<Longrightarrow> finite S"
  unfolding collects_def by (blast intro: finite_subset)

lemma collects_new: "collects (dh_BaseTick h) (dh_Flags h) ch (unat (dh_ChunkCount h)) t {} (new_assembly h t)"
  by (simp add: collects_def new_assembly_def map_replicate_const)

lemma collects_add:
  assumes "collects bt fl ch n t S a" "i < n" "i \<notin> S" "ch i \<noteq> []"
  shows "collects bt fl ch n t (insert i S) (add_chunk i (ch i) a)"
  using assms collects_finite [OF assms(1)]
  by (auto simp: collects_def add_chunk_def nil_if_empty_def nth_list_update intro!: nth_equalityI)

lemma collects_total:
  assumes "collects bt fl ch n t S a" "i < n" "i \<notin> S"
  shows "fa_total a + length (ch i) \<le> (\<Sum>i<n. length (ch i))"
proof -
  have "fa_total a + length (ch i) = (\<Sum>i\<in>insert i S. length (ch i))"
    using assms collects_finite [OF assms(1)] by (simp add: collects_def)
  also have "\<dots> \<le> (\<Sum>i<n. length (ch i))"
    using assms by (intro sum_mono2) (auto simp: collects_def)
  finally show ?thesis .
qed

lemma push_chunk_None:
  assumes "fa_chunks a ! unat (dh_ChunkIndex h) = None"
  shows "push_chunk r key a h payload =
    (let drop = r\<lparr>ra_inflight := AList.delete key (ra_inflight r)\<rparr>;
         a' = add_chunk (unat (dh_ChunkIndex h)) payload a in
     if int (fa_total a + length payload) > MaxFrameBytes (ra_limits r)
     then (drop, [], False, h, Some ErrFrameTooLarge)
     else if fa_received a' \<noteq> length (fa_chunks a')
     then (r\<lparr>ra_inflight := AList.update key a' (ra_inflight r)\<rparr>, [], False, h, None)
     else (drop, concat (map (case_option [] id) (fa_chunks a')), True, h, None))"
  unfolding push_chunk_def add_chunk_def Let_def assms by simp

lemma push_chunk_own:
  assumes a: "collects bt fl ch n t S a" and i: "i < n" "unat (dh_ChunkIndex h) = i" "ch i \<noteq> []"
    and fits: "int (\<Sum>i<n. length (ch i)) \<le> MaxFrameBytes (ra_limits r)"
  shows "push_chunk r key a h (ch i) =
    (if i \<in> S then (r, [], False, h, None)
     else if insert i S = {..<n}
     then (r\<lparr>ra_inflight := AList.delete key (ra_inflight r)\<rparr>, concat (map ch [0..<n]), True, h, None)
     else (r\<lparr>ra_inflight := AList.update key (add_chunk i (ch i) a) (ra_inflight r)\<rparr>, [], False, h, None))"
proof (cases "i \<in> S")
  case True
  with a i show ?thesis by (simp add: push_chunk_def collects_def Let_def)
next
  case False
  let ?a = "add_chunk i (ch i) a"
  note a' = collects_add [OF a i(1) False i(3)]
  have none: "fa_chunks a ! unat (dh_ChunkIndex h) = None" using a i(1,2) False by (simp add: collects_def)
  have total: "\<not> int (fa_total a + length (ch i)) > MaxFrameBytes (ra_limits r)"
    using collects_total [OF a i(1) False] fits unfolding not_less by (meson of_nat_le_iff order_trans)
  have "fa_received ?a = card (insert i S)" "length (fa_chunks ?a) = n"
    using a' by (simp_all add: collects_def)
  moreover have "card (insert i S) = n \<longleftrightarrow> insert i S = {..<n}"
    using a i(1) card_subset_eq [of "{..<n}" "insert i S"] by (auto simp: collects_def)
  ultimately have full: "fa_received ?a \<noteq> length (fa_chunks ?a) \<longleftrightarrow> insert i S \<noteq> {..<n}" by simp
  have out: "concat (map (case_option [] id) (fa_chunks ?a)) = concat (map ch [0..<n])"
    if "insert i S = {..<n}"
  proof -
    have "fa_chunks ?a = map (\<lambda>j. Some (ch j)) [0..<n]"
      using a' unfolding collects_def that by (auto intro: map_cong)
    then show ?thesis by (simp add: comp_def)
  qed
  show ?thesis
  proof (cases "insert i S = {..<n}")
    case True
    have e: "fa_received ?a = length (fa_chunks ?a)" using full True by blast
    show ?thesis unfolding push_chunk_None [OF none] Let_def i(2) if_not_P [OF total] out [OF True]
      using False True e by simp
  next
    case neq: False
    have e: "fa_received ?a \<noteq> length (fa_chunks ?a)" using full neq by blast
    show ?thesis unfolding push_chunk_None [OF none] Let_def i(2) if_not_P [OF total] if_P [OF e]
      using False neq by simp
  qed
qed

section \<open>The reassembler stays within its limits\<close>

definition assembly_ok :: "Limits \<Rightarrow> frameAssembly \<Rightarrow> bool" where
  "assembly_ok l a \<longleftrightarrow> length (fa_chunks a) = unat (dh_ChunkCount (fa_header a))
     \<and> uint (dh_ChunkCount (fa_header a)) \<le> MaxFragments l \<and> fa_received a < length (fa_chunks a)
     \<and> fa_total a = sum_list (map (case_option 0 length) (fa_chunks a))
     \<and> int (fa_total a) \<le> MaxFrameBytes l"

definition reassembler_ok :: "Reassembler \<Rightarrow> bool" where
  "reassembler_ok r \<longleftrightarrow> limits_pos (ra_limits r) \<and> gomap_ok (ra_inflight r)
     \<and> int (length (ra_inflight r)) \<le> MaxInflightFrames (ra_limits r)
     \<and> (\<forall>k a. map_of (ra_inflight r) k = Some a \<longrightarrow> assembly_ok (ra_limits r) a)"

lemma map_of_filter_gomap:
  assumes "gomap_ok m"
  shows "map_of (filter P m) k = (case map_of m k of None \<Rightarrow> None | Some v \<Rightarrow> if P (k, v) then Some v else None)"
  using assms
proof (induction m)
  case (Cons x m)
  have "map_of m (fst x) = None" using Cons.prems by (auto simp: gomap_ok_def map_of_eq_None_iff)
  with Cons show ?case by (cases x) (auto simp: gomap_ok_def split: option.splits)
qed simp

lemma expire_get:
  "gomap_ok (ra_inflight r) \<Longrightarrow> map_of (ra_inflight (fst (expireLocked r now))) k =
    (case map_of (ra_inflight r) k of None \<Rightarrow> None
     | Some a \<Rightarrow> if now - fa_created a \<ge> ra_ttl r then None else Some a)"
  by (simp add: expireLocked_def Let_def map_of_filter_gomap split: option.splits)

lemma expire_fields [simp]:
  "ra_limits (fst (expireLocked r now)) = ra_limits r" "ra_ttl (fst (expireLocked r now)) = ra_ttl r"
  "gomap_ok (ra_inflight r) \<Longrightarrow> gomap_ok (ra_inflight (fst (expireLocked r now)))"
  "length (ra_inflight (fst (expireLocked r now))) \<le> length (ra_inflight r)"
  by (simp_all add: expireLocked_def Let_def)

lemma reassembler_ok_expire:
  assumes "reassembler_ok r"
  shows "reassembler_ok (fst (expireLocked r now))"
proof -
  have "int (length (ra_inflight (fst (expireLocked r now)))) \<le> MaxInflightFrames (ra_limits r)"
    using assms expire_fields(4) [of r now] unfolding reassembler_ok_def by linarith
  with assms show ?thesis
    by (simp add: reassembler_ok_def expire_get split: option.splits)
qed

lemma reassembler_ok_delete:
  assumes "reassembler_ok r"
  shows "reassembler_ok (r\<lparr>ra_inflight := AList.delete key (ra_inflight r)\<rparr>)"
  using assms gomap_length_delete [of "ra_inflight r" key]
  by (auto simp: reassembler_ok_def)

lemma reassembler_ok_update:
  assumes "reassembler_ok r" "assembly_ok (ra_limits r) a"
    and "key \<in> dom (map_of (ra_inflight r)) \<or> int (length (ra_inflight r)) < MaxInflightFrames (ra_limits r)"
  shows "reassembler_ok (r\<lparr>ra_inflight := AList.update key a (ra_inflight r)\<rparr>)"
proof -
  have "int (length (AList.update key a (ra_inflight r))) \<le> MaxInflightFrames (ra_limits r)"
    using assms(1,3) gomap_length_update [of "ra_inflight r" key a] by (auto simp: reassembler_ok_def)
  with assms(1,2) show ?thesis by (simp add: reassembler_ok_def)
qed

lemma assembly_ok_add:
  assumes "assembly_ok l a" "i < length (fa_chunks a)" "fa_chunks a ! i = None"
    and "int (fa_total a + length payload) \<le> MaxFrameBytes l"
    and "fa_received (add_chunk i payload a) \<noteq> length (fa_chunks (add_chunk i payload a))"
  shows "assembly_ok l (add_chunk i payload a)"
proof -
  have "sum_list ((map (case_option 0 length) (fa_chunks a))[i := case_option 0 length (nil_if_empty payload)])
      = sum_list (map (case_option 0 length) (fa_chunks a)) + length payload"
    using assms(2,3) by (subst sum_list_update) (auto simp: nil_if_empty_def)
  with assms show ?thesis by (simp add: assembly_ok_def add_chunk_def map_update)
qed

lemma push_chunk_ok:
  assumes "reassembler_ok r" "map_of (ra_inflight r) key = Some a" "unat (dh_ChunkIndex h) < length (fa_chunks a)"
  shows "reassembler_ok (fst (push_chunk r key a h payload))"
proof (cases "fa_chunks a ! unat (dh_ChunkIndex h)")
  case None
  have "assembly_ok (ra_limits r) a" using assms(1,2) by (simp add: reassembler_ok_def)
  note a' = assembly_ok_add [OF this assms(3) None, of payload]
  show ?thesis
    using reassembler_ok_delete [OF assms(1), of key] reassembler_ok_update [OF assms(1) a', of key] assms(2)
    by (simp add: push_chunk_None [OF None] Let_def domI del: of_nat_add)
next
  case (Some x)
  then show ?thesis
    using assms(1) reassembler_ok_delete [OF assms(1)] by (simp add: push_chunk_def Let_def)
qed

lemma push_ok:
  assumes "reassembler_ok r"
  shows "reassembler_ok (fst (push clock r session packet now))"
proof (cases "DecodeDatagram packet (ra_limits r)")
  case (Inl e)
  with assms show ?thesis by (simp add: push_def Let_def)
next
  case (Inr hp)
  obtain h payload where hp: "hp = (h, payload)" by (cases hp)
  note d = decodeDatagram_Inr [OF Inr [unfolded DecodeDatagram_def hp]]
  have idx: "unat (dh_ChunkIndex h) < unat (dh_ChunkCount h)"
    and cnt: "unat (dh_ChunkCount h) \<noteq> 0" "uint (dh_ChunkCount h) \<le> MaxFragments (ra_limits r)"
    using d assms by (auto simp: header_ok_def word_less_nat_alt packet_fits_def reassembler_ok_def
        normalizeLimits_id unat_eq_0)
  let ?now = "if now = 0 then clock else now"
  let ?r = "fst (expireLocked r ?now)" and ?k = "assembly_key session h" and ?a = "new_assembly h ?now"
  have r: "reassembler_ok ?r" by (rule reassembler_ok_expire [OF assms])
  show ?thesis
  proof (cases "map_of (ra_inflight ?r) ?k")
    case None
    have "assembly_ok (ra_limits r) ?a"
      using cnt assms by (simp add: assembly_ok_def new_assembly_def reassembler_ok_def limits_pos_def sum_list_replicate)
    then have "reassembler_ok (?r\<lparr>ra_inflight := AList.update ?k ?a (ra_inflight ?r)\<rparr>)"
      if "int (length (ra_inflight ?r)) < MaxInflightFrames (ra_limits r)"
      using that by (intro reassembler_ok_update [OF r]) simp_all
    from push_chunk_ok [OF this, of ?k ?a h payload] show ?thesis
      using idx r assms None Inr hp by (auto simp: push_def Let_def new_assembly_def not_le)
  next
    case (Some a)
    then have "length (fa_chunks a) = unat (dh_ChunkCount (fa_header a))"
      using r by (simp add: reassembler_ok_def assembly_ok_def)
    with push_chunk_ok [OF r Some, of h payload] reassembler_ok_delete [OF r] show ?thesis
      using idx assms Some Inr hp by (auto simp: push_def Let_def)
  qed
qed

section \<open>Delivery in any order\<close>

text \<open>A run of a shared reassembler: packets of any sessions with their arrival times.\<close>

fun push_all :: "int \<Rightarrow> Reassembler \<Rightarrow> (SessionID \<times> bytes \<times> int) list \<Rightarrow> Reassembler \<times> push_result list" where
  "push_all clock r [] = (r, [])"
| "push_all clock r ((session, packet, now) # evs) =
     (let (r', out) = push clock r session packet now; (r'', outs) = push_all clock r' evs
      in (r'', out # outs))"

text \<open>A packet that has nothing to do with the frame \<open>key\<close>.\<close>

definition foreign :: "Limits \<Rightarrow> assemblyKey \<Rightarrow> SessionID \<Rightarrow> bytes \<Rightarrow> bool" where
  "foreign l key session packet \<longleftrightarrow> (case decodeDatagram packet l of
     Inl _ \<Rightarrow> True | Inr (h, _) \<Rightarrow> dh_ChunkCount h = 1 \<or> assembly_key session h \<noteq> key)"

lemma push_chunk_fields:
  "ra_limits (fst (push_chunk r key a h p)) = ra_limits r" "ra_ttl (fst (push_chunk r key a h p)) = ra_ttl r"
  "gomap_ok (ra_inflight r) \<Longrightarrow> gomap_ok (ra_inflight (fst (push_chunk r key a h p)))"
  "key' \<noteq> key \<Longrightarrow> map_of (ra_inflight (fst (push_chunk r key a h p))) key' = map_of (ra_inflight r) key'"
  by (simp_all add: push_chunk_def Let_def split: option.splits)

lemma push_fields [simp]:
  "ra_limits (fst (push clock r session p now)) = ra_limits r"
  "ra_ttl (fst (push clock r session p now)) = ra_ttl r"
  "gomap_ok (ra_inflight r) \<Longrightarrow> gomap_ok (ra_inflight (fst (push clock r session p now)))"
  by (simp_all add: push_def Let_def push_chunk_fields split: sum.splits prod.splits option.splits)

lemma push_foreign:
  assumes "foreign (ra_limits r) key session p" "gomap_ok (ra_inflight r)" "map_of (ra_inflight r) key = Some a"
    and "now \<noteq> 0" "now - fa_created a < ra_ttl r"
  shows "map_of (ra_inflight (fst (push clock r session p now))) key = Some a"
proof -
  have live: "map_of (ra_inflight (fst (expireLocked r now))) key = Some a"
    using assms(2,3,5) by (simp add: expire_get)
  with assms(1,3,4) show ?thesis
    unfolding foreign_def push_def Let_def DecodeDatagram_def
    by (auto simp: push_chunk_fields split: sum.splits prod.splits option.splits)
qed

lemma fragment_count_not_1: "n \<noteq> 1 \<Longrightarrow> unat (dh_ChunkCount h) = n \<Longrightarrow> dh_ChunkCount h \<noteq> 1"
  by (metis unsigned_1)

lemma push_own:
  assumes frag: "is_fragment (ra_limits r) session key bt fl ch n i p" and n: "n \<noteq> 1"
    and r: "gomap_ok (ra_inflight r)" "map_of (ra_inflight r) key = Some a"
    and a: "collects bt fl ch n t S a" and now: "now \<noteq> 0" "now - t < ra_ttl r"
    and fits: "int (\<Sum>i<n. length (ch i)) \<le> MaxFrameBytes (ra_limits r)"
  shows "insert i S \<noteq> {..<n} \<Longrightarrow>
      \<exists>a'. map_of (ra_inflight (fst (push clock r session p now))) key = Some a' \<and> collects bt fl ch n t (insert i S) a'"
    and "i \<notin> S \<Longrightarrow> insert i S = {..<n} \<Longrightarrow>
      \<exists>h. snd (push clock r session p now) = (concat (map ch [0..<n]), True, h, None)"
proof -
  obtain h where i: "i < n" "ch i \<noteq> []" and h: "decodeDatagram p (ra_limits r) = Inr (h, ch i)"
    "assembly_key session h = key" "unat (dh_ChunkIndex h) = i" "unat (dh_ChunkCount h) = n"
    "dh_BaseTick h = bt" "dh_Flags h = fl"
    using frag unfolding is_fragment_def by blast
  let ?r = "fst (expireLocked r now)"
  have live: "map_of (ra_inflight ?r) key = Some a"
    using r a now(2) by (simp add: expire_get collects_def)
  have same: "dh_ChunkCount (fa_header a) = dh_ChunkCount h" "dh_BaseTick (fa_header a) = dh_BaseTick h"
    "dh_Flags (fa_header a) = dh_Flags h"
    using a h(4-6) by (simp_all add: collects_def word_unat_eq_iff)
  have "push clock r session p now = push_chunk ?r key a h (ch i)"
    using live same h(1,2) now(1) fragment_count_not_1 [OF n h(4)] by (simp add: push_def Let_def DecodeDatagram_def)
  note eq = trans [OF this push_chunk_own [OF a i(1) h(3) i(2), of ?r key]]
  show "\<exists>a'. map_of (ra_inflight (fst (push clock r session p now))) key = Some a'
      \<and> collects bt fl ch n t (insert i S) a'" if "insert i S \<noteq> {..<n}"
    using that eq fits a live collects_add [OF a i(1) _ i(2)] by (simp add: insert_absorb)
  show "\<exists>h. snd (push clock r session p now) = (concat (map ch [0..<n]), True, h, None)"
    if "i \<notin> S" "insert i S = {..<n}"
    using that eq fits by simp
qed

lemma push_first:
  assumes frag: "is_fragment (ra_limits r) session key bt fl ch n i p" and n: "1 < n"
    and r: "gomap_ok (ra_inflight r)" "map_of (ra_inflight r) key = None"
    and cap: "int (length (ra_inflight (fst (expireLocked r t)))) < MaxInflightFrames (ra_limits r)"
    and t: "t \<noteq> 0" and fits: "int (\<Sum>i<n. length (ch i)) \<le> MaxFrameBytes (ra_limits r)"
  shows "\<exists>a. map_of (ra_inflight (fst (push clock r session p t))) key = Some a \<and> collects bt fl ch n t {i} a"
proof -
  obtain h where i: "i < n" "ch i \<noteq> []" and h: "decodeDatagram p (ra_limits r) = Inr (h, ch i)"
    "assembly_key session h = key" "unat (dh_ChunkIndex h) = i" "unat (dh_ChunkCount h) = n"
    "dh_BaseTick h = bt" "dh_Flags h = fl"
    using frag unfolding is_fragment_def by blast
  let ?r = "fst (expireLocked r t)" and ?a = "new_assembly h t"
  let ?r1 = "?r\<lparr>ra_inflight := AList.update key ?a (ra_inflight ?r)\<rparr>"
  have none: "map_of (ra_inflight ?r) key = None" using r by (simp add: expire_get)
  have a: "collects bt fl ch n t {} ?a" using collects_new [of h ch t] h(4-6) by simp
  have "push clock r session p t = push_chunk ?r1 key ?a h (ch i)"
    using none h(1,2) t cap fragment_count_not_1 [OF _ h(4)] n by (simp add: push_def Let_def DecodeDatagram_def not_le)
  note eq = trans [OF this push_chunk_own [OF a i(1) h(3) i(2), of ?r1 key]]
  have "{i} \<noteq> {..<n}" using n by (metis One_nat_def card.empty card_insert_disjoint card_lessThan empty_iff
        finite.emptyI less_irrefl)
  with eq fits collects_add [OF a i(1) _ i(2)] show ?thesis by simp
qed

text \<open>What may arrive while the frame \<open>key\<close> is collected: its packets other than number \<open>j\<close>, any
  number of times, and packets that have nothing to do with it; none after the assembly expired.\<close>

definition arrivals ::
  "Limits \<Rightarrow> int \<Rightarrow> SessionID \<Rightarrow> assemblyKey \<Rightarrow> bytes list \<Rightarrow> nat \<Rightarrow> int \<Rightarrow> (SessionID \<times> bytes \<times> int) list \<Rightarrow> bool" where
  "arrivals l ttl session key ps j t evs \<longleftrightarrow> (\<forall>(session', p, now) \<in> set evs. now \<noteq> 0 \<and> now - t < ttl
     \<and> (foreign l key session' p \<or> session' = session \<and> (\<exists>i < length ps. i \<noteq> j \<and> p = ps ! i)))"

definition arrived :: "SessionID \<Rightarrow> bytes list \<Rightarrow> nat \<Rightarrow> (SessionID \<times> bytes \<times> int) list \<Rightarrow> nat set" where
  "arrived session ps j evs = {i. i < length ps \<and> i \<noteq> j \<and> (\<exists>now. (session, ps ! i, now) \<in> set evs)}"

lemma fragment_not_foreign:
  "is_fragment l session key bt fl ch n i p \<Longrightarrow> n \<noteq> 1 \<Longrightarrow> \<not> foreign l key session p"
  unfolding is_fragment_def foreign_def using fragment_count_not_1 by fastforce

lemma fragment_index:
  "is_fragment l session key bt fl ch n i p \<Longrightarrow> is_fragment l session key bt fl ch n i' p \<Longrightarrow> i = i'"
  unfolding is_fragment_def by auto

lemma push_all_collects:
  assumes frag: "\<forall>i < n. is_fragment (ra_limits r) session key bt fl ch n i (ps ! i)"
    and n: "n = length ps" "1 < n" "j < n"
    and evs: "arrivals (ra_limits r) (ra_ttl r) session key ps j t evs"
    and r: "gomap_ok (ra_inflight r)" "map_of (ra_inflight r) key = Some a" "collects bt fl ch n t S a" "j \<notin> S"
    and fits: "int (\<Sum>i<n. length (ch i)) \<le> MaxFrameBytes (ra_limits r)"
  shows "\<exists>a'. let r' = fst (push_all clock r evs) in map_of (ra_inflight r') key = Some a'
      \<and> collects bt fl ch n t (S \<union> arrived session ps j evs) a' \<and> gomap_ok (ra_inflight r')
      \<and> ra_limits r' = ra_limits r \<and> ra_ttl r' = ra_ttl r"
  using assms
proof (induction evs arbitrary: r a S)
  case Nil
  then show ?case by (simp add: arrived_def)
next
  case (Cons e evs)
  obtain session' p now where e: "e = (session', p, now)" by (cases e)
  let ?r = "fst (push clock r session' p now)"
  have now: "now \<noteq> 0" "now - t < ra_ttl r"
    and rest: "arrivals (ra_limits r) (ra_ttl r) session key ps j t evs"
    using Cons.prems(5) by (auto simp: arrivals_def e)
  have created: "fa_created a = t" using Cons.prems(8) by (simp add: collects_def)
  define T where "T = {i. i < n \<and> i \<noteq> j \<and> session' = session \<and> p = ps ! i}"
  have arr: "arrived session ps j (e # evs) = T \<union> arrived session ps j evs"
    using Cons.prems(2) by (auto simp: arrived_def e T_def)
  have step: "\<exists>a'. map_of (ra_inflight ?r) key = Some a' \<and> collects bt fl ch n t (S \<union> T) a'"
  proof (cases "T = {}")
    case True
    have "foreign (ra_limits r) key session' p"
      using Cons.prems(2,5) True unfolding arrivals_def e T_def by auto
    then have "map_of (ra_inflight ?r) key = Some a"
      by (rule push_foreign [OF _ Cons.prems(6,7) now(1)]) (simp_all only: created now(2))
    with Cons.prems(8) True show ?thesis by simp
  next
    case False
    then obtain i where i: "i < n" "i \<noteq> j" "session' = session" "p = ps ! i" by (auto simp: T_def)
    have fr: "is_fragment (ra_limits r) session key bt fl ch n i p" using Cons.prems(1) i by simp
    have "i' = i" if "i' \<in> T" for i'
      using that fragment_index [OF fr, of i'] Cons.prems(1) unfolding T_def by simp
    then have "T = {i}" using i unfolding T_def by blast
    moreover have "j \<notin> insert i S" "j \<in> {..<n}" using Cons.prems(4,9) i(2) by simp_all
    then have "insert i S \<noteq> {..<n}" by blast
    ultimately show ?thesis
      using push_own(1) [OF fr _ Cons.prems(6-8) now Cons.prems(10)] Cons.prems(3) i(3) by simp
  qed
  then obtain a' where a': "map_of (ra_inflight ?r) key = Some a'" "collects bt fl ch n t (S \<union> T) a'" by blast
  have j: "j \<notin> S \<union> T" using Cons.prems(9) by (simp add: T_def)
  have "\<exists>a''. let r' = fst (push_all clock ?r evs) in map_of (ra_inflight r') key = Some a''
      \<and> collects bt fl ch n t ((S \<union> T) \<union> arrived session ps j evs) a'' \<and> gomap_ok (ra_inflight r')
      \<and> ra_limits r' = ra_limits ?r \<and> ra_ttl r' = ra_ttl ?r"
  proof (rule Cons.IH [OF _ Cons.prems(2-4) _ _ a' j])
    show "\<forall>i<n. is_fragment (ra_limits ?r) session key bt fl ch n i (ps ! i)"
      unfolding push_fields by (rule Cons.prems(1))
    show "arrivals (ra_limits ?r) (ra_ttl ?r) session key ps j t evs" unfolding push_fields by (rule rest)
    show "gomap_ok (ra_inflight ?r)" by (rule push_fields(3) [OF Cons.prems(6)])
    show "int (\<Sum>i<n. length (ch i)) \<le> MaxFrameBytes (ra_limits ?r)"
      unfolding push_fields by (rule Cons.prems(10))
  qed
  then show ?case
    unfolding arr Un_assoc by (simp add: e Let_def case_prod_beta)
qed

lemma push_all_snoc:
  "push_all clock r (evs @ [(session, p, now)]) =
    (let r1 = fst (push_all clock r evs) in
     (fst (push clock r1 session p now), snd (push_all clock r evs) @ [snd (push clock r1 session p now)]))"
  by (induction evs arbitrary: r) (auto simp: Let_def case_prod_beta)

lemma reassembly:
  assumes frag: "\<forall>i < n. is_fragment (ra_limits r) session key bt fl ch n i (ps ! i)"
    and n: "n = length ps" "1 < n" "i0 < n" "j < n" "i0 \<noteq> j"
    and evs: "arrivals (ra_limits r) (ra_ttl r) session key ps j t evs"
    and all: "insert i0 (arrived session ps j evs) = {..<n} - {j}"
    and r: "gomap_ok (ra_inflight r)" "map_of (ra_inflight r) key = None"
      "int (length (ra_inflight (fst (expireLocked r t)))) < MaxInflightFrames (ra_limits r)"
    and t: "t \<noteq> 0" "now \<noteq> 0" "now - t < ra_ttl r"
    and fits: "int (\<Sum>i<n. length (ch i)) \<le> MaxFrameBytes (ra_limits r)"
  shows "\<exists>h. last (snd (push_all clock r ((session, ps ! i0, t) # evs @ [(session, ps ! j, now)])))
    = (concat (map ch [0..<n]), True, h, None)"
proof -
  let ?r = "fst (push clock r session (ps ! i0) t)"
  obtain a where a: "map_of (ra_inflight ?r) key = Some a" "collects bt fl ch n t {i0} a"
    using push_first [of r session key bt fl ch n i0 "ps ! i0" t clock] frag n r t(1) fits by blast
  obtain a' where a': "let r' = fst (push_all clock ?r evs) in map_of (ra_inflight r') key = Some a'
      \<and> collects bt fl ch n t ({i0} \<union> arrived session ps j evs) a' \<and> gomap_ok (ra_inflight r')
      \<and> ra_limits r' = ra_limits ?r \<and> ra_ttl r' = ra_ttl ?r"
    using push_all_collects [of n ?r session key bt fl ch ps j t evs a "{i0}" clock] frag n evs r(1) a fits
    by auto
  let ?r' = "fst (push_all clock ?r evs)"
  have r': "map_of (ra_inflight ?r') key = Some a'" "collects bt fl ch n t ({..<n} - {j}) a'"
    "gomap_ok (ra_inflight ?r')" "ra_limits ?r' = ra_limits r" "ra_ttl ?r' = ra_ttl r"
    using a' all by (simp_all add: Let_def)
  have "\<exists>h. snd (push clock ?r' session (ps ! j) now) = (concat (map ch [0..<n]), True, h, None)"
    by (rule push_own(2) [OF _ _ r'(3,1,2) t(2)])
      (use frag n r' t fits in \<open>auto simp: insert_absorb\<close>)
  then show ?thesis
    by (simp add: push_all_snoc Let_def case_prod_beta)
qed

lemma fragment_is_fragment:
  assumes "fragmented f seq encoded (normalizeLimits limits) k n ps" "i < n"
  shows "is_fragment (normalizeLimits limits) session
    \<lparr>ak_session = session, ak_roomID = meta_RoomID (fr_Meta f), ak_epoch = meta_Epoch (fr_Meta f),
      ak_tick = meta_Tick (fr_Meta f), ak_sequence = seq\<rparr>
    (fr_BaseTick f) (frame_flags f) (chunk k encoded) n i (ps ! i)"
proof -
  have "chunk k encoded i \<noteq> []"
    using assms chunk_nonempty unfolding fragmented_def by blast
  moreover have "n \<le> 65535" using assms(1) by (simp add: fragmented_def)
  ultimately show ?thesis
    using fragment_decodes [of f seq encoded "normalizeLimits limits" k n ps i] assms
    by (simp add: is_fragment_def fragment_header_def assembly_key_def u16_length)
qed

lemma fragmented_concat:
  assumes "fragmented f seq encoded l k n ps"
  shows "concat (map (chunk k encoded) [0..<n]) = encoded" "int (\<Sum>i<n. length (chunk k encoded i)) \<le> MaxFrameBytes l"
proof -
  show e: "concat (map (chunk k encoded) [0..<n]) = encoded"
    using assms by (simp add: concat_chunks fragmented_def)
  have "length (concat (map (chunk k encoded) [0..<n])) = (\<Sum>i<n. length (chunk k encoded i))"
    by (simp add: length_concat comp_def interv_sum_list_conv_sum_set_nat atLeast0LessThan)
  then show "int (\<Sum>i<n. length (chunk k encoded i)) \<le> MaxFrameBytes l"
    using assms e by (simp add: fragmented_def)
qed

lemma int_sum_list: "int (sum_list xs) = sum_list (map int xs)"
  by (induction xs) simp_all

lemma push_all_ok: "reassembler_ok r \<Longrightarrow> reassembler_ok (fst (push_all clock r evs))"
proof (induction evs arbitrary: r)
  case (Cons e evs)
  then show ?case
    using push_ok [OF Cons.prems] by (cases e) (simp add: Let_def case_prod_beta)
qed simp

lemma NewReassembler_ok: "reassembler_ok (NewReassembler limits ttl)"
  using normalizeLimits_pos [of limits] by (simp add: reassembler_ok_def NewReassembler_def limits_pos_def)

lemma nth_None: "xs = ys \<Longrightarrow> ys ! i = None \<Longrightarrow> xs ! i = None"
  by simp

section \<open>Properties\<close>

text \<open>
  C23. The packet format is exact: a packet decodes to a header and a payload exactly if it is what
  \<open>encodeDatagram\<close> writes for them, the header carries the checksum of the packet, and the packet
  keeps the limits of the receiver.
\<close>

theorem datagram_exact:
  "DecodeDatagram packet limits = Inr (h, payload) \<longleftrightarrow>
     encodeDatagram h payload = Inr packet \<and> dh_Checksum h = checksumDatagram packet
     \<and> packet_fits (normalizeLimits limits) h packet"
proof
  assume "DecodeDatagram packet limits = Inr (h, payload)"
  from decodeDatagram_Inr [OF this [unfolded DecodeDatagram_def]]
  show "encodeDatagram h payload = Inr packet \<and> dh_Checksum h = checksumDatagram packet
     \<and> packet_fits (normalizeLimits limits) h packet"
    by (metis encodeDatagram_Inr checksum_dgram)
next
  assume a: "encodeDatagram h payload = Inr packet \<and> dh_Checksum h = checksumDatagram packet
     \<and> packet_fits (normalizeLimits limits) h packet"
  then have p: "header_ok h" "length payload = unat (dh_PayloadLen h)"
    "packet = dgram h payload (datagram_sum h payload)" unfolding encodeDatagram_Inr by blast+
  then have "h\<lparr>dh_Checksum := datagram_sum h payload\<rparr> = h" using a checksum_dgram by (metis DatagramHeader.surjective
        DatagramHeader.update_convs(11))
  then show "DecodeDatagram packet limits = Inr (h, payload)"
    using decode_dgram [OF p(1,2), of limits] a p(3) by (simp add: DecodeDatagram_def)
qed

text \<open>
  C25. Every corruption of a single byte is noticed, wherever it hits the packet: if a packet is
  accepted, no packet that differs from it in exactly one byte is accepted, under any limits.
\<close>

theorem datagram_byte_corruption:
  assumes "DecodeDatagram packet limits = Inr x" "i < length packet" "packet ! i \<noteq> b"
  shows "\<exists>e. DecodeDatagram (packet[i := b]) limits' = Inl e"
  using datagram_seal.corruption [OF _ assms(2,3)] assms(1) unfolding DecodeDatagram_def
  by (cases "decodeDatagram (packet[i := b]) limits'") blast+

definition ex_header :: "u16 \<Rightarrow> u16 \<Rightarrow> DatagramHeader" where
  "ex_header n len = \<lparr>dh_Protocol = 1, dh_Flags = 0, dh_RoomID = 9, dh_Epoch = 1, dh_Tick = 5, dh_BaseTick = 4,
     dh_Sequence = 3, dh_ChunkIndex = 0, dh_ChunkCount = n, dh_PayloadLen = len, dh_Checksum = 0\<rparr>"

definition ex_packet :: bytes where
  "ex_packet = dgram (ex_header 1 2) [7, 8] (datagram_sum (ex_header 1 2) [7, 8])"

lemma ex_packet_decodes:
  "DecodeDatagram ex_packet DefaultLimits
     = Inr ((ex_header 1 2)\<lparr>dh_Checksum := datagram_sum (ex_header 1 2) [7, 8]\<rparr>, [7, 8])"
  unfolding DecodeDatagram_def ex_packet_def
proof (rule decode_dgram)
  show "header_ok (ex_header 1 2)" by code_simp
  show "length [7, 8 :: u8] = unat (dh_PayloadLen (ex_header 1 2))" by code_simp
  have "normalizeLimits DefaultLimits = DefaultLimits" by (rule normalizeLimits_id) code_simp
  then show "packet_fits (normalizeLimits DefaultLimits) (ex_header 1 2)
      (dgram (ex_header 1 2) [7, 8] (datagram_sum (ex_header 1 2) [7, 8]))"
    by (simp add: packet_fits_def dgram_def ex_header_def DefaultLimits_def)
qed

theorem datagram_byte_corruption_witness: "\<exists>e. DecodeDatagram (ex_packet[43 := 9]) DefaultLimits = Inl e"
proof (rule datagram_byte_corruption [OF ex_packet_decodes])
  show "43 < length ex_packet" by (simp add: ex_packet_def dgram_def)
  show "ex_packet ! 43 \<noteq> 9" by (simp add: ex_packet_def dgram_def nth_append)
qed

text \<open>
  C14. The packets of a fragmented frame may arrive in any order, any number of times, mixed with
  packets of other frames and with garbage, as long as the assembly does not expire and there was
  room to start it: when the last missing packet arrives, the reassembler returns the encoded frame.
\<close>

theorem reassembly_any_order:
  assumes "FragmentFrame f seq encoded md limits = Inr ps" "1 < length ps"
    and "ra_limits r = normalizeLimits limits" "gomap_ok (ra_inflight r)"
    and "key = \<lparr>ak_session = session, ak_roomID = meta_RoomID (fr_Meta f), ak_epoch = meta_Epoch (fr_Meta f),
      ak_tick = meta_Tick (fr_Meta f), ak_sequence = seq\<rparr>"
    and "map_of (ra_inflight r) key = None"
    and "int (length (ra_inflight (fst (expireLocked r t)))) < MaxInflightFrames (ra_limits r)"
    and "i0 < length ps" "j < length ps" "i0 \<noteq> j" "t \<noteq> 0" "now \<noteq> 0" "now - t < ra_ttl r"
    and "arrivals (ra_limits r) (ra_ttl r) session key ps j t evs"
    and "insert i0 (arrived session ps j evs) = {..<length ps} - {j}"
  shows "\<exists>h. last (snd (push_all clock r ((session, ps ! i0, t) # evs @ [(session, ps ! j, now)])))
    = (encoded, True, h, None)"
proof -
  obtain k n where fr: "fragmented f seq encoded (normalizeLimits limits) k n ps"
    using FragmentFrame_fragmented [OF assms(1)] by blast
  have n: "n = length ps" using fr by (simp add: fragmented_def)
  have "\<forall>i<n. is_fragment (ra_limits r) session key (fr_BaseTick f) (frame_flags f) (chunk k encoded) n i (ps ! i)"
    unfolding assms(3,5) using fragment_is_fragment [OF fr] by blast
  from reassembly [OF this n _ _ _ assms(10,14) _ assms(4,6,7,11-13) fragmented_concat(2) [OF fr, folded assms(3)]]
  show ?thesis unfolding fragmented_concat(1) [OF fr] using assms(2,8,9,15) n by simp
qed

definition ex_cut_frame :: DeltaFrame where
  "ex_cut_frame = \<lparr>fr_Meta = \<lparr>meta_RoomID = 9, meta_Epoch = 1, meta_Tick = 5, meta_SchemaVersion = 1\<rparr>,
     fr_Kind = FrameFull, fr_BaseTick = 0, fr_Objects = []\<rparr>"

definition ex_cut :: "bytes list" where
  "ex_cut = [dgram (fragment_header ex_cut_frame 7 1 2 0 2) [1, 2]
       (datagram_sum (fragment_header ex_cut_frame 7 1 2 0 2) [1, 2]),
     dgram (fragment_header ex_cut_frame 7 1 2 1 1) [3]
       (datagram_sum (fragment_header ex_cut_frame 7 1 2 1 1) [3])]"

lemma ex_cut_frame: "FragmentFrame ex_cut_frame 7 [1, 2, 3] 44 DefaultLimits = Inr ex_cut" "length ex_cut = 2"
proof -
  have e: "encodeDatagram (fragment_header ex_cut_frame 7 1 2 0 2) [1, 2] = Inr (ex_cut ! 0)"
    "encodeDatagram (fragment_header ex_cut_frame 7 1 2 1 1) [3] = Inr (ex_cut ! 1)"
    unfolding encodeDatagram_Inr ex_cut_def
    by (simp_all add: header_ok_def fragment_header_def ex_cut_frame_def)
  have l: "normalizeLimits DefaultLimits = DefaultLimits" by (rule normalizeLimits_id) code_simp
  have "MaxFrameBytes DefaultLimits = 4194304" "MaxDatagramBytes DefaultLimits = 1200"
    "MaxFragments DefaultLimits = 64" "fr_Kind ex_cut_frame = 1" "[0..<nat 2] = [0, 1]"
    "length (ex_cut ! 0) = 44" "length (ex_cut ! 1) = 43"
    by (simp_all add: DefaultLimits_def ex_cut_frame_def upt_rec ex_cut_def dgram_def)
  with e l show "FragmentFrame ex_cut_frame 7 [1, 2, 3] 44 DefaultLimits = Inr ex_cut"
    by (simp add: FragmentFrame_def Let_def slice_def numeral_2_eq_2 [symmetric]) (simp add: ex_cut_def)
  show "length ex_cut = 2" by (simp add: ex_cut_def)
qed

text \<open>The second packet arrives twice before the first.\<close>

theorem reassembly_any_order_witness:
  "\<exists>h. last (snd (push_all 0 (NewReassembler DefaultLimits 0)
     [(4, ex_cut ! 1, 100), (4, ex_cut ! 1, 200), (4, ex_cut ! 0, 300)])) = ([1, 2, 3], True, h, None)"
proof -
  let ?r = "NewReassembler DefaultLimits 0"
  let ?key = "\<lparr>ak_session = 4, ak_roomID = meta_RoomID (fr_Meta ex_cut_frame),
    ak_epoch = meta_Epoch (fr_Meta ex_cut_frame), ak_tick = meta_Tick (fr_Meta ex_cut_frame), ak_sequence = 7\<rparr>"
  let ?evs = "[(4, ex_cut ! 1, 200)] :: (SessionID \<times> bytes \<times> int) list"
  have arr: "arrivals (ra_limits ?r) (ra_ttl ?r) 4 ?key ex_cut 0 100 ?evs"
    using ex_cut_frame(2) by (auto simp: arrivals_def NewReassembler_def intro: exI [of _ 1])
  have all: "insert 1 (arrived 4 ex_cut 0 ?evs) = {..<length ex_cut} - {0}"
    using ex_cut_frame(2) by (auto simp: arrived_def numeral_2_eq_2 less_Suc_eq)
  have "\<exists>h. last (snd (push_all 0 ?r ((4, ex_cut ! 1, 100) # ?evs @ [(4, ex_cut ! 0, 300)])))
      = ([1, 2, 3], True, h, None)"
    by (rule reassembly_any_order [OF ex_cut_frame(1) _ _ _ refl _ _ _ _ _ _ _ _ arr all])
      (use ex_cut_frame(2) normalizeLimits_pos [of DefaultLimits]
        in \<open>simp_all add: NewReassembler_def expireLocked_def limits_pos_def\<close>)
  then show ?thesis by simp
qed

text \<open>
  C26. The memory of a reassembler is bounded whatever is pushed into it, in any order and at any
  time: the frames in flight, the chunks of each and the bytes they hold stay within the limits,
  and the total of every assembly is the size of its chunks.
\<close>

theorem reassembler_bounded:
  "let r = fst (push_all clock (NewReassembler limits ttl) evs) in reassembler_ok r
    \<and> int (sum_list (map fa_total (govalues (ra_inflight r))))
        \<le> MaxInflightFrames (ra_limits r) * MaxFrameBytes (ra_limits r)"
proof -
  let ?r = "fst (push_all clock (NewReassembler limits ttl) evs)"
  let ?B = "MaxFrameBytes (ra_limits ?r)"
  have ok: "reassembler_ok ?r" by (rule push_all_ok [OF NewReassembler_ok])
  have "int (fa_total a) \<le> ?B" if "a \<in> set (govalues (ra_inflight ?r))" for a
    using that ok gomap_values_iff [of "ra_inflight ?r" a]
    unfolding reassembler_ok_def assembly_ok_def by blast
  then have "sum_list (map (int \<circ> fa_total) (govalues (ra_inflight ?r)))
      \<le> sum_list (map (\<lambda>_. ?B) (govalues (ra_inflight ?r)))"
    by (intro sum_list_mono) simp
  also have "\<dots> = int (length (ra_inflight ?r)) * ?B" by (simp add: sum_list_replicate map_replicate_const)
  also have "\<dots> \<le> MaxInflightFrames (ra_limits ?r) * ?B"
    using ok by (intro mult_right_mono) (auto simp: reassembler_ok_def limits_pos_def)
  finally show ?thesis using ok by (simp add: Let_def int_sum_list comp_def)
qed

text \<open>
  C38. An empty chunk is not remembered: its copy is a nil slice, which reads as not yet received.
  Two copies of one empty packet therefore complete a frame of two chunks, although the other
  chunk never arrived.
\<close>

theorem empty_chunk_counted_twice:
  assumes "DecodeDatagram packet (ra_limits r) = Inr (h, [])" "dh_ChunkCount h = 2"
    and "gomap_ok (ra_inflight r)" "map_of (ra_inflight r) (assembly_key session h) = None"
    and "int (length (ra_inflight (fst (expireLocked r t)))) < MaxInflightFrames (ra_limits r)"
    and "0 \<le> MaxFrameBytes (ra_limits r)" "t \<noteq> 0" "0 < ra_ttl r"
  shows "snd (push_all clock r [(session, packet, t), (session, packet, t)])
    = [([], False, h, None), ([], True, h, None)]"
proof -
  let ?k = "assembly_key session h" and ?e = "fst (expireLocked r t)"
  let ?a = "add_chunk (unat (dh_ChunkIndex h)) [] (new_assembly h t)"
  let ?r = "?e\<lparr>ra_inflight := AList.update ?k ?a (AList.update ?k (new_assembly h t) (ra_inflight ?e))\<rparr>"
  have h: "header_ok h" using decodeDatagram_Inr assms(1) unfolding DecodeDatagram_def by blast
  then have idx: "unat (dh_ChunkIndex h) < 2"
    using assms(2) by (simp add: header_ok_def word_less_nat_alt)
  have n1: "dh_ChunkCount h \<noteq> 1" using assms(2) by simp
  have none: "map_of (ra_inflight ?e) ?k = None" using assms(3,4) by (simp add: expire_get)
  have two: "unat (2 :: u16) = 2" by simp
  have new: "fa_chunks (new_assembly h t) = [None, None]"
    unfolding new_assembly_def assms(2) two by (simp add: numeral_2_eq_2)
  have keep: "[None, None][unat (dh_ChunkIndex h) := None] = [None, None :: bytes option]"
    "[None, None :: bytes option] ! unat (dh_ChunkIndex h) = None"
    using idx by (auto simp: less_Suc_eq numeral_2_eq_2)
  have a: "fa_chunks ?a = [None, None]" "fa_received ?a = 1" "fa_total ?a = 0" "fa_header ?a = h" "fa_created ?a = t"
    using keep by (simp_all add: add_chunk_def nil_if_empty_def new) (simp_all add: new_assembly_def)
  have first: "push clock r session packet t = (?r, [], False, h, None)"
    using assms none n1 a
    by (simp add: push_def Let_def push_chunk_None [OF nth_None [OF new keep(2)]] not_le) (simp add: new_assembly_def)
  define r1 where "r1 = ?r"
  have "map_of (ra_inflight (fst (expireLocked r1 t))) ?k = Some ?a"
    using assms(3,8) a(5) unfolding r1_def by (subst expire_get) simp_all
  then have "push clock r1 session packet t = push_chunk (fst (expireLocked r1 t)) ?k ?a h []"
    using assms(1,2,7) n1 a(4) by (simp add: push_def Let_def r1_def)
  moreover have "fa_chunks (add_chunk (unat (dh_ChunkIndex h)) [] ?a) = [None, None]"
    "fa_received (add_chunk (unat (dh_ChunkIndex h)) [] ?a) = 2"
    using a keep(1) by (simp_all add: add_chunk_def nil_if_empty_def)
  ultimately have "snd (push clock r1 session packet t) = ([], True, h, None)"
    using assms(6) a(3) by (simp add: push_chunk_None [OF nth_None [OF a(1) keep(2)]] Let_def r1_def)
  with first [folded r1_def] show ?thesis by (simp add: case_prod_beta)
qed

definition ex_empty_packet :: bytes where
  "ex_empty_packet = dgram (ex_header 2 0) [] (datagram_sum (ex_header 2 0) [])"

theorem empty_chunk_counted_twice_witness:
  "\<exists>h. snd (push_all 0 (NewReassembler DefaultLimits 0) [(4, ex_empty_packet, 1), (4, ex_empty_packet, 1)])
    = [([], False, h, None), ([], True, h, None)]"
proof -
  let ?r = "NewReassembler DefaultLimits 0" and ?h = "(ex_header 2 0)\<lparr>dh_Checksum := datagram_sum (ex_header 2 0) []\<rparr>"
  have l: "normalizeLimits DefaultLimits = DefaultLimits" by (rule normalizeLimits_id) code_simp
  have "header_ok (ex_header 2 0)" by code_simp
  then have "DecodeDatagram ex_empty_packet (ra_limits ?r) = Inr (?h, [])"
    unfolding DecodeDatagram_def ex_empty_packet_def
    by (intro decode_dgram) (simp_all add: l NewReassembler_def ex_header_def packet_fits_def dgram_def, simp add: DefaultLimits_def)
  from empty_chunk_counted_twice [OF this, of 4 1 0]
  have "snd (push_all 0 ?r [(4, ex_empty_packet, 1), (4, ex_empty_packet, 1)])
      = [([], False, ?h, None), ([], True, ?h, None)]"
    using normalizeLimits_pos [of DefaultLimits]
    by (simp add: NewReassembler_def expireLocked_def limits_pos_def) (simp add: ex_header_def)
  then show ?thesis by blast
qed

end
