(* ===== verification/Repl_Control.thy ===== *)
theory Repl_Control
  imports Repl_Types Checksum
begin

text \<open>
  The control plane of the replication protocol (\<open>src/replication/control.go\<close>): acknowledgements and
  resynchronisation requests of a client, in packets of 32 bytes sealed with FNV-1a.
\<close>

abbreviation (input) controlMagic :: u32 where "controlMagic \<equiv> 0x43524331"
abbreviation (input) ControlMessageSize :: nat where "ControlMessageSize \<equiv> 32"

abbreviation (input) ControlAck :: u8 where "ControlAck \<equiv> 1"
abbreviation (input) ControlResync :: u8 where "ControlResync \<equiv> 2"

abbreviation (input) ResyncUnknown :: u8 where "ResyncUnknown \<equiv> 0"
abbreviation (input) ResyncSchemaMismatch :: u8 where "ResyncSchemaMismatch \<equiv> 4"

record ControlMessage =
  cm_Type :: u8
  cm_Reason :: u8
  cm_RoomID :: u64
  cm_Epoch :: u32
  cm_Tick :: u32
  cm_Sequence :: u32

definition IsControlPayload :: "bytes \<Rightarrow> bool" where
  "IsControlPayload raw \<longleftrightarrow> length raw = ControlMessageSize \<and> be_at 0 4 raw = controlMagic"

definition control_validate :: "ControlMessage \<Rightarrow> unit result" where
  "control_validate m =
     (if cm_Type m \<noteq> ControlAck \<and> cm_Type m \<noteq> ControlResync \<or> cm_RoomID m = 0 \<or> cm_Epoch m = 0 \<or> cm_Sequence m = 0
      then Inl ErrInvalidControl
      else if cm_Type m = ControlAck \<and> (cm_Tick m = 0 \<or> cm_Reason m \<noteq> ResyncUnknown) then Inl ErrInvalidControl
      else if cm_Type m = ControlResync \<and> cm_Reason m > ResyncSchemaMismatch then Inl ErrInvalidControl
      else Inr ())"

definition checksumControl :: "bytes \<Rightarrow> u32" where
  "checksumControl raw =
     (if length raw \<noteq> ControlMessageSize then 0
      else fnv1a (map (\<lambda>(index, v). if index \<ge> 28 then 0 else v) (enumerate 0 raw)))"

definition put_control :: "ControlMessage \<Rightarrow> bytes" where
  "put_control m = be_enc 4 controlMagic @ be_enc 2 ProtocolVersion @ be_enc 1 (cm_Type m) @ be_enc 1 (cm_Reason m)
     @ be_enc 8 (cm_RoomID m) @ be_enc 4 (cm_Epoch m) @ be_enc 4 (cm_Tick m) @ be_enc 4 (cm_Sequence m)"

definition EncodeControl :: "ControlMessage \<Rightarrow> bytes result" where
  "EncodeControl m = try_bind (control_validate m) (\<lambda>_.
     let raw = put_control m @ be_enc 4 (0 :: u32) in
     Inr (take 28 raw @ be_enc 4 (checksumControl raw)))"

definition get_control :: "bytes \<Rightarrow> ControlMessage" where
  "get_control raw = \<lparr>cm_Type = be_at 6 7 raw, cm_Reason = be_at 7 8 raw, cm_RoomID = be_at 8 16 raw,
     cm_Epoch = be_at 16 20 raw, cm_Tick = be_at 20 24 raw, cm_Sequence = be_at 24 28 raw\<rparr>"

definition DecodeControl :: "bytes \<Rightarrow> ControlMessage result" where
  "DecodeControl raw =
     (if length raw \<noteq> ControlMessageSize \<or> be_at 0 4 raw \<noteq> controlMagic \<or> be_at 4 6 raw \<noteq> ProtocolVersion
      then Inl ErrInvalidControl
      else if checksumControl raw \<noteq> be_at 28 32 raw then Inl ErrChecksumMismatch
      else try_bind (control_validate (get_control raw)) (\<lambda>_. Inr (get_control raw)))"

section \<open>The packet format\<close>

lemma length_put_control [simp]: "length (put_control m) = 28"
  by (simp add: put_control_def)

lemma zeroed_map:
  assumes "length raw = 32"
  shows "map (\<lambda>(index, v). if index \<ge> 28 then 0 else v) (enumerate 0 raw) = zeroed 28 raw"
  using assms
  by (intro nth_equalityI) (auto simp: length_zeroed zeroed_nth nth_enumerate_eq)

lemma checksumControl_zeroed: "length raw = 32 \<Longrightarrow> checksumControl raw = fnv1a (zeroed 28 raw)"
  by (simp add: checksumControl_def zeroed_map)

interpretation control_seal: sealed_packet fnv1a 28 "\<lambda>raw. \<exists>m. DecodeControl raw = Inr m"
proof
  show "fnv1a (bs[i := b]) \<noteq> fnv1a bs" if "i < length bs" "bs ! i \<noteq> b" for i b and bs :: bytes
    using that by (rule fnv1a_detects)
  show "28 + 4 \<le> length p \<and> fnv1a (zeroed 28 p) = be_at 28 (28 + 4) p"
    if "\<exists>m. DecodeControl p = Inr m" for p
    using that by (auto simp: DecodeControl_def checksumControl_zeroed split: if_splits)
qed

definition control_sum :: "ControlMessage \<Rightarrow> u32" where
  "control_sum m = fnv1a (put_control m @ [0, 0, 0, 0])"

lemma checksum_put_control: "checksumControl (put_control m @ be_enc 4 (s :: u32)) = control_sum m"
  by (simp add: checksumControl_zeroed zeroed_def control_sum_def)

lemma EncodeControl_Inr:
  "EncodeControl m = Inr raw \<longleftrightarrow> control_validate m = Inr () \<and> raw = put_control m @ be_enc 4 (control_sum m)"
  unfolding EncodeControl_def Let_def checksum_put_control by (auto simp: result_Inr)

lemma get_put_control:
  "get_control (put_control m @ be_enc 4 (s :: u32)) = m"
  "be_at 0 4 (put_control m @ be_enc 4 s) = controlMagic" "be_at 4 6 (put_control m @ be_enc 4 s) = ProtocolVersion"
  "be_at 28 32 (put_control m @ be_enc 4 s) = s"
  by (simp_all add: get_control_def put_control_def slice_append_right slice_append_left slice_def del: be_enc.simps One_nat_def)

lemma put_get_control:
  assumes "length raw = 32" "be_at 0 4 raw = controlMagic" "be_at 4 6 raw = ProtocolVersion"
  shows "raw = put_control (get_control raw) @ be_enc 4 (be_at 28 32 raw :: u32)"
proof -
  note f = drop_be_fields [of _ raw]
  have "raw = be_enc 4 (be_at 0 4 raw :: u32) @ be_enc 2 (be_at 4 6 raw :: u16) @ be_enc 1 (be_at 6 7 raw :: u8)
      @ be_enc 1 (be_at 7 8 raw :: u8) @ be_enc 8 (be_at 8 16 raw :: u64) @ be_enc 4 (be_at 16 20 raw :: u32)
      @ be_enc 4 (be_at 20 24 raw :: u32) @ be_enc 4 (be_at 24 28 raw :: u32) @ be_enc 4 (be_at 28 32 raw :: u32)"
    using assms(1) f(3) [of 0] f(2) [of 4] f(1) [of 6] f(1) [of 7] f(4) [of 8] f(3) [of 16] f(3) [of 20]
      f(3) [of 24] f(3) [of 28]
    by (simp del: be_enc.simps One_nat_def)
  then show ?thesis
    unfolding put_control_def get_control_def append_assoc ControlMessage.select_convs assms(2,3) .
qed

section \<open>Properties\<close>

text \<open>
  C32. The control format is exact: 32 bytes decode to a message exactly if they are the encoding of
  it, so every valid message survives the wire and no two packets carry the same message.
\<close>

theorem control_exact: "DecodeControl raw = Inr m \<longleftrightarrow> EncodeControl m = Inr raw"
proof
  assume m: "DecodeControl raw = Inr m"
  have raw: "length raw = 32" "be_at 0 4 raw = controlMagic" "be_at 4 6 raw = ProtocolVersion"
    "checksumControl raw = be_at 28 32 raw" "control_validate m = Inr ()" "m = get_control raw"
    using m by (auto simp: DecodeControl_def result_Inr split: if_splits)
  note eq = put_get_control [OF raw(1-3), folded raw(6)]
  have "control_sum m = be_at 28 32 raw"
    using raw(4) checksum_put_control [of m "be_at 28 32 raw"] eq by metis
  with eq raw(5) show "EncodeControl m = Inr raw" unfolding EncodeControl_Inr by metis
next
  assume "EncodeControl m = Inr raw"
  then show "DecodeControl raw = Inr m"
    unfolding EncodeControl_Inr by (simp add: DecodeControl_def get_put_control checksum_put_control)
qed

text \<open>
  C33. A control packet with one byte changed is never accepted, so an acknowledgement cannot turn
  into one for another tick by a single-byte error.
\<close>

theorem control_byte_corruption:
  assumes "DecodeControl raw = Inr m" "i < length raw" "raw ! i \<noteq> b"
  shows "\<exists>e. DecodeControl (raw[i := b]) = Inl e"
  using control_seal.corruption [OF _ assms(2,3)] assms(1)
  by (cases "DecodeControl (raw[i := b])") blast+

definition ex_ack :: ControlMessage where
  "ex_ack = \<lparr>cm_Type = ControlAck, cm_Reason = 0, cm_RoomID = 9, cm_Epoch = 1, cm_Tick = 5, cm_Sequence = 2\<rparr>"

definition ex_ack_bytes :: bytes where
  "ex_ack_bytes = put_control ex_ack @ be_enc 4 (control_sum ex_ack)"

theorem control_byte_corruption_witness: "\<exists>e. DecodeControl (ex_ack_bytes[23 := 4]) = Inl e"
proof (rule control_byte_corruption [of _ ex_ack])
  have "control_validate ex_ack = Inr ()" by code_simp
  then show "DecodeControl ex_ack_bytes = Inr ex_ack"
    by (simp add: ex_ack_bytes_def DecodeControl_def get_put_control checksum_put_control)
  show "23 < length ex_ack_bytes" by (simp add: ex_ack_bytes_def)
  show "ex_ack_bytes ! 23 \<noteq> 4" by code_simp
qed

end
