(* ===== verification/Repl_Session.thy ===== *)
theory Repl_Session
  imports Repl_Control
begin

text \<open>
  What a server keeps of the past (\<open>src/replication/ring.go\<close>, \<open>src/replication/session.go\<close>): the ring
  of published snapshots, and per session the snapshots sent, the tick the client acknowledged and
  the sequence numbers of frames and control messages.

  The methods run under the mutex of their object and are steps on its state; methods on a nil
  receiver are not modelled. An operation that can fail after changing the state returns the state
  next to the result. Frame sequences and ticks keep their 32 bits.
\<close>

section \<open>The snapshot ring\<close>

record SnapshotRing =
  ring_capacity :: int
  ring_items :: "Snapshot list"
  ring_byTick :: "(u32, int) gomap"
  ring_latest :: u32

definition NewSnapshotRing :: "int \<Rightarrow> SnapshotRing" where
  "NewSnapshotRing capacity = \<lparr>ring_capacity = (if capacity \<le> 0 then 64 else capacity), ring_items = [],
     ring_byTick = [], ring_latest = 0\<rparr>"

definition ring_evict :: "SnapshotRing \<Rightarrow> SnapshotRing" where
  "ring_evict r = r\<lparr>ring_items := tl (ring_items r),
     ring_byTick := map (\<lambda>(tick, index). (tick, index - 1)) (AList.delete (sn_Tick (hd (ring_items r))) (ring_byTick r))\<rparr>"

definition ring_Add :: "SnapshotRing \<Rightarrow> Snapshot \<Rightarrow> SnapshotRing result" where
  "ring_Add r snapshot =
     try_bind (meta_validate (sn_Meta snapshot)) (\<lambda>_.
       if ring_latest r \<noteq> 0 \<and> sn_Tick snapshot \<le> ring_latest r then Inl ErrBaselineMismatch
       else
         let r1 = (if int (length (ring_items r)) = ring_capacity r then ring_evict r else r);
             items = ring_items r1 @ [Snapshot_Clone snapshot] in
         Inr (r1\<lparr>ring_items := items,
                 ring_byTick := AList.update (sn_Tick snapshot) (int (length items) - 1) (ring_byTick r1),
                 ring_latest := sn_Tick snapshot\<rparr>))"

definition ring_Get :: "SnapshotRing \<Rightarrow> u32 \<Rightarrow> Snapshot option" where
  "ring_Get r tick =
     (if tick = 0 then None
      else case map_of (ring_byTick r) tick of
        None \<Rightarrow> None
      | Some index \<Rightarrow>
          if index < 0 \<or> index \<ge> int (length (ring_items r)) then None
          else Some (Snapshot_Clone (ring_items r ! nat index)))"

definition ring_Latest :: "SnapshotRing \<Rightarrow> Snapshot option" where
  "ring_Latest r = (if length (ring_items r) = 0 then None
     else Some (Snapshot_Clone (ring_items r ! (length (ring_items r) - 1))))"

definition ring_LatestTick :: "SnapshotRing \<Rightarrow> u32" where
  "ring_LatestTick r = ring_latest r"

definition ring_Len :: "SnapshotRing \<Rightarrow> nat" where
  "ring_Len r = length (ring_items r)"

definition ring_Reset :: "SnapshotRing \<Rightarrow> SnapshotRing" where
  "ring_Reset r = r\<lparr>ring_items := [], ring_byTick := [], ring_latest := 0\<rparr>"

section \<open>Sessions\<close>

record SessionState =
  ss_info :: SessionInfo
  ss_ackTick :: u32
  ss_lastSent :: u32
  ss_sequence :: u32
  ss_forceFull :: bool
  ss_closed :: bool
  ss_qualityTier :: u8
  ss_sent :: "(u32, Snapshot) gomap"
  ss_sentOrder :: "u32 list"
  ss_maxHistory :: int
  ss_generation :: u64
  ss_committed :: u32
  ss_controlSeq :: u32

definition NewSessionState :: "SessionInfo \<Rightarrow> SessionState result" where
  "NewSessionState info =
     (if si_ID info = 0 then Inl ErrSessionNotFound
      else Inr \<lparr>ss_info = info, ss_ackTick = 0, ss_lastSent = 0, ss_sequence = 0, ss_forceFull = True,
        ss_closed = False, ss_qualityTier = 0, ss_sent = [], ss_sentOrder = [], ss_maxHistory = 64,
        ss_generation = 0, ss_committed = 0, ss_controlSeq = 0\<rparr>)"

definition ss_ack :: "SessionState \<Rightarrow> u32 \<Rightarrow> SessionState" where
  "ss_ack s tick = (if tick > ss_ackTick s then s\<lparr>ss_ackTick := tick, ss_forceFull := False\<rparr> else s)"

definition handleControl :: "SessionState \<Rightarrow> ControlMessage \<Rightarrow> u32 \<Rightarrow> SessionState \<times> unit result" where
  "handleControl s m latestPublished =
     (if ss_closed s then (s, Inl ErrSessionNotFound)
      else if cm_Sequence m \<le> ss_controlSeq s then (s, Inl ErrInvalidControl)
      else
        let s1 = s\<lparr>ss_controlSeq := cm_Sequence m\<rparr> in
        if cm_Type m = ControlAck then
          (if cm_Tick m = 0 \<or> cm_Tick m > latestPublished \<or> cm_Tick m > ss_lastSent s1 then (s1, Inl ErrInvalidAck)
           else if map_of (ss_sent s1) (cm_Tick m) = None then (s1, Inl ErrInvalidAck)
           else (ss_ack s1 (cm_Tick m), Inr ()))
        else if cm_Type m = ControlResync then
          (s1\<lparr>ss_forceFull := True, ss_generation := ss_generation s1 + 1\<rparr>, Inr ())
        else (s1, Inl ErrInvalidControl))"

definition session_Acknowledge :: "SessionState \<Rightarrow> u32 \<Rightarrow> u32 \<Rightarrow> SessionState \<times> unit result" where
  "session_Acknowledge s tick latestPublished =
     (if tick = 0 \<or> tick > latestPublished then (s, Inl ErrInvalidAck)
      else if ss_closed s then (s, Inl ErrSessionNotFound)
      else if tick > ss_lastSent s then (s, Inl ErrInvalidAck)
      else if map_of (ss_sent s) tick = None then (s, Inl ErrInvalidAck)
      else (ss_ack s tick, Inr ()))"

definition session_ForceFull :: "SessionState \<Rightarrow> SessionState" where
  "session_ForceFull s =
     (if \<not> ss_closed s then s\<lparr>ss_forceFull := True, ss_generation := ss_generation s + 1\<rparr> else s)"

definition session_SetQualityTier :: "SessionState \<Rightarrow> u8 \<Rightarrow> SessionState \<times> unit result" where
  "session_SetQualityTier s tier =
     (if ss_closed s then (s, Inl ErrSessionNotFound)
      else if ss_qualityTier s \<noteq> tier
      then (s\<lparr>ss_qualityTier := tier, ss_generation := ss_generation s + 1\<rparr>, Inr ())
      else (s, Inr ()))"

record Prepared =
  pr_info :: SessionInfo
  pr_qualityTier :: u8
  pr_base :: "Snapshot option"
  pr_previous :: "Snapshot option"
  pr_sequence :: u32
  pr_generation :: u64
  pr_full :: bool

definition session_prepare :: "SessionState \<Rightarrow> u32 \<Rightarrow> SessionState \<times> Prepared result" where
  "session_prepare s targetTick =
     (if ss_closed s then (s, Inl ErrSessionNotFound)
      else
        let s1 = s\<lparr>ss_sequence := ss_sequence s + 1\<rparr>;
            s2 = (if ss_sequence s1 = 0 then s1\<lparr>ss_sequence := ss_sequence s1 + 1\<rparr> else s1);
            previous = map_option Snapshot_Clone (map_of (ss_sent s2) (ss_lastSent s2));
            out = (\<lambda>base full. \<lparr>pr_info = ss_info s2, pr_qualityTier = ss_qualityTier s2, pr_base = base,
              pr_previous = previous, pr_sequence = ss_sequence s2, pr_generation = ss_generation s2,
              pr_full = full\<rparr>) in
        if \<not> ss_forceFull s2 \<and> ss_ackTick s2 \<noteq> 0 \<and> ss_ackTick s2 < targetTick then
          (case map_of (ss_sent s2) (ss_ackTick s2) of
             Some base \<Rightarrow> (s2, Inr (out (Some (Snapshot_Clone base)) False))
           | None \<Rightarrow> (s2\<lparr>ss_forceFull := True\<rparr>, Inr (out None True)))
        else (s2, Inr (out None True)))"

fun trim_history :: "int \<Rightarrow> u32 list \<Rightarrow> (u32, Snapshot) gomap \<Rightarrow> u32 list \<times> (u32, Snapshot) gomap" where
  "trim_history maxHistory [] sent = ([], sent)"
| "trim_history maxHistory (oldest # order) sent =
     (if int (length (oldest # order)) > maxHistory then trim_history maxHistory order (AList.delete oldest sent)
      else (oldest # order, sent))"

definition commitPrepared ::
  "SessionState \<Rightarrow> Snapshot \<Rightarrow> u32 \<Rightarrow> u64 \<Rightarrow> bool \<Rightarrow> SessionState \<times> unit result" where
  "commitPrepared s snapshot sequence generation full =
     (if ss_closed s then (s, Inl ErrSessionNotFound)
      else if generation \<noteq> ss_generation s \<or> sequence \<le> ss_committed s then (s, Inl ErrPreparedFrameStale)
      else
        let order = (if map_of (ss_sent s) (sn_Tick snapshot) = None
                     then ss_sentOrder s @ [sn_Tick snapshot] else ss_sentOrder s);
            sent = AList.update (sn_Tick snapshot) (Snapshot_Clone snapshot) (ss_sent s);
            (order', sent') = trim_history (ss_maxHistory s) order sent in
        (s\<lparr>ss_committed := sequence,
           ss_lastSent := (if sn_Tick snapshot > ss_lastSent s then sn_Tick snapshot else ss_lastSent s),
           ss_sentOrder := order', ss_sent := sent',
           ss_forceFull := (if full then False else ss_forceFull s)\<rparr>, Inr ()))"

definition session_Close :: "SessionState \<Rightarrow> SessionState" where
  "session_Close s = s\<lparr>ss_closed := True, ss_sent := [], ss_sentOrder := []\<rparr>"

record SessionSnapshot =
  sv_Info :: SessionInfo
  sv_AckTick :: u32
  sv_LastSent :: u32
  sv_Sequence :: u32
  sv_ForceFull :: bool
  sv_Closed :: bool
  sv_QualityTier :: u8

definition session_Snapshot :: "SessionState \<Rightarrow> SessionSnapshot" where
  "session_Snapshot s = \<lparr>sv_Info = ss_info s, sv_AckTick = ss_ackTick s, sv_LastSent = ss_lastSent s,
     sv_Sequence = ss_sequence s, sv_ForceFull = ss_forceFull s, sv_Closed = ss_closed s,
     sv_QualityTier = ss_qualityTier s\<rparr>"

definition session_Info :: "SessionState \<Rightarrow> SessionInfo" where
  "session_Info s = ss_info s"

definition session_QualityTier :: "SessionState \<Rightarrow> u8" where
  "session_QualityTier s = ss_qualityTier s"

section \<open>Stores of past snapshots\<close>

text \<open>
  The interface the replicator relies on for baselines: what is stored under a tick is the snapshot
  stored there last, and nothing else appears.
\<close>

locale snapshot_store =
  fixes ok :: "'s \<Rightarrow> bool" and add :: "'s \<Rightarrow> 'x \<Rightarrow> 's option" and get :: "'s \<Rightarrow> u32 \<Rightarrow> Snapshot option"
    and snap :: "'x \<Rightarrow> Snapshot"
  assumes add_ok: "ok s \<Longrightarrow> add s x = Some s' \<Longrightarrow> ok s'"
    and get_new: "ok s \<Longrightarrow> add s x = Some s' \<Longrightarrow> get s' (sn_Tick (snap x)) = Some (snap x)"
    and get_old: "ok s \<Longrightarrow> add s x = Some s' \<Longrightarrow> t \<noteq> sn_Tick (snap x) \<Longrightarrow> get s' t = Some y \<Longrightarrow> get s t = Some y"
begin

fun store_run :: "'s \<Rightarrow> 'x list \<Rightarrow> 's" where
  "store_run s [] = s"
| "store_run s (x # xs) = store_run (case add s x of None \<Rightarrow> s | Some s' \<Rightarrow> s') xs"

lemma store_run_ok: "ok s \<Longrightarrow> ok (store_run s xs)"
  by (induction xs arbitrary: s) (auto split: option.splits dest: add_ok)

lemma store_run_get:
  assumes "ok s" "get (store_run s xs) t = Some y"
  shows "get s t = Some y \<or> (\<exists>x \<in> set xs. snap x = y \<and> sn_Tick y = t)"
  using assms
proof (induction xs arbitrary: s)
  case (Cons x xs)
  show ?case
  proof (cases "add s x")
    case None
    with Cons show ?thesis by auto
  next
    case (Some s')
    have ok': "ok s'" using add_ok Cons.prems(1) Some by blast
    have "get s' t = Some y \<or> (\<exists>x \<in> set xs. snap x = y \<and> sn_Tick y = t)"
      using Cons.IH [OF ok'] Cons.prems(2) Some by simp
    moreover have "get s t = Some y \<or> snap x = y \<and> sn_Tick y = t" if "get s' t = Some y"
      using get_old [OF Cons.prems(1) Some] get_new [OF Cons.prems(1) Some] that
      by (cases "t = sn_Tick (snap x)") auto
    ultimately show ?thesis by auto
  qed
qed simp

end

section \<open>The ring is a window of the published history\<close>

definition last_tick :: "Snapshot list \<Rightarrow> u32" where
  "last_tick h = (if h = [] then 0 else sn_Tick (last h))"

definition ring_ok :: "SnapshotRing \<Rightarrow> bool" where
  "ring_ok r \<longleftrightarrow> 0 < ring_capacity r \<and> int (length (ring_items r)) \<le> ring_capacity r
     \<and> sorted_wrt (<) (map sn_Tick (ring_items r)) \<and> (\<forall>s \<in> set (ring_items r). sn_Tick s \<noteq> 0)
     \<and> gomap_ok (ring_byTick r)
     \<and> (\<forall>t i. map_of (ring_byTick r) t = Some i \<longleftrightarrow>
          0 \<le> i \<and> i < int (length (ring_items r)) \<and> sn_Tick (ring_items r ! nat i) = t)
     \<and> ring_latest r = last_tick (ring_items r)"

lemma sorted_ticks_nth:
  fixes xs :: "Snapshot list"
  assumes "sorted_wrt (<) (map sn_Tick xs)" "i < length xs" "j < length xs" "sn_Tick (xs ! i) = sn_Tick (xs ! j)"
  shows "i = j"
proof -
  have "distinct (map sn_Tick xs)" using assms(1) strict_sorted_iff by blast
  then show ?thesis using assms(2-4) by (simp add: distinct_conv_nth) blast
qed

lemma map_of_decrement:
  "map_of (map (\<lambda>(t, i). (t, i - 1)) m) t = map_option (\<lambda>i. i - (1 :: int)) (map_of m t)"
  by (induction m) auto

lemma ring_evict_ok:
  assumes "ring_ok r" "ring_items r \<noteq> []"
  shows "gomap_ok (ring_byTick (ring_evict r))"
    and "map_of (ring_byTick (ring_evict r)) t = Some i \<longleftrightarrow>
          0 \<le> i \<and> i < int (length (tl (ring_items r))) \<and> sn_Tick (tl (ring_items r) ! nat i) = t"
proof -
  let ?m = "AList.delete (sn_Tick (hd (ring_items r))) (ring_byTick r)"
  have "map fst (map (\<lambda>(t, i). (t, i - 1)) ?m) = map fst ?m" by (simp add: comp_def case_prod_beta)
  moreover have "gomap_ok ?m" using assms(1) by (simp add: ring_ok_def)
  ultimately show "gomap_ok (ring_byTick (ring_evict r))"
    unfolding ring_evict_def gomap_ok_def by (simp del: map_map)
  obtain x xs where xs: "ring_items r = x # xs" using assms(2) by (cases "ring_items r") auto
  have get: "map_of (ring_byTick (ring_evict r)) t = Some i \<longleftrightarrow>
      t \<noteq> sn_Tick x \<and> map_of (ring_byTick r) t = Some (i + 1)"
    unfolding ring_evict_def by (auto simp: map_of_decrement xs)
  have byTick: "map_of (ring_byTick r) t = Some j \<longleftrightarrow> 0 \<le> j \<and> j < int (length (x # xs)) \<and> sn_Tick ((x # xs) ! nat j) = t" for j
    using assms(1) unfolding ring_ok_def xs by blast
  have "t \<noteq> sn_Tick x \<and> 0 \<le> i + 1 \<and> i + 1 < int (length (x # xs)) \<and> sn_Tick ((x # xs) ! nat (i + 1)) = t
     \<longleftrightarrow> 0 \<le> i \<and> i < int (length xs) \<and> sn_Tick (xs ! nat i) = t"
  proof (cases "0 \<le> i")
    case True
    have "sn_Tick x < sn_Tick (xs ! nat i)" if "i < int (length xs)"
      using assms(1) that True unfolding ring_ok_def xs by (simp add: nat_less_iff)
    with True show ?thesis by (auto simp: nat_add_distrib)
  next
    case False
    then have "0 \<le> i + 1 \<Longrightarrow> nat (i + 1) = 0" by simp
    with False show ?thesis by auto
  qed
  with get byTick show "map_of (ring_byTick (ring_evict r)) t = Some i \<longleftrightarrow>
          0 \<le> i \<and> i < int (length (tl (ring_items r))) \<and> sn_Tick (tl (ring_items r) ! nat i) = t"
    by (simp add: xs)
qed

lemma index_snoc:
  fixes xs :: "Snapshot list"
  assumes "\<forall>t i. map_of m t = Some i \<longleftrightarrow> 0 \<le> i \<and> i < int (length xs) \<and> sn_Tick (xs ! nat i) = t"
    and "\<forall>y \<in> set xs. sn_Tick y < sn_Tick x"
  shows "map_of (AList.update (sn_Tick x) (int (length xs)) m) t = Some i \<longleftrightarrow>
     0 \<le> i \<and> i < int (length (xs @ [x])) \<and> sn_Tick ((xs @ [x]) ! nat i) = t"
proof (cases "i = int (length xs)")
  case True
  have "map_of m t \<noteq> Some i" using assms(1) True by simp
  with True show ?thesis by auto
next
  case False
  have "sn_Tick (xs ! nat i) < sn_Tick x" if "0 \<le> i" "i < int (length xs)"
    using assms(2) that by (simp add: nat_less_iff)
  with False assms(1) show ?thesis by (auto simp: nth_append nat_less_iff)
qed


text \<open>The reference: publishing keeps the last \<open>capacity\<close> snapshots of the accepted history.\<close>

definition window :: "int \<Rightarrow> 'a list \<Rightarrow> 'a list" where
  "window capacity h = drop (length h - nat capacity) h"

definition publish_ok :: "u32 \<Rightarrow> Snapshot \<Rightarrow> bool" where
  "publish_ok latest s \<longleftrightarrow> meta_validate (sn_Meta s) = Inr () \<and> (latest = 0 \<or> latest < sn_Tick s)"

lemma window_snoc:
  assumes "0 < c"
  shows "window c (window c h @ [x]) = window c (h @ [x])"
    and "int (length (window c h)) = c \<Longrightarrow> tl (window c h) @ [x] = window c (window c h @ [x])"
    and "int (length h) \<le> c \<Longrightarrow> window c h = h"
    and "int (length (window c h)) < c \<Longrightarrow> window c h @ [x] = window c (window c h @ [x])"
  using assms
  by (cases "length h \<le> nat c"; auto simp: window_def drop_Suc Suc_diff_le tl_drop [symmetric] not_le)+

lemma sorted_wrt_tl: "sorted_wrt P xs \<Longrightarrow> sorted_wrt P (tl xs)"
  by (cases xs) auto

lemma ring_latest_bound:
  assumes "ring_ok r" "y \<in> set (ring_items r)"
  shows "ring_latest r \<noteq> 0 \<and> sn_Tick y \<le> ring_latest r"
proof -
  obtain xs x where xs: "ring_items r = xs @ [x]" using assms(2) by (metis append_butlast_last_id empty_iff empty_set)
  with assms have "y = x \<or> sn_Tick y < sn_Tick x" "sn_Tick x \<noteq> 0"
    by (auto simp: ring_ok_def sorted_wrt_append)
  with assms(1) xs show ?thesis by (auto simp: ring_ok_def last_tick_def)
qed

lemma ring_Add_Inr:
  assumes "ring_ok r" "ring_Add r s = Inr r'"
  shows "ring_ok r'" "ring_items r' = window (ring_capacity r) (ring_items r @ [s])"
    "ring_capacity r' = ring_capacity r" "publish_ok (ring_latest r) s"
proof -
  define r1 where "r1 = (if int (length (ring_items r)) = ring_capacity r then ring_evict r else r)"
  have pub: "meta_validate (sn_Meta s) = Inr ()" "ring_latest r = 0 \<or> ring_latest r < sn_Tick s"
    and r': "r' = r1\<lparr>ring_items := ring_items r1 @ [s],
        ring_byTick := AList.update (sn_Tick s) (int (length (ring_items r1))) (ring_byTick r1),
        ring_latest := sn_Tick s\<rparr>"
    using assms(2) by (auto simp: ring_Add_def Let_def result_Inr r1_def not_le split: if_splits)
  then show "publish_ok (ring_latest r) s" by (simp add: publish_ok_def)
  have cap: "0 < ring_capacity r" using assms(1) by (simp add: ring_ok_def)
  have items: "ring_items r1 = (if int (length (ring_items r)) = ring_capacity r then tl (ring_items r) else ring_items r)"
    by (simp add: r1_def ring_evict_def)
  have len: "int (length (ring_items r1)) < ring_capacity r"
    using assms(1) cap by (auto simp: items ring_ok_def)
  have ne: "ring_items r \<noteq> []" if "int (length (ring_items r)) = ring_capacity r" using that cap by auto
  have idx: "gomap_ok (ring_byTick r1)" "\<forall>t i. map_of (ring_byTick r1) t = Some i \<longleftrightarrow>
      0 \<le> i \<and> i < int (length (ring_items r1)) \<and> sn_Tick (ring_items r1 ! nat i) = t"
    using assms(1) ring_evict_ok [OF assms(1) ne] by (auto simp: r1_def ring_evict_def ring_ok_def)
  have sub: "set (ring_items r1) \<subseteq> set (ring_items r)" by (cases "ring_items r") (auto simp: items)
  have lt: "\<forall>y \<in> set (ring_items r1). sn_Tick y < sn_Tick s"
    using assms(1) pub(2) sub ring_latest_bound [OF assms(1)] by fastforce
  show "ring_capacity r' = ring_capacity r" by (simp add: r' r1_def ring_evict_def)
  show "ring_items r' = window (ring_capacity r) (ring_items r @ [s])"
    using window_snoc(2,4) [OF cap, of "ring_items r" s] window_snoc(3) [OF cap, of "ring_items r"] assms(1) by (auto simp: r' items ring_ok_def)
  have "sorted_wrt (<) (map sn_Tick (ring_items r1 @ [s]))"
    using assms(1) lt by (auto simp: sorted_wrt_append items ring_ok_def map_tl sorted_wrt_tl)
  moreover have "sn_Tick s \<noteq> 0" using pub(1) by (simp add: meta_validate_def split: if_splits)
  ultimately show "ring_ok r'"
    using index_snoc [OF idx(2) lt] idx(1) len sub assms(1)
    by (auto simp: ring_ok_def r' last_tick_def r1_def ring_evict_def)
qed

lemma ring_Add_Inl: "(\<exists>e. ring_Add r s = Inl e) \<longleftrightarrow> \<not> publish_ok (ring_latest r) s"
  by (cases "meta_validate (sn_Meta s)") (auto simp: ring_Add_def Let_def publish_ok_def not_le)

lemma ring_Get_find:
  assumes "ring_ok r" "t \<noteq> 0"
  shows "ring_Get r t = find (\<lambda>s. sn_Tick s = t) (ring_items r)"
proof (cases "map_of (ring_byTick r) t")
  case None
  have "sn_Tick (ring_items r ! j) \<noteq> t" if "j < length (ring_items r)" for j
  proof
    assume "sn_Tick (ring_items r ! j) = t"
    then have "map_of (ring_byTick r) t = Some (int j)" using assms(1) that by (simp add: ring_ok_def)
    with None show False by simp
  qed
  then have "find (\<lambda>s. sn_Tick s = t) (ring_items r) = None"
    unfolding find_None_iff by (auto simp: in_set_conv_nth)
  with None assms(2) show ?thesis by (simp add: ring_Get_def)
next
  case (Some i)
  then have i: "0 \<le> i" "i < int (length (ring_items r))" "sn_Tick (ring_items r ! nat i) = t"
    using assms(1) unfolding ring_ok_def by blast+
  have "sorted_wrt (<) (map sn_Tick (ring_items r))" using assms(1) by (simp add: ring_ok_def)
  then have first: "sn_Tick (ring_items r ! j) \<noteq> t" if "j < nat i" for j
    using that i sorted_wrt_nth_less [of "(<)" "map sn_Tick (ring_items r)" j "nat i"] by (auto simp: nat_less_iff)
  have "find (\<lambda>s. sn_Tick s = t) (ring_items r) = Some (ring_items r ! nat i)"
    using i first by (auto simp: find_Some_iff intro!: exI [of _ "nat i"])
  with Some i assms(2) show ?thesis by (simp add: ring_Get_def)
qed

lemma ring_Latest_last: "ring_Latest r = (if ring_items r = [] then None else Some (last (ring_items r)))"
  by (simp add: ring_Latest_def last_conv_nth)

lemma NewSnapshotRing_ok: "ring_ok (NewSnapshotRing c)"
  by (simp add: ring_ok_def NewSnapshotRing_def last_tick_def)

text \<open>A ring that is offered any snapshots, and the history it accepts.\<close>

fun ring_run :: "SnapshotRing \<Rightarrow> Snapshot list \<Rightarrow> SnapshotRing" where
  "ring_run r [] = r"
| "ring_run r (s # ss) = ring_run (case ring_Add r s of Inl _ \<Rightarrow> r | Inr r' \<Rightarrow> r') ss"

fun accepted :: "u32 \<Rightarrow> Snapshot list \<Rightarrow> Snapshot list" where
  "accepted latest [] = []"
| "accepted latest (s # ss) =
     (if publish_ok latest s then s # accepted (sn_Tick s) ss else accepted latest ss)"

lemma window_append: "0 < c \<Longrightarrow> window c (window c h @ ys) = window c (h @ ys)"
  by (cases "length h \<le> nat c") (auto simp: window_def add.commute)

lemma ring_run_window:
  assumes "ring_ok r"
  shows "ring_ok (ring_run r ss) \<and> ring_capacity (ring_run r ss) = ring_capacity r
    \<and> ring_items (ring_run r ss) = window (ring_capacity r) (ring_items r @ accepted (ring_latest r) ss)"
  using assms
proof (induction ss arbitrary: r)
  case Nil
  then show ?case using window_snoc(3) [of "ring_capacity r" "ring_items r"] by (simp add: ring_ok_def)
next
  case (Cons s ss)
  show ?case
  proof (cases "ring_Add r s")
    case (Inl e)
    then have "\<not> publish_ok (ring_latest r) s" using ring_Add_Inl by blast
    with Inl Cons show ?thesis by simp
  next
    case (Inr r')
    note a = ring_Add_Inr [OF Cons.prems Inr]
    have "ring_latest r' = sn_Tick s"
      using Inr by (auto simp: ring_Add_def Let_def result_Inr split: if_splits)
    moreover have "0 < ring_capacity r" using Cons.prems by (simp add: ring_ok_def)
    ultimately show ?thesis
      using Cons.IH [OF a(1)] a(2-4) Inr window_append [of "ring_capacity r" "ring_items r @ [s]"] by simp
  qed
qed

definition ring_add :: "SnapshotRing \<Rightarrow> Snapshot \<Rightarrow> SnapshotRing option" where
  "ring_add r s = (case ring_Add r s of Inl _ \<Rightarrow> None | Inr r' \<Rightarrow> Some r')"

lemma window_snoc_last: "0 < c \<Longrightarrow> \<exists>ys. window c (xs @ [x]) = ys @ [x] \<and> set ys \<subseteq> set xs"
proof -
  assume "0 < c"
  then have "window c (xs @ [x]) = drop (Suc (length xs) - nat c) xs @ [x]" by (simp add: window_def)
  then show ?thesis by (meson set_drop_subset)
qed

lemma ring_Get_iff:
  assumes "ring_ok r"
  shows "ring_Get r t = Some s \<longleftrightarrow> s \<in> set (ring_items r) \<and> sn_Tick s = t"
proof (cases "t = 0")
  case True
  with assms show ?thesis by (auto simp: ring_Get_def ring_ok_def)
next
  case False
  have "distinct (map sn_Tick (ring_items r))"
    using assms strict_sorted_iff by (auto simp: ring_ok_def)
  then have inj: "inj_on sn_Tick (set (ring_items r))" by (simp add: distinct_map)
  show ?thesis
  proof
    assume "ring_Get r t = Some s"
    then show "s \<in> set (ring_items r) \<and> sn_Tick s = t"
      unfolding ring_Get_find [OF assms False] by (auto simp: find_Some_iff)
  next
    assume s: "s \<in> set (ring_items r) \<and> sn_Tick s = t"
    then obtain s' where s': "find (\<lambda>s. sn_Tick s = t) (ring_items r) = Some s'"
      by (cases "find (\<lambda>s. sn_Tick s = t) (ring_items r)") (auto simp: find_None_iff)
    then have "s' \<in> set (ring_items r)" "sn_Tick s' = t" by (auto simp: find_Some_iff)
    with s inj have "s' = s" by (metis inj_onD)
    with s' show "ring_Get r t = Some s" by (simp add: ring_Get_find [OF assms False])
  qed
qed

interpretation ring_store: snapshot_store ring_ok ring_add ring_Get id
proof
  fix r r' x t y
  assume r: "ring_ok r" and add: "ring_add r x = Some r'"
  then have a: "ring_Add r x = Inr r'" by (simp add: ring_add_def split: sum.splits)
  note r' = ring_Add_Inr [OF r a]
  then show "ring_ok r'" by blast
  have "0 < ring_capacity r" using r by (simp add: ring_ok_def)
  then obtain ys where ys: "ring_items r' = ys @ [x]" "set ys \<subseteq> set (ring_items r)"
    using r'(2) window_snoc_last by metis
  then show "ring_Get r' (sn_Tick (id x)) = Some (id x)"
    unfolding ring_Get_iff [OF r'(1)] by simp
  show "ring_Get r t = Some y" if "t \<noteq> sn_Tick (id x)" "ring_Get r' t = Some y"
    using that ys unfolding ring_Get_iff [OF r'(1)] ring_Get_iff [OF r] by auto
qed

section \<open>The session invariant\<close>

definition session_ok :: "SessionState \<Rightarrow> bool" where
  "session_ok s \<longleftrightarrow> 0 < ss_maxHistory s \<and> gomap_ok (ss_sent s) \<and> distinct (ss_sentOrder s)
     \<and> set (ss_sentOrder s) = dom (map_of (ss_sent s)) \<and> int (length (ss_sentOrder s)) \<le> ss_maxHistory s
     \<and> (\<forall>t y. map_of (ss_sent s) t = Some y \<longrightarrow> sn_Tick y = t \<and> t \<le> ss_lastSent s)
     \<and> ss_ackTick s \<le> ss_lastSent s"

datatype session_op =
    OpControl ControlMessage u32
  | OpAcknowledge u32 u32
  | OpForceFull
  | OpSetQualityTier u8
  | OpPrepare u32
  | OpCommit Snapshot u32 u64 bool
  | OpClose

fun session_step :: "SessionState \<Rightarrow> session_op \<Rightarrow> SessionState" where
  "session_step s (OpControl m latest) = fst (handleControl s m latest)"
| "session_step s (OpAcknowledge tick latest) = fst (session_Acknowledge s tick latest)"
| "session_step s OpForceFull = session_ForceFull s"
| "session_step s (OpSetQualityTier tier) = fst (session_SetQualityTier s tier)"
| "session_step s (OpPrepare target) = fst (session_prepare s target)"
| "session_step s (OpCommit snapshot sequence generation full) = fst (commitPrepared s snapshot sequence generation full)"
| "session_step s OpClose = session_Close s"

lemma window_Cons: "int (length (x # xs)) > c \<Longrightarrow> 0 < c \<Longrightarrow> window c (x # xs) = window c xs"
  by (auto simp: window_def Suc_diff_le)

lemma trim_history_window:
  assumes "trim_history c order sent = (order', sent')" "0 < c" "gomap_ok sent" "distinct order"
    and "set order = dom (map_of sent)"
  shows "order' = window c order \<and> gomap_ok sent'
    \<and> (\<forall>t. map_of sent' t = (if t \<in> set order' then map_of sent t else None))"
  using assms
proof (induction order arbitrary: sent)
  case Nil
  then show ?case by (auto simp: window_def)
next
  case (Cons t ts)
  show ?case
  proof (cases "int (length (t # ts)) > c")
    case True
    then have trim: "trim_history c ts (AList.delete t sent) = (order', sent')" using Cons.prems(1) by simp
    have "dom (map_of (AList.delete t sent)) = dom (map_of sent) - {t}"
      unfolding gomap_get_delete by (simp del: fun_upd_apply)
    also have "\<dots> = set ts" using Cons.prems(4,5) by auto
    finally have d: "dom (map_of (AList.delete t sent)) = set ts" .
    have IH: "order' = window c ts \<and> gomap_ok sent'
        \<and> (\<forall>k. map_of sent' k = (if k \<in> set order' then map_of (AList.delete t sent) k else None))"
      by (rule Cons.IH [OF trim Cons.prems(2) gomap_ok_delete [OF Cons.prems(3)] _ d [symmetric]])
        (use Cons.prems(4) in simp)
    moreover have "t \<notin> set order'"
      using IH Cons.prems(4) set_drop_subset by (fastforce simp: window_def)
    ultimately show ?thesis
      unfolding window_Cons [OF True Cons.prems(2)] by (auto simp: gomap_get_delete)
  next
    case False
    then have "window c (t # ts) = t # ts" using window_snoc(3) [OF Cons.prems(2), of "t # ts"] by simp
    with False Cons.prems show ?thesis by (auto simp: dom_def)
  qed
qed

lemma commitPrepared_Inr:
  assumes "session_ok s" "commitPrepared s snapshot sequence generation full = (s', Inr ())"
  shows "session_ok s'" "map_of (ss_sent s') (sn_Tick snapshot) = Some snapshot"
    "t \<noteq> sn_Tick snapshot \<Longrightarrow> map_of (ss_sent s') t = Some y \<Longrightarrow> map_of (ss_sent s) t = Some y"
proof -
  let ?t = "sn_Tick snapshot"
  define order where "order = (if map_of (ss_sent s) ?t = None then ss_sentOrder s @ [?t] else ss_sentOrder s)"
  define sent where "sent = AList.update ?t snapshot (ss_sent s)"
  obtain order' sent' where trim: "trim_history (ss_maxHistory s) order sent = (order', sent')"
    by (cases "trim_history (ss_maxHistory s) order sent")
  have s': "s' = s\<lparr>ss_committed := sequence,
           ss_lastSent := (if ?t > ss_lastSent s then ?t else ss_lastSent s),
           ss_sentOrder := order', ss_sent := sent',
           ss_forceFull := (if full then False else ss_forceFull s)\<rparr>"
    using assms(2) trim unfolding commitPrepared_def order_def sent_def by (auto split: if_splits)
  have max: "0 < ss_maxHistory s" using assms(1) by (simp add: session_ok_def)
  have "gomap_ok sent" using assms(1) by (simp add: session_ok_def sent_def)
  moreover have ord: "distinct order" "set order = dom (map_of sent)"
    using assms(1) by (auto simp: session_ok_def order_def sent_def dom_def)
  ultimately have tr: "order' = window (ss_maxHistory s) order" "gomap_ok sent'"
    "\<And>t. map_of sent' t = (if t \<in> set order' then map_of sent t else None)"
    using trim_history_window [OF trim max] by blast+
  have new: "?t \<in> set order'"
  proof (cases "map_of (ss_sent s) ?t = None")
    case True
    then show ?thesis using window_snoc_last [OF max, of "ss_sentOrder s" ?t] unfolding tr(1) order_def by auto
  next
    case False
    then have "order = ss_sentOrder s" "?t \<in> set (ss_sentOrder s)"
      using assms(1) by (auto simp: order_def session_ok_def)
    moreover have "window (ss_maxHistory s) (ss_sentOrder s) = ss_sentOrder s"
      by (rule window_snoc(3) [OF max]) (use assms(1) in \<open>simp add: session_ok_def\<close>)
    ultimately show ?thesis unfolding tr(1) by simp
  qed
  show "map_of (ss_sent s') ?t = Some snapshot" using new by (simp add: s' tr(3) sent_def)
  show "map_of (ss_sent s) t = Some y" if "t \<noteq> ?t" "map_of (ss_sent s') t = Some y"
    using that by (simp add: s' tr(3) sent_def split: if_splits)
  have sub: "set order' \<subseteq> set order" unfolding tr(1) window_def by (rule set_drop_subset)
  have dom: "set order' = dom (map_of sent')" using sub ord(2) by (auto simp: tr(3) dom_def)
  have len: "int (length order') \<le> ss_maxHistory s" unfolding tr(1) window_def using max by simp
  have dist: "distinct order'" unfolding tr(1) window_def using ord(1) by simp
  have ticks: "sn_Tick y = t \<and> t \<le> (if ?t > ss_lastSent s then ?t else ss_lastSent s)"
    if "map_of sent' t = Some y" for t y
  proof (cases "t = ?t")
    case True
    with that show ?thesis by (auto simp: tr(3) sent_def not_less split: if_splits)
  next
    case False
    with that have "map_of (ss_sent s) t = Some y" by (simp add: tr(3) sent_def split: if_splits)
    with assms(1) have "sn_Tick y = t" "t \<le> ss_lastSent s" by (auto simp: session_ok_def)
    then show ?thesis by auto
  qed
  have "ss_ackTick s \<le> ss_lastSent s" using assms(1) by (simp add: session_ok_def)
  then have ack: "ss_ackTick s \<le> (if ?t > ss_lastSent s then ?t else ss_lastSent s)" by auto
  show "session_ok s'"
    unfolding session_ok_def s' using max tr(2) dist dom len ticks ack by simp
qed

definition session_add :: "SessionState \<Rightarrow> Snapshot \<times> u32 \<times> u64 \<times> bool \<Rightarrow> SessionState option" where
  "session_add s = (\<lambda>(snapshot, sequence, generation, full).
     case commitPrepared s snapshot sequence generation full of (s', Inr _) \<Rightarrow> Some s' | _ \<Rightarrow> None)"

definition session_get :: "SessionState \<Rightarrow> u32 \<Rightarrow> Snapshot option" where
  "session_get s t = map_of (ss_sent s) t"

interpretation session_store: snapshot_store session_ok session_add session_get fst
proof
  fix s s' x t y
  assume s: "session_ok s" and add: "session_add s x = Some s'"
  then obtain sequence generation full where "commitPrepared s (fst x) sequence generation full = (s', Inr ())"
    by (auto simp: session_add_def split: prod.splits sum.splits)
  note c = commitPrepared_Inr [OF s this]
  show "session_ok s'" by (rule c(1))
  show "session_get s' (sn_Tick (fst x)) = Some (fst x)" using c(2) by (simp add: session_get_def)
  show "session_get s t = Some y" if "t \<noteq> sn_Tick (fst x)" "session_get s' t = Some y"
    using c(3) that by (simp add: session_get_def)
qed

lemma ss_ack_ok: "session_ok s \<Longrightarrow> tick \<le> ss_lastSent s \<Longrightarrow> session_ok (ss_ack s tick)"
  by (simp add: session_ok_def ss_ack_def)

lemma session_step_ok:
  assumes "session_ok s"
  shows "session_ok (session_step s op)"
proof (cases op)
  case (OpControl m latest)
  have "session_ok (s\<lparr>ss_controlSeq := cm_Sequence m\<rparr>)"
    "session_ok (s\<lparr>ss_controlSeq := cm_Sequence m, ss_forceFull := True, ss_generation := ss_generation s + 1\<rparr>)"
    using assms by (simp_all add: session_ok_def)
  with assms ss_ack_ok [of "s\<lparr>ss_controlSeq := cm_Sequence m\<rparr>" "cm_Tick m"] show ?thesis
    by (simp add: OpControl handleControl_def Let_def not_less)
next
  case (OpAcknowledge tick latest)
  with assms ss_ack_ok [OF assms, of tick] show ?thesis by (simp add: session_Acknowledge_def not_less)
next
  case OpForceFull
  with assms show ?thesis by (simp add: session_ForceFull_def session_ok_def)
next
  case (OpSetQualityTier tier)
  with assms show ?thesis by (simp add: session_SetQualityTier_def session_ok_def)
next
  case (OpPrepare target)
  with assms show ?thesis
    by (simp add: session_prepare_def Let_def session_ok_def split: option.splits)
next
  case (OpCommit snapshot sequence generation full)
  show ?thesis
  proof (cases "snd (commitPrepared s snapshot sequence generation full)")
    case (Inl e)
    then have "fst (commitPrepared s snapshot sequence generation full) = s"
      by (auto simp: commitPrepared_def split: if_splits prod.splits)
    with assms OpCommit show ?thesis by simp
  next
    case (Inr u)
    then have "commitPrepared s snapshot sequence generation full
        = (fst (commitPrepared s snapshot sequence generation full), Inr ())" by (simp add: prod_eq_iff)
    from commitPrepared_Inr(1) [OF assms this] OpCommit show ?thesis by simp
  qed
next
  case OpClose
  with assms show ?thesis by (simp add: session_Close_def session_ok_def)
qed

lemma session_run_ok: "session_ok s \<Longrightarrow> session_ok (foldl session_step s ops)"
  by (induction ops arbitrary: s) (auto dest: session_step_ok)

lemma NewSessionState_ok: "NewSessionState info = Inr s \<Longrightarrow> session_ok s"
  by (auto simp: NewSessionState_def session_ok_def split: if_splits)

text \<open>The counters of a session only grow.\<close>

lemma session_step_mono:
  "ss_ackTick s \<le> ss_ackTick (session_step s op)" "ss_controlSeq s \<le> ss_controlSeq (session_step s op)"
  "ss_committed s \<le> ss_committed (session_step s op)" "ss_closed s \<Longrightarrow> ss_closed (session_step s op)"
  by (cases op; auto simp: handleControl_def session_Acknowledge_def session_ForceFull_def
      session_SetQualityTier_def session_prepare_def commitPrepared_def session_Close_def ss_ack_def Let_def
      split: option.splits prod.splits)+

lemma session_run_mono:
  "ss_ackTick s \<le> ss_ackTick (foldl session_step s ops)" "ss_controlSeq s \<le> ss_controlSeq (foldl session_step s ops)"
  "ss_committed s \<le> ss_committed (foldl session_step s ops)"
  by (induction ops arbitrary: s) (auto intro: order_trans [OF session_step_mono(1)] order_trans [OF session_step_mono(2)]
      order_trans [OF session_step_mono(3)])

lemma window_Nil: "0 < c \<Longrightarrow> window c h = [] \<longleftrightarrow> h = []"
  by (cases h) (auto simp: window_def)

lemma window_last: "0 < c \<Longrightarrow> h \<noteq> [] \<Longrightarrow> last (window c h) = last h"
  by (cases h) (auto simp: window_def last_drop)

section \<open>Properties\<close>

definition ex_info :: SessionInfo where
  "ex_info = \<lparr>si_ID = 4, si_OwnerID = 1, si_TeamID = 1, si_Roles = 0\<rparr>"

definition ex_session :: SessionState where
  "ex_session = projr (NewSessionState ex_info)"

definition ex_sent :: "u32 \<Rightarrow> Snapshot" where
  "ex_sent tick = \<lparr>sn_Meta = \<lparr>meta_RoomID = 9, meta_Epoch = 1, meta_Tick = tick, meta_SchemaVersion = 1\<rparr>,
     sn_Objects = []\<rparr>"

lemma ex_session: "NewSessionState ex_info = Inr ex_session"
  by (simp add: ex_session_def NewSessionState_def ex_info_def)

text \<open>Two frames sent, the first acknowledged.\<close>

definition ex_ops :: "session_op list" where
  "ex_ops = [OpPrepare 1, OpCommit (ex_sent 1) 1 0 True, OpPrepare 2, OpCommit (ex_sent 2) 2 0 True,
     OpAcknowledge 1 2]"

definition ex_running :: SessionState where
  "ex_running = foldl session_step ex_session ex_ops"

lemma ex_running_ok: "session_ok ex_running"
  unfolding ex_running_def by (rule session_run_ok [OF NewSessionState_ok [OF ex_session]])

text \<open>
  C17. The ring implements a sliding window: whatever snapshots are offered, it keeps the last
  \<open>capacity\<close> of those it accepted, and looking up a tick by its index gives what a search through
  the window gives.
\<close>

theorem ring_refines_window:
  "let r = ring_run (NewSnapshotRing c) ss; h = accepted 0 ss in
     ring_items r = window (ring_capacity r) h
     \<and> (\<forall>t. ring_Get r t = (if t = 0 then None else find (\<lambda>s. sn_Tick s = t) (window (ring_capacity r) h)))
     \<and> ring_Latest r = (if h = [] then None else Some (last h))"
proof -
  let ?r = "ring_run (NewSnapshotRing c) ss" and ?h = "accepted 0 ss"
  have run: "ring_ok ?r" "ring_items ?r = window (ring_capacity ?r) ?h"
    using ring_run_window [OF NewSnapshotRing_ok, of c ss] by (simp_all add: NewSnapshotRing_def)
  have "0 < ring_capacity ?r" using run(1) by (simp add: ring_ok_def)
  then have ne: "window (ring_capacity ?r) ?h = [] \<longleftrightarrow> ?h = []" "?h \<noteq> [] \<Longrightarrow> last (window (ring_capacity ?r) ?h) = last ?h"
    by (rule window_Nil, rule window_last)
  have get: "ring_Get ?r t = (if t = 0 then None else find (\<lambda>s. sn_Tick s = t) (window (ring_capacity ?r) ?h))" for t
    using ring_Get_find [OF run(1), of t] run(2) by (simp add: ring_Get_def)
  have latest: "ring_Latest ?r = (if ?h = [] then None else Some (last ?h))"
    unfolding ring_Latest_last run(2) using ne by simp
  show ?thesis unfolding Let_def using run(2) get latest by blast
qed

text \<open>
  C18. A session keeps its invariant under every sequence of operations, in any order: its history
  is bounded, lists exactly the ticks it stores, stores each snapshot under its tick, and neither a
  stored nor the acknowledged tick is beyond the last tick sent.
\<close>

theorem session_invariant:
  assumes "NewSessionState info = Inr s"
  shows "session_ok (foldl session_step s ops)"
  using session_run_ok [OF NewSessionState_ok [OF assms]] .

theorem session_invariant_witness: "session_ok (foldl session_step ex_session ex_ops)"
  by (rule session_invariant [OF ex_session])

text \<open>
  C19. A delta is only built against what the client acknowledged: the baseline that \<open>prepare\<close> hands
  out is the stored snapshot of the acknowledged tick, older than the target, and a missing
  baseline always means a full frame. The sequence number handed out is never zero.
\<close>

theorem prepare_baseline:
  assumes "session_ok s" "session_prepare s target = (s', Inr p)"
  shows "(case pr_base p of
      Some b \<Rightarrow> \<not> pr_full p \<and> map_of (ss_sent s) (ss_ackTick s) = Some b \<and> sn_Tick b = ss_ackTick s
        \<and> sn_Tick b < target \<and> \<not> ss_forceFull s
    | None \<Rightarrow> pr_full p) \<and> pr_sequence p \<noteq> 0 \<and> pr_sequence p = ss_sequence s'"
  using assms
  by (auto simp: session_prepare_def Let_def session_ok_def split: if_splits option.splits)

theorem prepare_baseline_witness:
  "\<exists>s' p. session_prepare ex_running 3 = (s', Inr p) \<and> pr_base p = Some (ex_sent 1) \<and> \<not> pr_full p"
proof -
  have "\<not> isl (snd (session_prepare ex_running 3))"
    "map_option sn_Tick (pr_base (projr (snd (session_prepare ex_running 3)))) = Some 1"
    "map_of (ss_sent ex_running) (ss_ackTick ex_running) = Some (ex_sent 1)"
    by code_simp+
  then obtain s' p b where p: "session_prepare ex_running 3 = (s', Inr p)" "pr_base p = Some b"
    by (cases "session_prepare ex_running 3"; cases "snd (session_prepare ex_running 3)") auto
  with prepare_baseline [OF ex_running_ok p(1)] \<open>map_of _ _ = Some (ex_sent 1)\<close> show ?thesis by auto
qed

text \<open>
  C34. A control message acts at most once: after it was handled, and after any further operations,
  handling it again changes nothing and is refused.
\<close>

theorem control_not_replayed:
  assumes "handleControl s m latest = (s1, r1)" "s2 = foldl session_step s1 ops"
  shows "\<exists>e. handleControl s2 m latest' = (s2, Inl e)"
proof (cases "ss_closed s2")
  case False
  have "ss_closed s \<Longrightarrow> ss_closed (foldl session_step s ops)" for s
    by (induction ops arbitrary: s) (auto simp: session_step_mono(4))
  then have "\<not> ss_closed s1" using False assms(2) by blast
  then have "cm_Sequence m \<le> ss_controlSeq s1"
    using assms(1) by (auto simp: handleControl_def Let_def ss_ack_def split: if_splits)
  then have "cm_Sequence m \<le> ss_controlSeq s2"
    using session_run_mono(2) [of s1 ops] assms(2) by simp
  with False show ?thesis by (simp add: handleControl_def)
qed (simp add: handleControl_def)

theorem control_not_replayed_witness:
  "\<exists>e. handleControl (foldl session_step (fst (handleControl ex_running ex_ack 9)) [OpForceFull]) ex_ack 9
    = (foldl session_step (fst (handleControl ex_running ex_ack 9)) [OpForceFull], Inl e)"
  by (rule control_not_replayed [OF _ refl]) (rule prod.collapse [symmetric])

text \<open>
  C39. The frame sequence skips zero when it wraps around, but the guard of \<open>commitPrepared\<close> compares
  sequences as plain integers: once the largest one is committed, no frame of the session is ever
  committed again, whatever happens afterwards.
\<close>

theorem sequence_wrap_stuck:
  assumes "ss_committed s = - 1" "s' = foldl session_step s ops"
  shows "\<exists>e. commitPrepared s' snapshot sequence generation full = (s', Inl e)"
proof -
  have "ss_committed s' = - 1"
    using session_run_mono(3) [of s ops] assms by (simp add: word_order.extremum_unique)
  then show ?thesis by (simp add: commitPrepared_def)
qed

theorem sequence_wrap_stuck_witness:
  "\<exists>e. commitPrepared (foldl session_step (ex_running\<lparr>ss_committed := - 1\<rparr>) [OpPrepare 3]) (ex_sent 3) 1 0 True
    = (foldl session_step (ex_running\<lparr>ss_committed := - 1\<rparr>) [OpPrepare 3], Inl e)"
  by (rule sequence_wrap_stuck [OF _ refl]) simp

text \<open>
  C40. An acknowledgement cancels a forced full frame: when a full refresh was requested (as a change
  of transport does) and then a newer tick is acknowledged before the next frame is prepared, that
  frame is a delta.
\<close>

theorem acknowledge_cancels_force_full:
  assumes "\<not> ss_closed s" "map_of (ss_sent s) tick = Some b" "ss_ackTick s < tick" "tick \<le> ss_lastSent s"
    and "tick \<le> latest" "tick < target"
  shows "\<exists>s1 s2 p. session_Acknowledge (session_ForceFull s) tick latest = (s1, Inr ())
    \<and> session_prepare s1 target = (s2, Inr p) \<and> pr_base p = Some b \<and> \<not> pr_full p"
proof -
  have "tick \<noteq> 0" using assms(3) by auto
  with assms show ?thesis
    by (auto simp: session_ForceFull_def session_Acknowledge_def ss_ack_def session_prepare_def Let_def not_less)
qed

theorem acknowledge_cancels_force_full_witness:
  "\<exists>s1 s2 p. session_Acknowledge (session_ForceFull ex_running) 2 2 = (s1, Inr ())
    \<and> session_prepare s1 3 = (s2, Inr p) \<and> pr_base p = Some (ex_sent 2) \<and> \<not> pr_full p"
  by (rule acknowledge_cancels_force_full; code_simp)

end
