(* ===== verification/Repl_Shadow.thy ===== *)
theory Repl_Shadow
  imports Repl_Delta
begin

text \<open>
  The sources of a snapshot: the shadow store (\<open>src/replication/shadow.go\<close>), which keeps copies of
  the state of a room for the network workers, and the registry of component schemas
  (\<open>src/replication/schema.go\<close>). Every operation is one step under the mutex of its object; methods
  on a nil receiver are not modelled.
\<close>

section \<open>The shadow store\<close>

record shadowObject =
  so_archetype :: u16
  so_components :: "(u16, ComponentState) gomap"

record ShadowStore =
  sh_limits :: Limits
  sh_objects :: "(ObjectRef, shadowObject) gomap"

definition NewShadowStore :: "Limits \<Rightarrow> ShadowStore" where
  "NewShadowStore limits = \<lparr>sh_limits = normalizeLimits limits, sh_objects = []\<rparr>"

definition UpsertObject :: "ShadowStore \<Rightarrow> ObjectRef \<Rightarrow> u16 \<Rightarrow> ShadowStore result" where
  "UpsertObject s ref archetype =
     (if \<not> Valid ref \<or> archetype = 0 then Inl ErrInvalidObjectRef
      else case map_of (sh_objects s) ref of
        Some obj \<Rightarrow> Inr (s\<lparr>sh_objects := AList.update ref (obj\<lparr>so_archetype := archetype\<rparr>) (sh_objects s)\<rparr>)
      | None \<Rightarrow>
          if int (length (sh_objects s)) \<ge> MaxObjects (sh_limits s) then Inl ErrObjectLimit
          else Inr (s\<lparr>sh_objects := AList.update ref \<lparr>so_archetype = archetype, so_components = []\<rparr> (sh_objects s)\<rparr>))"

definition RemoveObject :: "ShadowStore \<Rightarrow> ObjectRef \<Rightarrow> ShadowStore \<times> bool" where
  "RemoveObject s ref =
     (if \<not> Valid ref then (s, False)
      else (s\<lparr>sh_objects := AList.delete ref (sh_objects s)\<rparr>, map_of (sh_objects s) ref \<noteq> None))"

definition SetComponent :: "ShadowStore \<Rightarrow> ObjectRef \<Rightarrow> ComponentState \<Rightarrow> ShadowStore result" where
  "SetComponent s ref component =
     (if \<not> Valid ref \<or> cs_TypeID component = 0 \<or> cs_SchemaVersion component = 0 then Inl ErrInvalidFrame
      else if int (length (cs_Data component)) > MaxComponentBytes (sh_limits s) then Inl ErrComponentTooLarge
      else case map_of (sh_objects s) ref of
        None \<Rightarrow> Inl ErrObjectNotFound
      | Some obj \<Rightarrow>
          if map_of (so_components obj) (cs_TypeID component) = None
            \<and> int (length (so_components obj)) \<ge> MaxComponentsPerObject (sh_limits s)
          then Inl ErrComponentLimit
          else Inr (s\<lparr>sh_objects := AList.update ref
                 (obj\<lparr>so_components := AList.update (cs_TypeID component) component (so_components obj)\<rparr>)
                 (sh_objects s)\<rparr>))"

definition RemoveComponent :: "ShadowStore \<Rightarrow> ObjectRef \<Rightarrow> u16 \<Rightarrow> ShadowStore \<times> bool" where
  "RemoveComponent s ref typeID =
     (if \<not> Valid ref \<or> typeID = 0 then (s, False)
      else case map_of (sh_objects s) ref of
        None \<Rightarrow> (s, False)
      | Some obj \<Rightarrow>
          (s\<lparr>sh_objects := AList.update ref
               (obj\<lparr>so_components := AList.delete typeID (so_components obj)\<rparr>) (sh_objects s)\<rparr>,
           map_of (so_components obj) typeID \<noteq> None))"

definition capture_object :: "ObjectRef \<times> shadowObject \<Rightarrow> ObjectState" where
  "capture_object = (\<lambda>(ref, obj). \<lparr>os_Ref = ref, os_Archetype = so_archetype obj,
     os_Components = map (\<lambda>(_, c). \<lparr>cs_TypeID = cs_TypeID c, cs_SchemaVersion = cs_SchemaVersion c,
       cs_Data = cs_Data c\<rparr>) (so_components obj)\<rparr>)"

definition Capture :: "ShadowStore \<Rightarrow> SnapshotMeta \<Rightarrow> Snapshot result" where
  "Capture s meta = NewSnapshot meta (map capture_object (sh_objects s)) (sh_limits s)"

definition ObjectCount :: "ShadowStore \<Rightarrow> nat" where
  "ObjectCount s = length (sh_objects s)"

definition shadow_Reset :: "ShadowStore \<Rightarrow> ShadowStore" where
  "shadow_Reset s = s\<lparr>sh_objects := []\<rparr>"

section \<open>Component schemas\<close>

record ComponentSchema =
  sc_TypeID :: u16
  sc_Name :: string
  sc_Version :: u16
  sc_MaxEncodedSize :: u32
  sc_Policy :: ReplicationPolicy

definition schema_validate :: "ComponentSchema \<Rightarrow> unit result" where
  "schema_validate s =
     (if sc_TypeID s = 0 \<or> sc_Name s = '''' \<or> sc_Version s = 0 \<or> sc_MaxEncodedSize s = 0 then Inl ErrInvalidFrame
      else policy_validate (sc_Policy s))"

record SchemaRegistry =
  reg_byID :: "(u16, ComponentSchema) gomap"
  reg_byName :: "(string, u16) gomap"

definition NewSchemaRegistry :: SchemaRegistry where
  "NewSchemaRegistry = \<lparr>reg_byID = [], reg_byName = []\<rparr>"

definition schema_Register :: "SchemaRegistry \<Rightarrow> ComponentSchema \<Rightarrow> SchemaRegistry result" where
  "schema_Register r schema =
     try_bind (schema_validate schema) (\<lambda>_.
       if map_of (reg_byID r) (sc_TypeID schema) \<noteq> None then Inl ErrAlreadyRegistered
       else if map_of (reg_byName r) (sc_Name schema) \<noteq> None then Inl ErrAlreadyRegistered
       else Inr \<lparr>reg_byID = AList.update (sc_TypeID schema) schema (reg_byID r),
                 reg_byName = AList.update (sc_Name schema) (sc_TypeID schema) (reg_byName r)\<rparr>)"

definition schema_Lookup :: "SchemaRegistry \<Rightarrow> u16 \<Rightarrow> ComponentSchema option" where
  "schema_Lookup r typeID = map_of (reg_byID r) typeID"

definition schema_LookupName :: "SchemaRegistry \<Rightarrow> string \<Rightarrow> ComponentSchema option" where
  "schema_LookupName r name = (case map_of (reg_byName r) name of None \<Rightarrow> None | Some typeID \<Rightarrow> map_of (reg_byID r) typeID)"

definition sortSchemas :: "ComponentSchema list \<Rightarrow> ComponentSchema list" where
  "sortSchemas schemas = insertion_sort sc_TypeID schemas"

definition schema_Snapshot :: "SchemaRegistry \<Rightarrow> ComponentSchema list" where
  "schema_Snapshot r = sortSchemas (govalues (reg_byID r))"

section \<open>What the store holds\<close>

type_synonym room_view = "ObjectRef \<rightharpoonup> u16 \<times> (u16 \<rightharpoonup> ComponentState)"

definition store_view :: "ShadowStore \<Rightarrow> room_view" where
  "store_view s = (\<lambda>ref. map_option (\<lambda>obj. (so_archetype obj, map_of (so_components obj))) (map_of (sh_objects s) ref))"

definition snapshot_view :: "Snapshot \<Rightarrow> room_view" where
  "snapshot_view sn = (\<lambda>ref. map_option (\<lambda>obj. (os_Archetype obj, index_by cs_TypeID (os_Components obj)))
     (index_by os_Ref (sn_Objects sn) ref))"

definition shadow_object_ok :: "Limits \<Rightarrow> shadowObject \<Rightarrow> bool" where
  "shadow_object_ok l obj \<longleftrightarrow> so_archetype obj \<noteq> 0 \<and> gomap_ok (so_components obj)
     \<and> int (length (so_components obj)) \<le> MaxComponentsPerObject l
     \<and> (\<forall>k c. map_of (so_components obj) k = Some c \<longrightarrow> cs_TypeID c = k \<and> component_ok l c)"

definition shadow_ok :: "ShadowStore \<Rightarrow> bool" where
  "shadow_ok s \<longleftrightarrow> limits_pos (sh_limits s) \<and> gomap_ok (sh_objects s)
     \<and> int (length (sh_objects s)) \<le> MaxObjects (sh_limits s)
     \<and> (\<forall>ref obj. map_of (sh_objects s) ref = Some obj \<longrightarrow> Valid ref \<and> shadow_object_ok (sh_limits s) obj)"

lemma shadow_ok_update:
  assumes "shadow_ok s" "Valid ref" "shadow_object_ok (sh_limits s) obj"
    and "map_of (sh_objects s) ref = None \<longrightarrow> int (length (sh_objects s)) < MaxObjects (sh_limits s)"
  shows "shadow_ok (s\<lparr>sh_objects := AList.update ref obj (sh_objects s)\<rparr>)"
proof -
  have "int (length (AList.update ref obj (sh_objects s))) \<le> MaxObjects (sh_limits s)"
    using assms(1,4) gomap_length_update [of "sh_objects s" ref obj] by (auto simp: shadow_ok_def dom_def)
  with assms show ?thesis by (simp add: shadow_ok_def)
qed

lemma shadow_ok_delete: "shadow_ok s \<Longrightarrow> shadow_ok (s\<lparr>sh_objects := AList.delete ref (sh_objects s)\<rparr>)"
  using gomap_length_delete [of "sh_objects s" ref] by (auto simp: shadow_ok_def)

lemma shadow_object_ok_set:
  assumes "shadow_object_ok l obj" "component_ok l c"
    and "map_of (so_components obj) (cs_TypeID c) = None \<longrightarrow> int (length (so_components obj)) < MaxComponentsPerObject l"
  shows "shadow_object_ok l (obj\<lparr>so_components := AList.update (cs_TypeID c) c (so_components obj)\<rparr>)"
proof -
  have "int (length (AList.update (cs_TypeID c) c (so_components obj))) \<le> MaxComponentsPerObject l"
    using assms(1,3) gomap_length_update [of "so_components obj" "cs_TypeID c" c]
    by (auto simp: shadow_object_ok_def dom_def)
  with assms show ?thesis by (simp add: shadow_object_ok_def)
qed

lemma shadow_object_ok_remove:
  "shadow_object_ok l obj \<Longrightarrow> shadow_object_ok l (obj\<lparr>so_components := AList.delete t (so_components obj)\<rparr>)"
  using gomap_length_delete [of "so_components obj" t] by (auto simp: shadow_object_ok_def)

text \<open>Every operation keeps the invariant and acts on the view as on a map of maps.\<close>

lemma UpsertObject_Inr:
  assumes "shadow_ok s" "UpsertObject s ref archetype = Inr s'"
  shows "shadow_ok s' \<and> store_view s' = (store_view s)(ref \<mapsto>
    (archetype, case store_view s ref of None \<Rightarrow> Map.empty | Some (_, cs) \<Rightarrow> cs))"
proof (cases "map_of (sh_objects s) ref")
  case None
  have v: "Valid ref" "archetype \<noteq> 0" "int (length (sh_objects s)) < MaxObjects (sh_limits s)"
    and s': "s' = s\<lparr>sh_objects := AList.update ref \<lparr>so_archetype = archetype, so_components = []\<rparr> (sh_objects s)\<rparr>"
    using assms(2) None by (auto simp: UpsertObject_def not_le split: if_splits)
  have "shadow_object_ok (sh_limits s) \<lparr>so_archetype = archetype, so_components = []\<rparr>"
    using v assms(1) by (auto simp: shadow_object_ok_def shadow_ok_def limits_pos_def)
  with v have "shadow_ok s'" unfolding s' by (intro shadow_ok_update [OF assms(1)]) simp_all
  with None show ?thesis by (auto simp: s' store_view_def)
next
  case (Some obj)
  have v: "Valid ref" "archetype \<noteq> 0"
    and s': "s' = s\<lparr>sh_objects := AList.update ref (obj\<lparr>so_archetype := archetype\<rparr>) (sh_objects s)\<rparr>"
    using assms(2) Some by (auto simp: UpsertObject_def split: if_splits)
  have "shadow_object_ok (sh_limits s) (obj\<lparr>so_archetype := archetype\<rparr>)"
    using v assms(1) Some by (auto simp: shadow_object_ok_def shadow_ok_def)
  with v Some have "shadow_ok s'" unfolding s' by (intro shadow_ok_update [OF assms(1)]) simp_all
  with Some show ?thesis by (auto simp: s' store_view_def)
qed

lemma SetComponent_Inr:
  assumes "shadow_ok s" "SetComponent s ref c = Inr s'"
  shows "shadow_ok s' \<and> (\<exists>a cs. store_view s ref = Some (a, cs)
    \<and> store_view s' = (store_view s)(ref \<mapsto> (a, cs(cs_TypeID c \<mapsto> c))))"
proof -
  obtain obj where obj: "map_of (sh_objects s) ref = Some obj" and v: "Valid ref" "component_ok (sh_limits s) c"
    "map_of (so_components obj) (cs_TypeID c) = None \<longrightarrow>
      int (length (so_components obj)) < MaxComponentsPerObject (sh_limits s)"
    and s': "s' = s\<lparr>sh_objects := AList.update ref
       (obj\<lparr>so_components := AList.update (cs_TypeID c) c (so_components obj)\<rparr>) (sh_objects s)\<rparr>"
    using assms(2) by (auto simp: SetComponent_def component_ok_def not_le not_less split: if_splits option.splits)
  have "shadow_object_ok (sh_limits s) obj" using assms(1) obj by (simp add: shadow_ok_def)
  then have "shadow_ok s'"
    unfolding s' using v obj by (intro shadow_ok_update [OF assms(1)] shadow_object_ok_set) simp_all
  with obj show ?thesis by (auto simp: s' store_view_def)
qed

lemma RemoveObject_view:
  assumes "shadow_ok s" "RemoveObject s ref = (s', b)"
  shows "shadow_ok s' \<and> store_view s' = (store_view s)(ref := None) \<and> (b \<longleftrightarrow> store_view s ref \<noteq> None)"
proof (cases "Valid ref")
  case True
  with assms shadow_ok_delete [OF assms(1)] show ?thesis by (auto simp: RemoveObject_def store_view_def)
next
  case False
  then have "map_of (sh_objects s) ref = None" using assms(1) by (cases "map_of (sh_objects s) ref") (auto simp: shadow_ok_def)
  with assms False show ?thesis by (auto simp: RemoveObject_def store_view_def)
qed

lemma RemoveComponent_view:
  assumes "shadow_ok s" "RemoveComponent s ref t = (s', b)"
  shows "shadow_ok s' \<and> store_view s' = (case store_view s ref of None \<Rightarrow> store_view s
    | Some (a, cs) \<Rightarrow> (store_view s)(ref \<mapsto> (a, cs(t := None))))"
proof (cases "map_of (sh_objects s) ref")
  case None
  with assms show ?thesis by (auto simp: RemoveComponent_def store_view_def split: if_splits)
next
  case (Some obj)
  then have ok: "Valid ref" "shadow_object_ok (sh_limits s) obj" using assms(1) by (auto simp: shadow_ok_def)
  show ?thesis
  proof (cases "t = 0")
    case True
    then have "map_of (so_components obj) t = None"
      using ok(2) by (cases "map_of (so_components obj) t") (auto simp: shadow_object_ok_def component_ok_def)
    then have "(map_of (so_components obj))(t := None) = map_of (so_components obj)" by (rule fun_upd_idem)
    with assms True Some show ?thesis by (auto simp: RemoveComponent_def store_view_def fun_eq_iff)
  next
    case False
    have "shadow_ok (s\<lparr>sh_objects := AList.update ref
        (obj\<lparr>so_components := AList.delete t (so_components obj)\<rparr>) (sh_objects s)\<rparr>)"
      using ok Some by (intro shadow_ok_update [OF assms(1)] shadow_object_ok_remove) simp_all
    with assms False Some ok(1) show ?thesis by (auto simp: RemoveComponent_def store_view_def)
  qed
qed

section \<open>Captured snapshots\<close>

lemma index_by_mset:
  assumes "mset ys = mset xs" "distinct (map key xs)"
  shows "index_by key ys = index_by key xs"
proof
  fix k
  have "set ys = set xs" using assms(1) by (rule mset_eq_setD)
  moreover have "distinct (map key ys)" using assms mset_eq_imp_distinct_iff [of "map key ys" "map key xs"] by simp
  ultimately have "index_by key ys k = Some v \<longleftrightarrow> index_by key xs k = Some v" for v
    using assms(2) by (simp add: comp_def image_iff)
  then show "index_by key ys k = index_by key xs k"
    by (cases "index_by key xs k"; cases "index_by key ys k") auto
qed

lemma index_by_map:
  assumes "\<And>x. x \<in> set xs \<Longrightarrow> key (f x) = key' x"
  shows "index_by key (map f xs) k = map_option f (index_by key' xs k)"
  using assms by (induction xs) auto

lemma index_by_govalues:
  assumes "\<And>k v. (k, v) \<in> set m \<Longrightarrow> key v = k"
  shows "index_by key (govalues m) = map_of m"
proof -
  have "map (\<lambda>x. (key x, x)) (govalues m) = m"
    unfolding map_map by (rule map_idI) (use assms in \<open>auto simp: prod_eq_iff\<close>)
  then show ?thesis by simp
qed

lemma capture_refs: "map os_Ref (map capture_object m) = gokeys m"
  by (auto simp: capture_object_def)

lemma strict_sort: "distinct (map key xs) \<Longrightarrow> strict_keys key (sort_key key xs)"
  by (simp add: strict_keys_def distinct_map)

lemma capture_object_components: "os_Components (capture_object (ref, obj)) = govalues (so_components obj)"
  by (simp add: capture_object_def case_prod_beta)

lemma capture_index:
  "index_by os_Ref (map capture_object m) ref = map_option (\<lambda>obj. capture_object (ref, obj)) (map_of m ref)"
  by (induction m) (auto simp: capture_object_def)

lemma shadow_components:
  assumes "shadow_object_ok l obj"
  shows "distinct (map cs_TypeID (govalues (so_components obj)))"
    "index_by cs_TypeID (govalues (so_components obj)) = map_of (so_components obj)"
    "\<forall>c \<in> set (govalues (so_components obj)). component_ok l c"
proof -
  have ok: "gomap_ok (so_components obj)" using assms by (simp add: shadow_object_ok_def)
  have key: "cs_TypeID c = k" "component_ok l c" if "(k, c) \<in> set (so_components obj)" for k c
    using that assms by (auto simp: shadow_object_ok_def gomap_ok_def)
  have keys: "map cs_TypeID (govalues (so_components obj)) = gokeys (so_components obj)"
    unfolding map_map by (rule map_cong [OF refl]) (use key in auto)
  show "distinct (map cs_TypeID (govalues (so_components obj)))"
    unfolding keys using ok by (simp add: gomap_ok_def)
  show "index_by cs_TypeID (govalues (so_components obj)) = map_of (so_components obj)"
    by (rule index_by_govalues) (rule key)
  show "\<forall>c \<in> set (govalues (so_components obj)). component_ok l c" using key by auto
qed

lemma Capture_view:
  assumes "shadow_ok s" "Capture s meta = Inr sn"
  shows "snapshot_view sn = store_view s"
proof
  fix ref
  let ?os = "map capture_object (sh_objects s)"
  have objs: "sn_Objects sn = map canon_object (sort_key os_Ref ?os)"
    using assms(2) unfolding Capture_def NewSnapshot_Inr by blast
  have d: "distinct (map os_Ref ?os)" unfolding capture_refs using assms(1) by (simp add: shadow_ok_def gomap_ok_def)
  have "index_by os_Ref (sn_Objects sn) ref = map_option canon_object (index_by os_Ref (sort_key os_Ref ?os) ref)"
    unfolding objs by (rule index_by_map) simp
  also have "index_by os_Ref (sort_key os_Ref ?os) = index_by os_Ref ?os"
    using d by (intro index_by_mset) simp_all
  finally have idx: "index_by os_Ref (sn_Objects sn) ref
      = map_option (\<lambda>obj. canon_object (capture_object (ref, obj))) (map_of (sh_objects s) ref)"
    by (simp only: capture_index option.map_comp comp_def)
  show "snapshot_view sn ref = store_view s ref"
  proof (cases "map_of (sh_objects s) ref")
    case None
    with idx show ?thesis by (simp add: snapshot_view_def store_view_def)
  next
    case (Some obj)
    then have "shadow_object_ok (sh_limits s) obj" using assms(1) by (auto simp: shadow_ok_def)
    note c = shadow_components [OF this]
    have "index_by cs_TypeID (sort_key cs_TypeID (govalues (so_components obj))) = map_of (so_components obj)"
      using index_by_mset [OF _ c(1), of "sort_key cs_TypeID (govalues (so_components obj))"] c(2) by simp
    moreover have "os_Archetype (capture_object (ref, obj)) = so_archetype obj" by (simp add: capture_object_def)
    ultimately show ?thesis
      using Some idx by (simp add: snapshot_view_def store_view_def canon_object_def capture_object_components)
  qed
qed

lemma Capture_total:
  assumes "shadow_ok s" "meta_validate meta = Inr ()"
    and "size_ok (sh_limits s) 32 (map canon_object (sort_key os_Ref (map capture_object (sh_objects s))))"
  shows "\<exists>sn. Capture s meta = Inr sn"
proof -
  let ?os = "map capture_object (sh_objects s)"
  let ?sn = "\<lparr>sn_Meta = meta, sn_Objects = map canon_object (sort_key os_Ref ?os)\<rparr>"
  have d: "distinct (map os_Ref ?os)" unfolding capture_refs using assms(1) by (simp add: shadow_ok_def gomap_ok_def)
  have ok: "object_ok (sh_limits s) (canon_object (capture_object (ref, obj)))" if "(ref, obj) \<in> set (sh_objects s)" for ref obj
  proof -
    have "map_of (sh_objects s) ref = Some obj" using that assms(1) by (simp add: shadow_ok_def gomap_ok_def)
    then have v: "Valid ref" "shadow_object_ok (sh_limits s) obj" using assms(1) by (auto simp: shadow_ok_def)
    note c = shadow_components [OF v(2)]
    have "strict_keys cs_TypeID (sort_key cs_TypeID (govalues (so_components obj)))"
      by (rule strict_sort [OF c(1)])
    moreover have "os_Ref (capture_object (ref, obj)) = ref" "os_Archetype (capture_object (ref, obj)) = so_archetype obj"
      by (simp_all add: capture_object_def)
    ultimately show ?thesis
      using v c(3) by (simp add: object_ok_def canon_object_def capture_object_components list_all_iff shadow_object_ok_def)
  qed
  have "strict_keys os_Ref (map canon_object (sort_key os_Ref ?os))"
    using strict_sort [OF d] by (simp add: strict_keys_def comp_def)
  with ok assms have "snapshot_ok (sh_limits s) ?sn"
    by (auto simp: snapshot_ok_def list_all_iff shadow_ok_def)
  moreover have "normalizeLimits (sh_limits s) = sh_limits s"
    using assms(1) by (intro normalizeLimits_id) (simp add: shadow_ok_def)
  ultimately have "Capture s meta = Inr ?sn" unfolding Capture_def NewSnapshot_Inr by simp
  then show ?thesis ..
qed

section \<open>Runs of the store against the abstract room\<close>

datatype shadow_op =
    OpUpsertObject ObjectRef u16
  | OpRemoveObject ObjectRef
  | OpSetComponent ObjectRef ComponentState
  | OpRemoveComponent ObjectRef u16
  | OpReset

fun shadow_step :: "ShadowStore \<Rightarrow> shadow_op \<Rightarrow> ShadowStore result" where
  "shadow_step s (OpUpsertObject ref archetype) = UpsertObject s ref archetype"
| "shadow_step s (OpRemoveObject ref) = Inr (fst (RemoveObject s ref))"
| "shadow_step s (OpSetComponent ref c) = SetComponent s ref c"
| "shadow_step s (OpRemoveComponent ref t) = Inr (fst (RemoveComponent s ref t))"
| "shadow_step s OpReset = Inr (shadow_Reset s)"

text \<open>The abstract room: a finite map from references to an archetype and components.\<close>

fun room_step :: "room_view \<Rightarrow> shadow_op \<Rightarrow> room_view" where
  "room_step v (OpUpsertObject ref archetype) =
     v(ref \<mapsto> (archetype, case v ref of None \<Rightarrow> Map.empty | Some (_, cs) \<Rightarrow> cs))"
| "room_step v (OpRemoveObject ref) = v(ref := None)"
| "room_step v (OpSetComponent ref c) =
     (case v ref of None \<Rightarrow> v | Some (a, cs) \<Rightarrow> v(ref \<mapsto> (a, cs(cs_TypeID c \<mapsto> c))))"
| "room_step v (OpRemoveComponent ref t) =
     (case v ref of None \<Rightarrow> v | Some (a, cs) \<Rightarrow> v(ref \<mapsto> (a, cs(t := None))))"
| "room_step v OpReset = Map.empty"

fun shadow_run :: "ShadowStore \<Rightarrow> shadow_op list \<Rightarrow> ShadowStore \<times> shadow_op list" where
  "shadow_run s [] = (s, [])"
| "shadow_run s (op # ops) =
     (case shadow_step s op of
        Inl _ \<Rightarrow> shadow_run s ops
      | Inr s' \<Rightarrow> let (s'', acc) = shadow_run s' ops in (s'', op # acc))"

lemma shadow_step_refines:
  assumes "shadow_ok s" "shadow_step s op = Inr s'"
  shows "shadow_ok s' \<and> store_view s' = room_step (store_view s) op"
proof (cases op)
  case (OpUpsertObject ref archetype)
  with assms UpsertObject_Inr [OF assms(1)] show ?thesis by simp
next
  case (OpRemoveObject ref)
  with assms RemoveObject_view [OF assms(1), of ref] show ?thesis by (cases "RemoveObject s ref") auto
next
  case (OpSetComponent ref c)
  with assms SetComponent_Inr [OF assms(1)] show ?thesis by fastforce
next
  case (OpRemoveComponent ref t)
  with assms RemoveComponent_view [OF assms(1), of ref t] show ?thesis by (cases "RemoveComponent s ref t") auto
next
  case OpReset
  with assms show ?thesis by (auto simp: shadow_Reset_def shadow_ok_def store_view_def limits_pos_def)
qed

lemma shadow_run_refines:
  assumes "shadow_ok s" "shadow_run s ops = (s', acc)"
  shows "shadow_ok s' \<and> store_view s' = foldl room_step (store_view s) acc"
  using assms
proof (induction ops arbitrary: s acc)
  case (Cons op ops)
  show ?case
  proof (cases "shadow_step s op")
    case (Inl e)
    with Cons show ?thesis by simp
  next
    case (Inr s1)
    then obtain rest where rest: "shadow_run s1 ops = (s', rest)" "acc = op # rest"
      using Cons.prems(2) by (auto split: prod.splits)
    note step = shadow_step_refines [OF Cons.prems(1) Inr]
    from Cons.IH [OF _ rest(1)] step rest(2) show ?thesis by simp
  qed
qed simp

lemma NewShadowStore_ok: "shadow_ok (NewShadowStore limits)"
  using normalizeLimits_pos [of limits] by (simp add: shadow_ok_def NewShadowStore_def limits_pos_def)

section \<open>The schema registry\<close>

definition registry_ok :: "SchemaRegistry \<Rightarrow> bool" where
  "registry_ok r \<longleftrightarrow> gomap_ok (reg_byID r) \<and> gomap_ok (reg_byName r)
     \<and> (\<forall>t sc. map_of (reg_byID r) t = Some sc \<longrightarrow> sc_TypeID sc = t \<and> schema_validate sc = Inr ()
          \<and> map_of (reg_byName r) (sc_Name sc) = Some t)
     \<and> (\<forall>n t. map_of (reg_byName r) n = Some t \<longrightarrow> (\<exists>sc. map_of (reg_byID r) t = Some sc \<and> sc_Name sc = n))"

lemma schema_Register_ok:
  assumes "registry_ok r" "schema_Register r sc = Inr r'"
  shows "registry_ok r'"
proof -
  have v: "schema_validate sc = Inr ()" "map_of (reg_byID r) (sc_TypeID sc) = None" "map_of (reg_byName r) (sc_Name sc) = None"
    and r': "r' = \<lparr>reg_byID = AList.update (sc_TypeID sc) sc (reg_byID r),
                 reg_byName = AList.update (sc_Name sc) (sc_TypeID sc) (reg_byName r)\<rparr>"
    using assms(2) by (auto simp: schema_Register_def result_Inr split: if_splits)
  have "sc_Name y \<noteq> sc_Name sc" if "map_of (reg_byID r) t = Some y" for t y
    using assms(1) that v(3) unfolding registry_ok_def by (metis option.distinct(1))
  moreover have "t \<noteq> sc_TypeID sc" if "map_of (reg_byName r) n = Some t" for n t
    using assms(1) that v(2) unfolding registry_ok_def by (metis option.distinct(1))
  ultimately show ?thesis
    using assms(1) v(1) unfolding registry_ok_def r' by simp
qed

fun registry_run :: "SchemaRegistry \<Rightarrow> ComponentSchema list \<Rightarrow> SchemaRegistry" where
  "registry_run r [] = r"
| "registry_run r (sc # scs) = registry_run (case schema_Register r sc of Inl _ \<Rightarrow> r | Inr r' \<Rightarrow> r') scs"

lemma registry_run_ok: "registry_ok r \<Longrightarrow> registry_ok (registry_run r scs)"
  by (induction scs arbitrary: r) (auto split: sum.splits dest: schema_Register_ok)

lemma NewSchemaRegistry_ok: "registry_ok NewSchemaRegistry"
  by (simp add: registry_ok_def NewSchemaRegistry_def)

section \<open>Properties\<close>

text \<open>
  C28. The shadow store refines a map from references to archetype and components: after any
  operations, rejected ones included, it holds what the accepted ones make of the empty room, it
  keeps its limits, and a captured snapshot shows exactly that content.
\<close>

theorem shadow_refines_room:
  assumes "shadow_run (NewShadowStore limits) ops = (s, acc)"
  shows "shadow_ok s \<and> store_view s = foldl room_step Map.empty acc
    \<and> (\<forall>meta sn. Capture s meta = Inr sn \<longrightarrow> snapshot_view sn = foldl room_step Map.empty acc)"
proof -
  have "store_view (NewShadowStore limits) = Map.empty"
    by (simp add: store_view_def NewShadowStore_def fun_eq_iff)
  with shadow_run_refines [OF NewShadowStore_ok assms]
  have s: "shadow_ok s" "store_view s = foldl room_step Map.empty acc" by simp_all
  then show ?thesis using Capture_view [OF s(1)] by simp
qed

definition ex_shadow_ops :: "shadow_op list" where
  "ex_shadow_ops = [OpSetComponent (ObjectRef 1 1) \<lparr>cs_TypeID = 4, cs_SchemaVersion = 1, cs_Data = [1]\<rparr>,
     OpUpsertObject (ObjectRef 1 1) 7,
     OpSetComponent (ObjectRef 1 1) \<lparr>cs_TypeID = 4, cs_SchemaVersion = 1, cs_Data = [2]\<rparr>]"

theorem shadow_refines_room_witness:
  "snd (shadow_run (NewShadowStore DefaultLimits) ex_shadow_ops) = tl ex_shadow_ops
   \<and> store_view (fst (shadow_run (NewShadowStore DefaultLimits) ex_shadow_ops))
     = foldl room_step Map.empty (tl ex_shadow_ops)"
proof
  show d: "snd (shadow_run (NewShadowStore DefaultLimits) ex_shadow_ops) = tl ex_shadow_ops" by code_simp
  show "store_view (fst (shadow_run (NewShadowStore DefaultLimits) ex_shadow_ops))
     = foldl room_step Map.empty (tl ex_shadow_ops)"
    using shadow_refines_room [OF prod.collapse [symmetric], of DefaultLimits ex_shadow_ops] unfolding d by simp
qed

text \<open>
  C29. Only the size can stop a capture: from a store that keeps its invariant, with valid metadata,
  a snapshot is always captured when its estimated encoding fits the frame limit.
\<close>

theorem capture_total:
  assumes "shadow_run (NewShadowStore limits) ops = (s, acc)" "meta_validate meta = Inr ()"
    and "size_ok (sh_limits s) 32 (map canon_object (sort_key os_Ref (map capture_object (sh_objects s))))"
  shows "\<exists>sn. Capture s meta = Inr sn"
  using shadow_run_refines [OF NewShadowStore_ok assms(1)] assms(2,3) by (intro Capture_total) simp_all

theorem capture_total_witness:
  "\<exists>sn. Capture (fst (shadow_run (NewShadowStore DefaultLimits) ex_shadow_ops)) (ex_meta 3) = Inr sn"
  by (rule capture_total [OF prod.collapse [symmetric]]; code_simp)

text \<open>
  Type identifiers and names are in bijection in every registry that was built by registering
  schemas: a lookup by name returns a schema exactly if it is registered under its type and has
  that name, and the listing is sorted by type and complete.
\<close>

theorem registry_bijective:
  "let r = registry_run NewSchemaRegistry scs in
     (\<forall>n sc. schema_LookupName r n = Some sc \<longleftrightarrow> schema_Lookup r (sc_TypeID sc) = Some sc \<and> sc_Name sc = n)
     \<and> schema_Snapshot r = sort_key sc_TypeID (govalues (reg_byID r))
     \<and> (\<forall>sc. sc \<in> set (schema_Snapshot r) \<longleftrightarrow> schema_Lookup r (sc_TypeID sc) = Some sc)"
proof -
  let ?r = "registry_run NewSchemaRegistry scs"
  have ok: "registry_ok ?r" by (rule registry_run_ok [OF NewSchemaRegistry_ok])
  have "schema_LookupName ?r n = Some sc \<longleftrightarrow> schema_Lookup ?r (sc_TypeID sc) = Some sc \<and> sc_Name sc = n" for n sc
  proof
    assume "schema_LookupName ?r n = Some sc"
    then obtain t where t: "map_of (reg_byName ?r) n = Some t" "map_of (reg_byID ?r) t = Some sc"
      by (auto simp: schema_LookupName_def split: option.splits)
    then show "schema_Lookup ?r (sc_TypeID sc) = Some sc \<and> sc_Name sc = n"
      using ok unfolding registry_ok_def schema_Lookup_def by (metis option.sel)
  next
    assume sc: "schema_Lookup ?r (sc_TypeID sc) = Some sc \<and> sc_Name sc = n"
    then have "map_of (reg_byName ?r) n = Some (sc_TypeID sc)"
      using ok unfolding registry_ok_def schema_Lookup_def by metis
    with sc show "schema_LookupName ?r n = Some sc" by (simp add: schema_LookupName_def schema_Lookup_def)
  qed
  moreover have "sc \<in> set (govalues (reg_byID ?r)) \<longleftrightarrow> schema_Lookup ?r (sc_TypeID sc) = Some sc" for sc
    using gomap_values_iff [of "reg_byID ?r" sc] ok unfolding registry_ok_def schema_Lookup_def by metis
  ultimately show ?thesis
    by (simp add: Let_def schema_Snapshot_def sortSchemas_def insertion_sort_spec)
qed

end
