(* ===== verification/Repl_Lod.thy ===== *)
theory Repl_Lod
  imports Repl_Shadow
begin

text \<open>
  Projections of a snapshot for one session (\<open>src/replication/transport.go\<close>, \<open>Projector\<close>;
  \<open>src/replication/lod.go\<close>): the level-of-detail projector drops objects and components and holds
  back values of components that are limited in their rate.

  The upstream projector and the selector are interfaces of the application. They are arguments of
  the model: functions that may fail with an error of their own. The atomic counters of the
  projector are natural numbers.
\<close>

section \<open>Projectors\<close>

record ProjectionContext =
  pc_Session :: SessionInfo
  pc_QualityTier :: u8
  pc_Previous :: "Snapshot option"
  pc_Current :: "Snapshot option"
  pc_FullRefresh :: bool

datatype Projector =
    PlainProjector "SessionInfo \<Rightarrow> Snapshot \<Rightarrow> Snapshot result"
  | ContextProjector "ProjectionContext \<Rightarrow> Snapshot \<Rightarrow> Snapshot result"

definition ProjectorFunc_nil :: Projector where
  "ProjectorFunc_nil = PlainProjector (\<lambda>_ snapshot. Inr (Snapshot_Clone snapshot))"

fun project_with :: "Projector \<Rightarrow> ProjectionContext \<Rightarrow> Snapshot \<Rightarrow> Snapshot result" where
  "project_with (ContextProjector f) ctx snapshot = f ctx snapshot"
| "project_with (PlainProjector f) ctx snapshot = f (pc_Session ctx) snapshot"

section \<open>Levels of detail\<close>

abbreviation (input) LODFull :: u8 where "LODFull \<equiv> 0"
abbreviation (input) LODCulled :: u8 where "LODCulled \<equiv> 255"
abbreviation (input) maxLODLevel :: u8 where "maxLODLevel \<equiv> 7"
abbreviation (input) LODAtAll :: u8 where "LODAtAll \<equiv> 0"

definition Includes :: "u8 \<Rightarrow> u8 \<Rightarrow> bool" where
  "Includes m level \<longleftrightarrow> level \<le> maxLODLevel \<and> (m = LODAtAll \<or> m AND push_bit (unat level) 1 \<noteq> 0)"

fun lod_mask_loop :: "u8 \<Rightarrow> u8 list \<Rightarrow> u8 result" where
  "lod_mask_loop m [] = Inr m"
| "lod_mask_loop m (level # levels) =
     (if level > maxLODLevel then Inl ErrInvalidLOD
      else lod_mask_loop (m OR push_bit (unat level) 1) levels)"

definition NewLODMask :: "u8 list \<Rightarrow> u8 result" where
  "NewLODMask levels = lod_mask_loop 0 levels"

record ComponentLODPolicy =
  lp_Levels :: u8

record LODDecision =
  ld_Level :: u8
  ld_MinPriority :: u8
  ld_MaxRateHz :: u8

definition decision_validate :: "LODDecision \<Rightarrow> unit result" where
  "decision_validate d =
     (if ld_Level d \<noteq> LODCulled \<and> ld_Level d > maxLODLevel then Inl ErrInvalidLOD
      else if ld_MinPriority d \<noteq> 0 \<and> (ld_MinPriority d < PriorityCosmetic \<or> ld_MinPriority d > PriorityCritical)
      then Inl ErrInvalidLOD
      else Inr ())"

type_synonym LODSelector = "ProjectionContext \<Rightarrow> ObjectState \<Rightarrow> LODDecision result"

definition LODSelectorFunc_nil :: LODSelector where
  "LODSelectorFunc_nil _ _ = Inr \<lparr>ld_Level = LODFull, ld_MinPriority = 0, ld_MaxRateHz = 0\<rparr>"

record LODProjectorConfig =
  lc_Registry :: "SchemaRegistry option"
  lc_Selector :: "LODSelector option"
  lc_Upstream :: "Projector option"
  lc_ComponentPolicies :: "(u16, ComponentLODPolicy) gomap"
  lc_SnapshotRateHz :: u8
  lc_AlwaysFreshAtOrAbove :: u8

record lodCounters =
  lk_decisions :: nat
  lk_objectsCulled :: nat
  lk_componentsOmitted :: nat
  lk_componentsHeld :: nat
  lk_levels :: "nat list"

record LODProjector =
  lo_registry :: SchemaRegistry
  lo_selector :: LODSelector
  lo_upstream :: Projector
  lo_policies :: "(u16, ComponentLODPolicy) gomap"
  lo_snapshotRateHz :: u8
  lo_alwaysFreshAtOrAbove :: u8
  lo_stats :: lodCounters

definition zeroCounters :: lodCounters where
  "zeroCounters = \<lparr>lk_decisions = 0, lk_objectsCulled = 0, lk_componentsOmitted = 0, lk_componentsHeld = 0,
     lk_levels = replicate 8 0\<rparr>"

fun copy_policies :: "SchemaRegistry \<Rightarrow> (u16, ComponentLODPolicy) gomap \<Rightarrow> (u16, ComponentLODPolicy) gomap
    \<Rightarrow> (u16, ComponentLODPolicy) gomap result" where
  "copy_policies reg policies [] = Inr policies"
| "copy_policies reg policies ((typeID, policy) # rest) =
     (if typeID = 0 then Inl ErrInvalidLOD
      else if schema_Lookup reg typeID = None then Inl ErrInvalidLOD
      else copy_policies reg (AList.update typeID policy policies) rest)"

definition NewLODProjector :: "LODProjectorConfig \<Rightarrow> LODProjector result" where
  "NewLODProjector config =
     (case lc_Registry config of
        None \<Rightarrow> Inl ErrInvalidLOD
      | Some registry \<Rightarrow>
          let selector = (case lc_Selector config of None \<Rightarrow> LODSelectorFunc_nil | Some f \<Rightarrow> f);
              upstream = (case lc_Upstream config of None \<Rightarrow> ProjectorFunc_nil | Some p \<Rightarrow> p);
              rate = (if lc_SnapshotRateHz config = 0 then DefaultSnapshotRateHz else lc_SnapshotRateHz config);
              fresh = (if lc_AlwaysFreshAtOrAbove config = 0 then PriorityCritical else lc_AlwaysFreshAtOrAbove config) in
          if fresh < PriorityCosmetic \<or> fresh > PriorityCritical then Inl ErrInvalidLOD
          else try_bind (copy_policies registry [] (lc_ComponentPolicies config)) (\<lambda>policies.
            Inr \<lparr>lo_registry = registry, lo_selector = selector, lo_upstream = upstream, lo_policies = policies,
              lo_snapshotRateHz = rate, lo_alwaysFreshAtOrAbove = fresh, lo_stats = zeroCounters\<rparr>))"

definition refreshDue :: "LODProjector \<Rightarrow> u32 \<Rightarrow> ReplicationPolicy \<Rightarrow> LODDecision \<Rightarrow> bool" where
  "refreshDue p tick policy decision =
     (let rate0 = pol_MaxRateHz policy;
          rate = (if pol_Priority policy < lo_alwaysFreshAtOrAbove p \<and> ld_MaxRateHz decision \<noteq> 0
                    \<and> (rate0 = 0 \<or> ld_MaxRateHz decision < rate0)
                  then ld_MaxRateHz decision else rate0) in
      if rate = 0 \<or> rate \<ge> lo_snapshotRateHz p then True
      else
        let interval = (ucast (lo_snapshotRateHz p) + ucast rate - 1) div (ucast rate :: u32)
        in tick mod interval = 0)"

definition indexLODObjects :: "Snapshot option \<Rightarrow> Snapshot \<Rightarrow> (ObjectRef, ObjectState) gomap" where
  "indexLODObjects previous current =
     (case previous of
        None \<Rightarrow> []
      | Some prev \<Rightarrow>
          if meta_RoomID (sn_Meta prev) \<noteq> meta_RoomID (sn_Meta current)
            \<or> meta_Epoch (sn_Meta prev) \<noteq> meta_Epoch (sn_Meta current)
            \<or> meta_SchemaVersion (sn_Meta prev) \<noteq> meta_SchemaVersion (sn_Meta current)
          then []
          else gomap_by os_Ref (sn_Objects prev))"

definition findLODComponent :: "ComponentState list \<Rightarrow> u16 \<Rightarrow> ComponentState option" where
  "findLODComponent components typeID = find (\<lambda>c. cs_TypeID c = typeID) components"

text \<open>The inner loop of \<open>ProjectWithContext\<close> over the components of one object. A policy that is not
  configured is the zero policy.\<close>

definition lod_policy :: "LODProjector \<Rightarrow> u16 \<Rightarrow> u8" where
  "lod_policy p typeID = (case map_of (lo_policies p) typeID of None \<Rightarrow> 0 | Some pol \<Rightarrow> lp_Levels pol)"

definition lod_omits :: "LODProjector \<Rightarrow> LODDecision \<Rightarrow> ComponentState \<Rightarrow> bool" where
  "lod_omits p d c \<longleftrightarrow> (case schema_Lookup (lo_registry p) (cs_TypeID c) of None \<Rightarrow> False
     | Some schema \<Rightarrow> \<not> Includes (lod_policy p (cs_TypeID c)) (ld_Level d)
         \<or> ld_MinPriority d \<noteq> 0 \<and> pol_Priority (sc_Policy schema) < ld_MinPriority d)"

definition lod_held :: "LODProjector \<Rightarrow> bool \<Rightarrow> u32 \<Rightarrow> LODDecision \<Rightarrow> ObjectState option \<Rightarrow> ObjectState
    \<Rightarrow> ComponentState \<Rightarrow> ComponentState option" where
  "lod_held p fullRefresh tick d previousObject obj c =
     (case schema_Lookup (lo_registry p) (cs_TypeID c) of
        None \<Rightarrow> None
      | Some schema \<Rightarrow>
          (case previousObject of
             None \<Rightarrow> None
           | Some prev \<Rightarrow>
               if \<not> fullRefresh \<and> os_Archetype prev = os_Archetype obj \<and> \<not> refreshDue p tick (sc_Policy schema) d then
                 (case findLODComponent (os_Components prev) (cs_TypeID c) of
                    Some old \<Rightarrow> if cs_SchemaVersion old = cs_SchemaVersion c then Some old else None
                  | None \<Rightarrow> None)
               else None))"

fun lod_components :: "LODProjector \<Rightarrow> bool \<Rightarrow> u32 \<Rightarrow> LODDecision \<Rightarrow> ObjectState option \<Rightarrow> ObjectState
    \<Rightarrow> lodCounters \<Rightarrow> ComponentState list \<Rightarrow> lodCounters \<times> ComponentState list" where
  "lod_components p fr tick d prev obj st [] = (st, [])"
| "lod_components p fr tick d prev obj st (c # cs) =
     (if lod_omits p d c
      then lod_components p fr tick d prev obj (st\<lparr>lk_componentsOmitted := lk_componentsOmitted st + 1\<rparr>) cs
      else
        let held = lod_held p fr tick d prev obj c;
            st1 = (if held = None then st else st\<lparr>lk_componentsHeld := lk_componentsHeld st + 1\<rparr>);
            (st2, rest) = lod_components p fr tick d prev obj st1 cs
        in (st2, (case held of None \<Rightarrow> c | Some old \<Rightarrow> old) # rest))"

fun lod_objects :: "LODProjector \<Rightarrow> ProjectionContext \<Rightarrow> u32 \<Rightarrow> (ObjectRef, ObjectState) gomap \<Rightarrow> lodCounters
    \<Rightarrow> ObjectState list \<Rightarrow> lodCounters \<times> ObjectState list result" where
  "lod_objects p ctx tick previous st [] = (st, Inr [])"
| "lod_objects p ctx tick previous st (obj # objs) =
     (case lo_selector p ctx obj of
        Inl e \<Rightarrow> (st, Inl e)
      | Inr d \<Rightarrow>
          (case decision_validate d of
             Inl e \<Rightarrow> (st, Inl e)
           | Inr _ \<Rightarrow>
               let st1 = st\<lparr>lk_decisions := lk_decisions st + 1\<rparr> in
               if ld_Level d = LODCulled then
                 lod_objects p ctx tick previous (st1\<lparr>lk_objectsCulled := lk_objectsCulled st1 + 1\<rparr>) objs
               else
                 let level = unat (ld_Level d);
                     st2 = st1\<lparr>lk_levels := (lk_levels st1)[level := lk_levels st1 ! level + 1]\<rparr>;
                     (st3, cs) = lod_components p (pc_FullRefresh ctx) tick d (map_of previous (os_Ref obj)) obj st2
                       (os_Components obj);
                     (st4, rest) = lod_objects p ctx tick previous st3 objs
                 in (st4, try_bind rest (\<lambda>out.
                      Inr (\<lparr>os_Ref = os_Ref obj, os_Archetype = os_Archetype obj, os_Components = cs\<rparr> # out)))))"

definition ProjectWithContext :: "LODProjector \<Rightarrow> ProjectionContext \<Rightarrow> Snapshot \<Rightarrow> LODProjector \<times> Snapshot result" where
  "ProjectWithContext p ctx snapshot =
     (case project_with (lo_upstream p) ctx snapshot of
        Inl e \<Rightarrow> (p, Inl e)
      | Inr projected \<Rightarrow>
          let (st, out) = lod_objects p (ctx\<lparr>pc_Current := Some projected\<rparr>) (sn_Tick projected)
                (indexLODObjects (pc_Previous ctx) projected) (lo_stats p) (sn_Objects projected)
          in (p\<lparr>lo_stats := st\<rparr>, try_bind out (\<lambda>objects. Inr \<lparr>sn_Meta = sn_Meta projected, sn_Objects = objects\<rparr>)))"

definition lod_Project :: "LODProjector \<Rightarrow> SessionInfo \<Rightarrow> Snapshot \<Rightarrow> LODProjector \<times> Snapshot result" where
  "lod_Project p session snapshot = ProjectWithContext p \<lparr>pc_Session = session, pc_QualityTier = 0,
     pc_Previous = None, pc_Current = None, pc_FullRefresh = False\<rparr> snapshot"

definition lod_Stats :: "LODProjector \<Rightarrow> lodCounters" where
  "lod_Stats p = lo_stats p"

section \<open>Masks\<close>

lemma lod_mask_bits:
  assumes "lod_mask_loop m levels = Inr m'"
  shows "(\<forall>l \<in> set levels. l \<le> maxLODLevel)
    \<and> (\<forall>n. bit m' n \<longleftrightarrow> bit m n \<or> (\<exists>l \<in> set levels. unat l = n))"
  using assms
proof (induction levels arbitrary: m)
  case (Cons l levels)
  then have l: "l \<le> maxLODLevel" and rest: "lod_mask_loop (m OR push_bit (unat l) 1) levels = Inr m'"
    by (auto simp: not_less split: if_splits)
  have "unat l < 8" using l by (simp add: word_le_nat_alt)
  then have "bit (push_bit (unat l) (1 :: u8)) n \<longleftrightarrow> unat l = n" for n
    by (auto simp: bit_exp_iff)
  with Cons.IH [OF rest] l show ?case by (auto simp: bit_or_iff)
qed simp

lemma lod_mask_Inl: "(\<exists>e. lod_mask_loop m levels = Inl e) \<longleftrightarrow> (\<exists>l \<in> set levels. l > maxLODLevel)"
  by (induction levels arbitrary: m) auto

section \<open>Rates\<close>

definition effective_rate :: "LODProjector \<Rightarrow> ReplicationPolicy \<Rightarrow> LODDecision \<Rightarrow> u8" where
  "effective_rate p policy d =
     (if pol_Priority policy < lo_alwaysFreshAtOrAbove p \<and> ld_MaxRateHz d \<noteq> 0
        \<and> (pol_MaxRateHz policy = 0 \<or> ld_MaxRateHz d < pol_MaxRateHz policy)
      then ld_MaxRateHz d else pol_MaxRateHz policy)"

lemma u8_bound: "unat (x :: u8) < 256"
  using unsigned_less [of x, where 'a = nat] by simp

lemma refresh_interval:
  fixes rate sr :: u8
  assumes "rate \<noteq> 0"
  shows "unat ((ucast sr + ucast rate - 1) div (ucast rate :: u32)) = (unat sr + unat rate - 1) div unat rate"
proof -
  have u: "unat (ucast sr :: u32) = unat sr" "unat (ucast rate :: u32) = unat rate"
    using u8_bound [of sr] u8_bound [of rate] by (simp_all add: unsigned_ucast_eq take_bit_nat_eq_self)
  have pos: "0 < unat rate" using assms by (simp add: unat_gt_0)
  have sum: "unat (ucast sr + ucast rate :: u32) = unat sr + unat rate"
    using u8_bound [of sr] u8_bound [of rate] u by (simp add: unat_word_ariths)
  have "unat (ucast sr + ucast rate - 1 :: u32) = unat sr + unat rate - 1"
    using pos sum by (subst unat_sub) (auto simp: word_le_nat_alt)
  with u show ?thesis by (simp add: unat_div_distrib)
qed


section \<open>The projection as a map over the visible objects\<close>

definition lod_pick :: "LODProjector \<Rightarrow> bool \<Rightarrow> u32 \<Rightarrow> LODDecision \<Rightarrow> ObjectState option \<Rightarrow> ObjectState
    \<Rightarrow> ComponentState \<Rightarrow> ComponentState" where
  "lod_pick p fr tick d prev obj c = (case lod_held p fr tick d prev obj c of None \<Rightarrow> c | Some old \<Rightarrow> old)"

lemma lod_components_spec:
  "snd (lod_components p fr tick d prev obj st cs)
    = map (lod_pick p fr tick d prev obj) (filter (\<lambda>c. \<not> lod_omits p d c) cs)"
  by (induction cs arbitrary: st) (auto simp: Let_def lod_pick_def case_prod_beta)

definition lod_view :: "LODProjector \<Rightarrow> ProjectionContext \<Rightarrow> u32 \<Rightarrow> (ObjectRef, ObjectState) gomap \<Rightarrow> ObjectState
    \<Rightarrow> ObjectState option" where
  "lod_view p ctx tick previous obj = (case lo_selector p ctx obj of
       Inl _ \<Rightarrow> None
     | Inr d \<Rightarrow> if ld_Level d = LODCulled then None
         else Some \<lparr>os_Ref = os_Ref obj, os_Archetype = os_Archetype obj,
           os_Components = map (lod_pick p (pc_FullRefresh ctx) tick d (map_of previous (os_Ref obj)) obj)
             (filter (\<lambda>c. \<not> lod_omits p d c) (os_Components obj))\<rparr>)"

definition lod_decides :: "LODProjector \<Rightarrow> ProjectionContext \<Rightarrow> ObjectState \<Rightarrow> bool" where
  "lod_decides p ctx obj \<longleftrightarrow> (\<exists>d. lo_selector p ctx obj = Inr d \<and> decision_validate d = Inr ())"

lemma lod_objects_spec:
  "snd (lod_objects p ctx tick previous st objs) = Inr out \<longleftrightarrow>
     list_all (lod_decides p ctx) objs \<and> out = List.map_filter (lod_view p ctx tick previous) objs"
proof (induction objs arbitrary: st out)
  case Nil
  show ?case by (auto simp: List.map_filter_def)
next
  case (Cons obj objs)
  show ?case
  proof (cases "lo_selector p ctx obj")
    case (Inl e)
    then show ?thesis by (simp add: lod_decides_def)
  next
    case (Inr d)
    show ?thesis
    proof (cases "decision_validate d")
      case (Inl e)
      with Inr show ?thesis by (simp add: lod_decides_def)
    next
      case ok: (Inr u)
      have dec: "lod_decides p ctx obj" using Inr ok by (simp add: lod_decides_def)
      show ?thesis
      proof (cases "ld_Level d = LODCulled")
        case True
        with Inr ok dec Cons.IH show ?thesis
          by (simp add: Let_def List.map_filter_simps lod_view_def)
      next
        case False
        with Inr ok dec show ?thesis
          using lod_components_spec [of p "pc_FullRefresh ctx" tick d "map_of previous (os_Ref obj)" obj _ "os_Components obj"]
          by (auto simp: Let_def List.map_filter_simps lod_view_def case_prod_beta try_bind_Inr_iff Cons.IH)
      qed
    qed
  qed
qed

section \<open>Counters\<close>

definition counters_ok :: "lodCounters \<Rightarrow> bool" where
  "counters_ok st \<longleftrightarrow> length (lk_levels st) = 8 \<and> lk_decisions st = lk_objectsCulled st + sum_list (lk_levels st)"

lemma lod_components_counters:
  "lk_decisions (fst (lod_components p fr tick d prev obj st cs)) = lk_decisions st"
  "lk_objectsCulled (fst (lod_components p fr tick d prev obj st cs)) = lk_objectsCulled st"
  "lk_levels (fst (lod_components p fr tick d prev obj st cs)) = lk_levels st"
  by (induction cs arbitrary: st) (auto simp: Let_def case_prod_beta)

lemma counters_ok_components:
  "counters_ok st \<Longrightarrow> counters_ok (fst (lod_components p fr tick d prev obj st cs))"
  by (simp add: counters_ok_def lod_components_counters)

lemma counters_ok_level:
  assumes "counters_ok st" "n < 8"
  shows "counters_ok (st\<lparr>lk_decisions := lk_decisions st + 1, lk_levels := (lk_levels st)[n := lk_levels st ! n + 1]\<rparr>)"
  using assms elem_le_sum_list [of n "lk_levels st"] by (simp add: counters_ok_def sum_list_update)

lemma lod_objects_counters:
  assumes "counters_ok st"
  shows "counters_ok (fst (lod_objects p ctx tick previous st objs))"
  using assms
proof (induction objs arbitrary: st)
  case (Cons obj objs)
  show ?case
  proof (cases "lo_selector p ctx obj")
    case (Inl e)
    with Cons.prems show ?thesis by simp
  next
    case (Inr d)
    show ?thesis
    proof (cases "decision_validate d")
      case (Inl e)
      with Inr Cons.prems show ?thesis by simp
    next
      case ok: (Inr u)
      show ?thesis
      proof (cases "ld_Level d = LODCulled")
        case True
        have "counters_ok (st\<lparr>lk_decisions := Suc (lk_decisions st), lk_objectsCulled := Suc (lk_objectsCulled st)\<rparr>)"
          using Cons.prems by (simp add: counters_ok_def)
        from Cons.IH [OF this] True Inr ok show ?thesis by (simp add: Let_def)
      next
        case False
        then have "unat (ld_Level d) < 8"
          using ok by (auto simp: decision_validate_def word_less_nat_alt split: if_splits)
        from Cons.IH [OF counters_ok_components [OF counters_ok_level [OF Cons.prems this]]] False Inr ok
        show ?thesis by (simp add: Let_def case_prod_beta)
      qed
    qed
  qed
qed simp


lemma indexLODObjects_SomeD:
  assumes "map_of (indexLODObjects previous cur) ref = Some po"
  shows "\<exists>prev. previous = Some prev \<and> po \<in> set (sn_Objects prev) \<and> os_Ref po = ref"
proof -
  obtain prev where prev: "previous = Some prev" and po: "map_of (gomap_by os_Ref (sn_Objects prev)) ref = Some po"
    using assms by (auto simp: indexLODObjects_def split: option.splits if_splits)
  have "map_of (rev (map (\<lambda>x. (os_Ref x, x)) (sn_Objects prev))) ref = Some po"
    using po by (simp add: gomap_by_def gomap_by_fold_get split: option.splits)
  then have "(ref, po) \<in> set (rev (map (\<lambda>x. (os_Ref x, x)) (sn_Objects prev)))" by (rule map_of_SomeD)
  with prev show ?thesis by auto
qed

lemma ProjectWithContext_Inr:
  assumes "ProjectWithContext p ctx snapshot = (p', Inr out)" "project_with (lo_upstream p) ctx snapshot = Inr cur"
  shows "sn_Meta out = sn_Meta cur \<and> sn_Objects out = List.map_filter
    (lod_view p (ctx\<lparr>pc_Current := Some cur\<rparr>) (sn_Tick cur) (indexLODObjects (pc_Previous ctx) cur)) (sn_Objects cur)"
proof -
  have "\<exists>objects. snd (lod_objects p (ctx\<lparr>pc_Current := Some cur\<rparr>) (sn_Tick cur)
      (indexLODObjects (pc_Previous ctx) cur) (lo_stats p) (sn_Objects cur)) = Inr objects
      \<and> out = \<lparr>sn_Meta = sn_Meta cur, sn_Objects = objects\<rparr>"
    using assms by (auto simp: ProjectWithContext_def case_prod_beta try_bind_Inr_iff)
  then show ?thesis unfolding lod_objects_spec by auto
qed

section \<open>What a decision shows\<close>

lemma refreshDue_iff:
  "refreshDue p tick policy d \<longleftrightarrow> effective_rate p policy d = 0 \<or> lo_snapshotRateHz p \<le> effective_rate p policy d
     \<or> (unat (lo_snapshotRateHz p) + unat (effective_rate p policy d) - 1) div unat (effective_rate p policy d) dvd unat tick"
proof -
  let ?rate = "effective_rate p policy d"
  let ?i = "(ucast (lo_snapshotRateHz p) + ucast ?rate - 1) div (ucast ?rate :: u32)"
  have "tick mod ?i = 0 \<longleftrightarrow> unat ?i dvd unat tick"
    unfolding word_unat_eq_iff unat_mod_distrib dvd_eq_mod_eq_0 by simp
  then have "?rate \<noteq> 0 \<Longrightarrow> tick mod ?i = 0 \<longleftrightarrow> (unat (lo_snapshotRateHz p) + unat ?rate - 1) div unat ?rate dvd unat tick"
    using refresh_interval [of ?rate "lo_snapshotRateHz p"] by simp
  then show ?thesis unfolding refreshDue_def effective_rate_def [symmetric] Let_def by auto
qed

text \<open>What a decision shows of an object. A component that is not registered is always shown.\<close>

definition lod_visible :: "LODProjector \<Rightarrow> LODDecision \<Rightarrow> ComponentState \<Rightarrow> bool" where
  "lod_visible p d c \<longleftrightarrow> (\<forall>schema. schema_Lookup (lo_registry p) (cs_TypeID c) = Some schema \<longrightarrow>
     (\<forall>policy. map_of (lo_policies p) (cs_TypeID c) = Some policy \<longrightarrow> lp_Levels policy = 0 \<or> bit (lp_Levels policy) (unat (ld_Level d)))
     \<and> (ld_MinPriority d = 0 \<or> ld_MinPriority d \<le> pol_Priority (sc_Policy schema)))"

lemma lod_omits_iff:
  assumes "decision_validate d = Inr ()" "ld_Level d \<noteq> LODCulled"
  shows "lod_omits p d c \<longleftrightarrow> \<not> lod_visible p d c"
proof -
  have "ld_Level d \<le> maxLODLevel" using assms by (auto simp: decision_validate_def not_less split: if_splits)
  then have "Includes m (ld_Level d) \<longleftrightarrow> m = 0 \<or> bit m (unat (ld_Level d))" for m :: u8
    by (simp add: Includes_def bit_iff_and_push_bit_not_eq_0)
  then show ?thesis by (auto simp: lod_omits_def lod_visible_def lod_policy_def not_less split: option.splits)
qed

text \<open>The client holds a snapshot of the same room, epoch and schema, in which the object is of the same archetype.\<close>

definition same_room :: "Snapshot \<Rightarrow> Snapshot \<Rightarrow> bool" where
  "same_room prev cur \<longleftrightarrow> meta_RoomID (sn_Meta prev) = meta_RoomID (sn_Meta cur) \<and> meta_Epoch (sn_Meta prev) = meta_Epoch (sn_Meta cur)
     \<and> meta_SchemaVersion (sn_Meta prev) = meta_SchemaVersion (sn_Meta cur)"

definition lod_keeps :: "LODProjector \<Rightarrow> ProjectionContext \<Rightarrow> Snapshot \<Rightarrow> LODDecision \<Rightarrow> ObjectState \<Rightarrow> ComponentState \<Rightarrow> ComponentState \<Rightarrow> bool" where
  "lod_keeps p ctx cur d obj c old \<longleftrightarrow> \<not> pc_FullRefresh ctx \<and> cs_TypeID old = cs_TypeID c \<and> cs_SchemaVersion old = cs_SchemaVersion c
     \<and> (\<exists>prev po. pc_Previous ctx = Some prev \<and> same_room prev cur \<and> po \<in> set (sn_Objects prev) \<and> os_Ref po = os_Ref obj
          \<and> os_Archetype po = os_Archetype obj \<and> old \<in> set (os_Components po))
     \<and> (\<exists>schema rate. schema_Lookup (lo_registry p) (cs_TypeID c) = Some schema \<and> rate = effective_rate p (sc_Policy schema) d
          \<and> 0 < rate \<and> rate < lo_snapshotRateHz p
          \<and> \<not> (unat (lo_snapshotRateHz p) + unat rate - 1) div unat rate dvd unat (sn_Tick cur))"

lemma lod_held_keeps:
  assumes "lod_held p (pc_FullRefresh ctx) (sn_Tick cur) d (map_of (indexLODObjects (pc_Previous ctx) cur) (os_Ref obj)) obj c = Some old"
  shows "lod_keeps p ctx cur d obj c old"
proof -
  obtain schema po where h: "schema_Lookup (lo_registry p) (cs_TypeID c) = Some schema"
    "map_of (indexLODObjects (pc_Previous ctx) cur) (os_Ref obj) = Some po" "\<not> pc_FullRefresh ctx" "os_Archetype po = os_Archetype obj"
    "\<not> refreshDue p (sn_Tick cur) (sc_Policy schema) d" "old \<in> set (os_Components po)" "cs_TypeID old = cs_TypeID c"
    "cs_SchemaVersion old = cs_SchemaVersion c"
    using assms by (auto simp: lod_held_def findLODComponent_def find_Some_iff split: option.splits if_splits)
  obtain prev where prev: "pc_Previous ctx = Some prev" "po \<in> set (sn_Objects prev)" "os_Ref po = os_Ref obj"
    using indexLODObjects_SomeD [OF h(2)] by blast
  have "same_room prev cur" using h(2) prev(1) by (auto simp: indexLODObjects_def same_room_def split: if_splits)
  with h prev show ?thesis
    unfolding lod_keeps_def refreshDue_iff by (auto simp: word_gt_0 not_le intro!: exI [of _ prev] exI [of _ po])
qed

lemma ProjectWithContext_decides:
  assumes "ProjectWithContext p ctx snapshot = (p', Inr out)" "project_with (lo_upstream p) ctx snapshot = Inr cur"
  shows "list_all (lod_decides p (ctx\<lparr>pc_Current := Some cur\<rparr>)) (sn_Objects cur)"
proof -
  have "\<exists>objects. snd (lod_objects p (ctx\<lparr>pc_Current := Some cur\<rparr>) (sn_Tick cur)
      (indexLODObjects (pc_Previous ctx) cur) (lo_stats p) (sn_Objects cur)) = Inr objects"
    using assms by (auto simp: ProjectWithContext_def case_prod_beta try_bind_Inr_iff)
  then show ?thesis unfolding lod_objects_spec by blast
qed

lemma map_filter_conv: "List.map_filter f xs = map (the \<circ> f) (filter (\<lambda>x. f x \<noteq> None) xs)"
  by (simp add: List.map_filter_def)

section \<open>When a value may change\<close>

fun lod_run :: "LODProjector \<Rightarrow> (ProjectionContext \<times> Snapshot) list \<Rightarrow> LODProjector" where
  "lod_run p [] = p"
| "lod_run p ((ctx, snapshot) # rest) = lod_run (fst (ProjectWithContext p ctx snapshot)) rest"










section \<open>Properties\<close>

text \<open>
  A mask built from a non-empty list of levels includes exactly these levels; a level beyond 7
  is refused. (The empty list gives the zero mask, which stands for every level.)
\<close>

theorem lod_mask_levels:
  assumes "NewLODMask levels = Inr m" "levels \<noteq> []"
  shows "Includes m l \<longleftrightarrow> l \<in> set levels"
proof -
  note b = lod_mask_bits [OF assms(1) [unfolded NewLODMask_def]]
  have "m \<noteq> 0" using b assms(2) by (metis bit_0_eq bot_apply hd_in_set bot_bool_def)
  moreover have "m AND push_bit (unat l) 1 \<noteq> 0 \<longleftrightarrow> bit m (unat l)"
    by (rule bit_iff_and_push_bit_not_eq_0 [symmetric])
  ultimately have "Includes m l \<longleftrightarrow> l \<le> maxLODLevel \<and> (\<exists>l' \<in> set levels. unat l' = unat l)"
    using b unfolding Includes_def by (metis bit_0_eq bot_apply bot_bool_def)
  then show ?thesis using b unfolding word_unat_eq_iff [symmetric] by blast
qed


text \<open>
  C30. What a client sees of a room. The objects of a projection are those the selector does not cull, in
  order, with their reference and archetype. Of each it shows, in order, exactly the components that are
  not registered, and the registered ones whose policy has no mask or a mask with the bit of the level of
  the decision, and whose priority is at least the minimum of the decision. The value it shows is the
  current one, or one the client held before in the same object and room, of the same archetype and schema
  version, and that only outside a full refresh, for a component limited to a rate below the snapshot
  rate, at a tick that is no multiple of the interval of that rate.
\<close>

theorem lod_projection_exact:
  assumes "ProjectWithContext p ctx snapshot = (p', Inr out)" "project_with (lo_upstream p) ctx snapshot = Inr cur"
  defines "select \<equiv> lo_selector p (ctx\<lparr>pc_Current := Some cur\<rparr>)"
  shows "sn_Meta out = sn_Meta cur \<and> list_all2 (\<lambda>obj ob. \<exists>d. select obj = Inr d \<and> os_Ref ob = os_Ref obj \<and> os_Archetype ob = os_Archetype obj
       \<and> list_all2 (\<lambda>c shown. shown = c \<or> lod_keeps p ctx cur d obj c shown) (filter (lod_visible p d) (os_Components obj)) (os_Components ob))
     (filter (\<lambda>obj. \<forall>d. select obj = Inr d \<longrightarrow> ld_Level d \<noteq> LODCulled) (sn_Objects cur)) (sn_Objects out)"
proof -
  let ?view = "lod_view p (ctx\<lparr>pc_Current := Some cur\<rparr>) (sn_Tick cur) (indexLODObjects (pc_Previous ctx) cur)"
  have out: "sn_Meta out = sn_Meta cur" "sn_Objects out = map (the \<circ> ?view) (filter (\<lambda>obj. ?view obj \<noteq> None) (sn_Objects cur))"
    using ProjectWithContext_Inr [OF assms(1,2)] by (simp_all add: map_filter_conv)
  have dec: "lod_decides p (ctx\<lparr>pc_Current := Some cur\<rparr>) obj" if "obj \<in> set (sn_Objects cur)" for obj
    using ProjectWithContext_decides [OF assms(1,2)] that by (simp add: list_all_iff)
  have same: "filter (\<lambda>obj. ?view obj \<noteq> None) (sn_Objects cur) = filter (\<lambda>obj. \<forall>d. select obj = Inr d \<longrightarrow> ld_Level d \<noteq> LODCulled) (sn_Objects cur)"
  proof (rule filter_cong [OF refl])
    fix obj
    assume "obj \<in> set (sn_Objects cur)"
    from dec [OF this] obtain d where "select obj = Inr d" by (auto simp: lod_decides_def select_def)
    then show "(?view obj \<noteq> None) = (\<forall>d. select obj = Inr d \<longrightarrow> ld_Level d \<noteq> LODCulled)" by (simp add: lod_view_def select_def)
  qed
  have each: "\<exists>d. select obj = Inr d \<and> os_Ref (the (?view obj)) = os_Ref obj \<and> os_Archetype (the (?view obj)) = os_Archetype obj
       \<and> list_all2 (\<lambda>c shown. shown = c \<or> lod_keeps p ctx cur d obj c shown) (filter (lod_visible p d) (os_Components obj)) (os_Components (the (?view obj)))"
    if obj: "obj \<in> set (sn_Objects cur)" "?view obj \<noteq> None" for obj
  proof -
    obtain d where d: "select obj = Inr d" "decision_validate d = Inr ()" "ld_Level d \<noteq> LODCulled"
      using dec [OF obj(1)] obj(2) by (auto simp: lod_decides_def select_def lod_view_def split: if_splits)
    let ?pick = "lod_pick p (pc_FullRefresh ctx) (sn_Tick cur) d (map_of (indexLODObjects (pc_Previous ctx) cur) (os_Ref obj)) obj"
    have v: "?view obj = Some \<lparr>os_Ref = os_Ref obj, os_Archetype = os_Archetype obj, os_Components = map ?pick (filter (lod_visible p d) (os_Components obj))\<rparr>"
      using d by (simp add: lod_view_def select_def lod_omits_iff)
    have "?pick c = c \<or> lod_keeps p ctx cur d obj c (?pick c)" for c
      using lod_held_keeps [of p ctx cur d obj c] by (simp add: lod_pick_def split: option.splits)
    then show ?thesis unfolding v option.sel ObjectState.simps list_all2_map2 using d(1) by (intro exI [of _ d]) (simp add: list_all2_same)
  qed
  show ?thesis unfolding out(2) same [symmetric] list_all2_map2 list_all2_same comp_apply
    by (intro conjI ballI each) (simp_all add: out(1))
qed

definition ex_schema :: ComponentSchema where
  "ex_schema = \<lparr>sc_TypeID = 4, sc_Name = ''pos'', sc_Version = 1, sc_MaxEncodedSize = 64,
     sc_Policy = \<lparr>pol_Lane = 1, pol_Reliability = 1, pol_Priority = 3, pol_MaxRateHz = 5, pol_Visibility = 1, pol_Codec = 1\<rparr>\<rparr>"

definition ex_lod_config :: LODProjectorConfig where
  "ex_lod_config = \<lparr>lc_Registry = Some (registry_run NewSchemaRegistry [ex_schema]), lc_Selector = None,
     lc_Upstream = None, lc_ComponentPolicies = [], lc_SnapshotRateHz = 0, lc_AlwaysFreshAtOrAbove = 0\<rparr>"

definition ex_lod :: LODProjector where
  "ex_lod = projr (NewLODProjector ex_lod_config)"

lemma ex_lod: "NewLODProjector ex_lod_config = Inr ex_lod"
proof -
  have "\<not> isl (NewLODProjector ex_lod_config)" by code_simp
  then show ?thesis by (simp add: ex_lod_def)
qed

definition ex_tick :: "u32 \<Rightarrow> u8 \<Rightarrow> Snapshot" where
  "ex_tick t b = \<lparr>sn_Meta = (sn_Meta ex_base)\<lparr>meta_Tick := t\<rparr>, sn_Objects = [(hd (sn_Objects ex_base))\<lparr>os_Components :=
     [\<lparr>cs_TypeID = 4, cs_SchemaVersion = 1, cs_Data = [b]\<rparr>]\<rparr>]\<rparr>"

definition ex_after :: "Snapshot \<Rightarrow> ProjectionContext" where
  "ex_after prev = \<lparr>pc_Session = \<lparr>si_ID = 4, si_OwnerID = 1, si_TeamID = 1, si_Roles = 0\<rparr>, pc_QualityTier = 0,
     pc_Previous = Some prev, pc_Current = None, pc_FullRefresh = False\<rparr>"



text \<open>An object at level 3: its component of type 4 is for level 0 only, the one of type 9 is not registered.\<close>

definition ex_far :: LODProjector where
  "ex_far = ex_lod\<lparr>lo_policies := [(4, \<lparr>lp_Levels = 1\<rparr>)], lo_selector := (\<lambda>_ _. Inr \<lparr>ld_Level = 3, ld_MinPriority = 0, ld_MaxRateHz = 0\<rparr>)\<rparr>"

definition ex_two :: Snapshot where
  "ex_two = \<lparr>sn_Meta = sn_Meta ex_base, sn_Objects = [(hd (sn_Objects ex_base))\<lparr>os_Components :=
     [\<lparr>cs_TypeID = 4, cs_SchemaVersion = 1, cs_Data = [10]\<rparr>, \<lparr>cs_TypeID = 9, cs_SchemaVersion = 1, cs_Data = [7]\<rparr>]\<rparr>]\<rparr>"

definition ex_seen :: Snapshot where
  "ex_seen = projr (snd (ProjectWithContext ex_far (ex_after (ex_tick 3 10)) ex_two))"

theorem lod_projection_exact_witness:
  "list_all2 (\<lambda>obj ob. os_Ref ob = os_Ref obj \<and> map cs_TypeID (os_Components ob) = [9]) (sn_Objects ex_two) (sn_Objects ex_seen)"
proof -
  let ?d = "\<lparr>ld_Level = 3, ld_MinPriority = 0, ld_MaxRateHz = 0\<rparr>"
  have "\<not> isl (snd (ProjectWithContext ex_far (ex_after (ex_tick 3 10)) ex_two))" by code_simp
  then have out: "ProjectWithContext ex_far (ex_after (ex_tick 3 10)) ex_two = (fst (ProjectWithContext ex_far (ex_after (ex_tick 3 10)) ex_two), Inr ex_seen)"
    by (simp add: ex_seen_def prod_eq_iff)
  have cur: "project_with (lo_upstream ex_far) (ex_after (ex_tick 3 10)) ex_two = Inr ex_two" by code_simp
  have reg: "schema_Lookup (lo_registry ex_far) 4 = Some ex_schema" "schema_Lookup (lo_registry ex_far) 9 = None" by code_simp+
  have "bit (1 :: u8) (unat (3 :: u8)) = False" by simp
  then have vis: "filter (lod_visible ex_far ?d) (os_Components (hd (sn_Objects ex_two))) = [\<lparr>cs_TypeID = 9, cs_SchemaVersion = 1, cs_Data = [7]\<rparr>]"
    using reg by (simp add: ex_two_def lod_visible_def) (simp add: ex_far_def)
  have sel: "lo_selector ex_far ctx obj = Inr ?d" for ctx obj by (simp add: ex_far_def)
  show ?thesis
    using lod_projection_exact [OF out cur] vis unfolding sel
    by (auto simp: ex_two_def lod_keeps_def list_all2_Cons1 elim!: list_all2_mono)
qed

text \<open>
  The counters of a projector add up after any number of projections, failing ones included:
  every decision is counted once, as a culled object or at one of the eight levels.
\<close>

theorem lod_counters_add_up:
  assumes "NewLODProjector config = Inr p"
  shows "counters_ok (lo_stats (lod_run p calls))"
proof -
  have "counters_ok (lo_stats p)"
    using assms by (auto simp: NewLODProjector_def Let_def zeroCounters_def counters_ok_def result_Inr
        sum_list_replicate split: option.splits if_splits)
  moreover have "counters_ok (lo_stats p) \<Longrightarrow> counters_ok (lo_stats (lod_run p calls))" for p
  proof (induction calls arbitrary: p)
    case (Cons call calls)
    obtain ctx snapshot where call: "call = (ctx, snapshot)" by (cases call)
    have "counters_ok (lo_stats (fst (ProjectWithContext p ctx snapshot)))"
      using Cons.prems lod_objects_counters by (auto simp: ProjectWithContext_def case_prod_beta split: sum.splits)
    from Cons.IH [OF this] show ?case by (simp add: call)
  qed simp
  ultimately show ?thesis by blast
qed

end
