(* ===== verification/Repl_Replicator.thy ===== *)
theory Repl_Replicator
  imports Repl_Datagram Repl_Session Repl_Lod
begin

text \<open>
  The replicator (\<open>src/replication/replicator.go\<close>, \<open>transport.go\<close>, and \<open>HandleControl\<close> of
  \<open>control.go\<close>): it publishes snapshots into the ring, keeps the sessions, prepares, sends and commits
  frames.

  Sessions live in a store of \<open>SessionState\<close> values addressed by their index, because a prepared frame
  keeps a pointer to its session while the session may be removed and registered anew. The
  transport is code of the application: a record of functions on a state \<open>'w\<close> of its own, which
  the operations that call it thread through. Each method is one step; what may happen between
  \<open>PrepareLatest\<close> and \<open>Commit\<close> of a frame is therefore any sequence of other methods. The context
  argument, the wait group of running calls and nil receivers are not modelled. The
  counters are \<open>uint64\<close> and wrap.
\<close>

section \<open>Transports\<close>

record 'w Transport =
  tr_id :: nat
  tr_comparable :: bool
  tr_SendDatagram :: "SessionID \<Rightarrow> bytes \<Rightarrow> 'w \<Rightarrow> 'w \<times> repl_error option"
  tr_SendReliable :: "SessionID \<Rightarrow> bytes \<Rightarrow> 'w \<Rightarrow> 'w \<times> repl_error option"
  tr_SendDatagramBatch :: "(SessionID \<Rightarrow> bytes list \<Rightarrow> 'w \<Rightarrow> 'w \<times> repl_error option) option"
  tr_SessionTransport :: "((SessionInfo \<Rightarrow> 'w \<Rightarrow> 'w \<times> repl_error option) \<times> (SessionID \<Rightarrow> 'w \<Rightarrow> 'w)) option"

text \<open>\<open>TransportFunc\<close>: a transport made of two functions, either of which may be nil.\<close>

record 'w TransportFunc =
  tf_Datagram :: "(SessionID \<Rightarrow> bytes \<Rightarrow> 'w \<Rightarrow> 'w \<times> repl_error option) option"
  tf_Reliable :: "(SessionID \<Rightarrow> bytes \<Rightarrow> 'w \<Rightarrow> 'w \<times> repl_error option) option"

definition TransportFunc_SendDatagram :: "'w TransportFunc \<Rightarrow> SessionID \<Rightarrow> bytes \<Rightarrow> 'w \<Rightarrow> 'w \<times> repl_error option" where
  "TransportFunc_SendDatagram f session payload w =
     (case tf_Datagram f of None \<Rightarrow> (w, Some ErrTransportMissing) | Some send \<Rightarrow> send session payload w)"

definition TransportFunc_SendReliable :: "'w TransportFunc \<Rightarrow> SessionID \<Rightarrow> bytes \<Rightarrow> 'w \<Rightarrow> 'w \<times> repl_error option" where
  "TransportFunc_SendReliable f session payload w =
     (case tf_Reliable f of None \<Rightarrow> (w, Some ErrTransportMissing) | Some send \<Rightarrow> send session payload w)"

text \<open>Equal identities stand for equal dynamic type and value.\<close>

definition sameTransport :: "'w Transport option \<Rightarrow> 'w Transport option \<Rightarrow> bool" where
  "sameTransport left right =
     (case (left, right) of
        (None, None) \<Rightarrow> True
      | (Some l, Some r) \<Rightarrow> tr_comparable l \<and> tr_id l = tr_id r
      | _ \<Rightarrow> False)"

section \<open>State\<close>

record 'w ReplicatorConfig =
  rc_Limits :: Limits
  rc_RingSize :: int
  rc_MaxDatagram :: int
  rc_Projector :: "Projector option"
  rc_Transport :: "'w Transport option"

record replicatorCounters =
  k_published :: u64
  k_fullFrames :: u64
  k_deltaFrames :: u64
  k_datagrams :: u64
  k_encodedBytes :: u64
  k_sentBytes :: u64
  k_sendErrors :: u64
  k_invalidAcks :: u64
  k_forcedFull :: u64
  k_qualitySet :: u64
  k_invalidControls :: u64
  k_resyncRequests :: u64
  k_registered :: u64
  k_unregistered :: u64

record 'w Replicator =
  rp_limits :: Limits
  rp_maxDatagram :: int
  rp_ring :: SnapshotRing
  rp_projector :: Projector
  rp_transport :: "'w Transport option"
  rp_sessions :: "(SessionID, nat) gomap"
  rp_store :: "SessionState list"
  rp_closed :: bool
  rp_stats :: replicatorCounters

record PreparedFrame =
  pf_Frame :: DeltaFrame
  pf_Datagrams :: "bytes list"
  pf_state :: nat
  pf_snapshot :: Snapshot
  pf_sequence :: u32
  pf_generation :: u64
  pf_full :: bool
  pf_done :: bool
  pf_commitErr :: "repl_error option"

definition noCounters :: replicatorCounters where
  "noCounters = \<lparr>k_published = 0, k_fullFrames = 0, k_deltaFrames = 0, k_datagrams = 0, k_encodedBytes = 0,
     k_sentBytes = 0, k_sendErrors = 0, k_invalidAcks = 0, k_forcedFull = 0, k_qualitySet = 0,
     k_invalidControls = 0, k_resyncRequests = 0, k_registered = 0, k_unregistered = 0\<rparr>"

definition NewReplicator :: "'w ReplicatorConfig \<Rightarrow> 'w Replicator" where
  "NewReplicator config =
     \<lparr>rp_limits = normalizeLimits (rc_Limits config),
      rp_maxDatagram = (if rc_MaxDatagram config \<le> 0 then DefaultMaxDatagram else rc_MaxDatagram config),
      rp_ring = NewSnapshotRing (if rc_RingSize config \<le> 0 then 64 else rc_RingSize config),
      rp_projector = (case rc_Projector config of None \<Rightarrow> ProjectorFunc_nil | Some p \<Rightarrow> p),
      rp_transport = rc_Transport config, rp_sessions = [], rp_store = [], rp_closed = False, rp_stats = noCounters\<rparr>"

definition repl_session :: "'w Replicator \<Rightarrow> SessionID \<Rightarrow> nat result" where
  "repl_session r sid =
     (if sid = 0 then Inl ErrSessionNotFound
      else if rp_closed r then Inl ErrReplicatorClosed
      else case map_of (rp_sessions r) sid of None \<Rightarrow> Inl ErrSessionNotFound | Some addr \<Rightarrow> Inr addr)"

definition put_state :: "'w Replicator \<Rightarrow> nat \<Rightarrow> SessionState \<Rightarrow> 'w Replicator" where
  "put_state r addr s = r\<lparr>rp_store := (rp_store r)[addr := s]\<rparr>"

definition tally :: "(replicatorCounters \<Rightarrow> replicatorCounters) \<Rightarrow> 'w Replicator \<Rightarrow> 'w Replicator" where
  "tally f r = r\<lparr>rp_stats := f (rp_stats r)\<rparr>"

section \<open>Snapshots and sessions\<close>

definition Publish :: "'w Replicator \<Rightarrow> Snapshot \<Rightarrow> 'w Replicator \<times> unit result" where
  "Publish r snapshot =
     (if rp_closed r then (r, Inl ErrReplicatorClosed)
      else case NewSnapshot (sn_Meta snapshot) (sn_Objects snapshot) (rp_limits r) of
        Inl e \<Rightarrow> (r, Inl e)
      | Inr normalized \<Rightarrow>
          (case ring_Add (rp_ring r) normalized of
             Inl e \<Rightarrow> (r, Inl e)
           | Inr ring \<Rightarrow>
               (tally (\<lambda>k. k\<lparr>k_published := k_published k + 1\<rparr>) (r\<lparr>rp_ring := ring\<rparr>), Inr ())))"

definition RegisterSession :: "'w Replicator \<Rightarrow> SessionInfo \<Rightarrow> 'w \<Rightarrow> 'w Replicator \<times> 'w \<times> unit result" where
  "RegisterSession r info w =
     (if si_ID info = 0 then (r, w, Inl ErrSessionNotFound)
      else case NewSessionState info of
        Inl e \<Rightarrow> (r, w, Inl e)
      | Inr state \<Rightarrow>
          if rp_closed r then (r, w, Inl ErrReplicatorClosed)
          else if map_of (rp_sessions r) (si_ID info) \<noteq> None then (r, w, Inl ErrAlreadyRegistered)
          else
            let (w1, err) = (case Option.bind (rp_transport r) tr_SessionTransport of
                    None \<Rightarrow> (w, None) | Some (register, _) \<Rightarrow> register info w) in
            case err of
              Some e \<Rightarrow> (r, w1, Inl e)
            | None \<Rightarrow>
                (tally (\<lambda>k. k\<lparr>k_registered := k_registered k + 1\<rparr>)
                   (r\<lparr>rp_sessions := AList.update (si_ID info) (length (rp_store r)) (rp_sessions r),
                      rp_store := rp_store r @ [state]\<rparr>), w1, Inr ()))"

definition remove_from_transport :: "'w Transport option \<Rightarrow> SessionID \<Rightarrow> 'w \<Rightarrow> 'w" where
  "remove_from_transport transport sid w =
     (case Option.bind transport tr_SessionTransport of None \<Rightarrow> w | Some (_, remove) \<Rightarrow> remove sid w)"

definition RemoveSession :: "'w Replicator \<Rightarrow> SessionID \<Rightarrow> 'w \<Rightarrow> 'w Replicator \<times> 'w \<times> bool" where
  "RemoveSession r sid w =
     (if sid = 0 then (r, w, False)
      else case map_of (rp_sessions r) sid of
        None \<Rightarrow> (r\<lparr>rp_sessions := AList.delete sid (rp_sessions r)\<rparr>, w, False)
      | Some addr \<Rightarrow>
          (tally (\<lambda>k. k\<lparr>k_unregistered := k_unregistered k + 1\<rparr>)
             (put_state (r\<lparr>rp_sessions := AList.delete sid (rp_sessions r)\<rparr>) addr (session_Close (rp_store r ! addr))),
           remove_from_transport (rp_transport r) sid w, True))"

definition repl_Acknowledge :: "'w Replicator \<Rightarrow> SessionID \<Rightarrow> u32 \<Rightarrow> 'w Replicator \<times> unit result" where
  "repl_Acknowledge r sid tick =
     (if rp_closed r then (r, Inl ErrReplicatorClosed)
      else case repl_session r sid of
        Inl e \<Rightarrow> (r, Inl e)
      | Inr addr \<Rightarrow>
          (case session_Acknowledge (rp_store r ! addr) tick (ring_LatestTick (rp_ring r)) of
             (s, Inl e) \<Rightarrow> (tally (\<lambda>k. k\<lparr>k_invalidAcks := k_invalidAcks k + 1\<rparr>) (put_state r addr s), Inl e)
           | (s, Inr _) \<Rightarrow> (put_state r addr s, Inr ())))"

definition repl_ForceFull :: "'w Replicator \<Rightarrow> SessionID \<Rightarrow> 'w Replicator \<times> unit result" where
  "repl_ForceFull r sid =
     (if rp_closed r then (r, Inl ErrReplicatorClosed)
      else case repl_session r sid of
        Inl e \<Rightarrow> (r, Inl e)
      | Inr addr \<Rightarrow>
          (tally (\<lambda>k. k\<lparr>k_forcedFull := k_forcedFull k + 1\<rparr>)
             (put_state r addr (session_ForceFull (rp_store r ! addr))), Inr ()))"

definition repl_SetQualityTier :: "'w Replicator \<Rightarrow> SessionID \<Rightarrow> u8 \<Rightarrow> 'w Replicator \<times> unit result" where
  "repl_SetQualityTier r sid tier =
     (if rp_closed r then (r, Inl ErrReplicatorClosed)
      else case repl_session r sid of
        Inl e \<Rightarrow> (r, Inl e)
      | Inr addr \<Rightarrow>
          (case session_SetQualityTier (rp_store r ! addr) tier of
             (s, Inl e) \<Rightarrow> (put_state r addr s, Inl e)
           | (s, Inr _) \<Rightarrow> (tally (\<lambda>k. k\<lparr>k_qualitySet := k_qualitySet k + 1\<rparr>) (put_state r addr s), Inr ())))"

definition HandleControl :: "'w Replicator \<Rightarrow> SessionID \<Rightarrow> bytes \<Rightarrow> 'w Replicator \<times> unit result" where
  "HandleControl r sid raw =
     (if rp_closed r then (r, Inl ErrReplicatorClosed)
      else
        let bad = tally (\<lambda>k. k\<lparr>k_invalidControls := k_invalidControls k + 1\<rparr>) in
        case DecodeControl raw of
          Inl e \<Rightarrow> (bad r, Inl e)
        | Inr m \<Rightarrow>
            (case repl_session r sid of
               Inl e \<Rightarrow> (r, Inl e)
             | Inr addr \<Rightarrow>
                 (case ring_Latest (rp_ring r) of
                    None \<Rightarrow> (r, Inl ErrSnapshotNotFound)
                  | Some latest \<Rightarrow>
                      if cm_RoomID m \<noteq> meta_RoomID (sn_Meta latest) \<or> cm_Epoch m \<noteq> meta_Epoch (sn_Meta latest)
                      then (bad r, Inl ErrInvalidControl)
                      else
                        (case handleControl (rp_store r ! addr) m (sn_Tick latest) of
                           (s, Inl e) \<Rightarrow>
                             (let r1 = bad (put_state r addr s) in
                              (if cm_Type m = ControlAck
                               then tally (\<lambda>k. k\<lparr>k_invalidAcks := k_invalidAcks k + 1\<rparr>) r1 else r1, Inl e))
                         | (s, Inr _) \<Rightarrow>
                             (if cm_Type m = ControlResync
                              then tally (\<lambda>k. k\<lparr>k_forcedFull := k_forcedFull k + 1,
                                     k_resyncRequests := k_resyncRequests k + 1\<rparr>) (put_state r addr s)
                              else put_state r addr s, Inr ())))))"

section \<open>Frames\<close>

definition projectAndNormalize :: "'w Replicator \<Rightarrow> ProjectionContext \<Rightarrow> Snapshot \<Rightarrow> Snapshot result" where
  "projectAndNormalize r ctx snapshot =
     try_bind (project_with (rp_projector r) ctx (Snapshot_Clone snapshot)) (\<lambda>projected.
       if meta_RoomID (sn_Meta projected) \<noteq> meta_RoomID (sn_Meta snapshot)
         \<or> meta_Epoch (sn_Meta projected) \<noteq> meta_Epoch (sn_Meta snapshot)
         \<or> sn_Tick projected \<noteq> sn_Tick snapshot
         \<or> meta_SchemaVersion (sn_Meta projected) \<noteq> meta_SchemaVersion (sn_Meta snapshot)
       then Inl ErrInvalidFrame
       else NewSnapshot (sn_Meta projected) (sn_Objects projected) (rp_limits r))"

text \<open>The part of \<open>prepareLatest\<close> after the session has handed out a baseline and a sequence.\<close>

definition encode_prepared ::
  "'w Replicator \<Rightarrow> Prepared \<Rightarrow> Snapshot \<Rightarrow> (Snapshot \<times> DeltaFrame \<times> bytes \<times> bytes list) result" where
  "encode_prepared r pr current =
     try_bind (projectAndNormalize r \<lparr>pc_Session = pr_info pr, pc_QualityTier = pr_qualityTier pr,
         pc_Previous = pr_previous pr, pc_Current = None, pc_FullRefresh = pr_full pr\<rparr> current) (\<lambda>projected.
     try_bind (BuildDelta (pr_base pr) projected) (\<lambda>frame.
     try_bind (EncodeFrame frame (rp_limits r)) (\<lambda>encoded.
     try_bind (FragmentFrame frame (pr_sequence pr) encoded (rp_maxDatagram r) (rp_limits r)) (\<lambda>packets.
       Inr (projected, frame, encoded, packets)))))"

definition prepareLatest :: "'w Replicator \<Rightarrow> nat \<Rightarrow> 'w Replicator \<times> PreparedFrame result" where
  "prepareLatest r addr =
     (case ring_Latest (rp_ring r) of
        None \<Rightarrow> (r, Inl ErrSnapshotNotFound)
      | Some current \<Rightarrow>
          (case session_prepare (rp_store r ! addr) (sn_Tick current) of
             (s, Inl e) \<Rightarrow> (put_state r addr s, Inl e)
           | (s, Inr pr) \<Rightarrow>
               (case encode_prepared r pr current of
                  Inl e \<Rightarrow> (put_state r addr s, Inl e)
                | Inr (projected, frame, encoded, packets) \<Rightarrow>
                    (tally (\<lambda>k. k\<lparr>k_encodedBytes := k_encodedBytes k + of_nat (length encoded),
                               k_datagrams := k_datagrams k + of_nat (length packets)\<rparr>) (put_state r addr s),
                     Inr \<lparr>pf_Frame = frame, pf_Datagrams = packets, pf_state = addr, pf_snapshot = projected,
                       pf_sequence = pr_sequence pr, pf_generation = pr_generation pr,
                       pf_full = (fr_Kind frame = FrameFull), pf_done = False, pf_commitErr = None\<rparr>))))"

definition PrepareLatest :: "'w Replicator \<Rightarrow> SessionID \<Rightarrow> 'w Replicator \<times> PreparedFrame result" where
  "PrepareLatest r sid =
     (if rp_closed r then (r, Inl ErrReplicatorClosed)
      else case repl_session r sid of Inl e \<Rightarrow> (r, Inl e) | Inr addr \<Rightarrow> prepareLatest r addr)"

definition Commit :: "'w Replicator \<Rightarrow> PreparedFrame \<Rightarrow> 'w Replicator \<times> PreparedFrame \<times> unit result" where
  "Commit r pf =
     (let answer = (\<lambda>pf. case pf_commitErr pf of Some e \<Rightarrow> Inl e | None \<Rightarrow> Inr ()) in
      if pf_done pf then (r, pf, answer pf)
      else case commitPrepared (rp_store r ! pf_state pf) (pf_snapshot pf) (pf_sequence pf) (pf_generation pf) (pf_full pf) of
        (s, Inl e) \<Rightarrow> (put_state r (pf_state pf) s, pf\<lparr>pf_done := True, pf_commitErr := Some e\<rparr>, Inl e)
      | (s, Inr _) \<Rightarrow>
          (tally (if fr_Kind (pf_Frame pf) = FrameFull then (\<lambda>k. k\<lparr>k_fullFrames := k_fullFrames k + 1\<rparr>)
                  else (\<lambda>k. k\<lparr>k_deltaFrames := k_deltaFrames k + 1\<rparr>)) (put_state r (pf_state pf) s),
           pf\<lparr>pf_done := True\<rparr>, Inr ()))"

definition Abort :: "PreparedFrame \<Rightarrow> PreparedFrame" where
  "Abort pf = (if pf_done pf then pf else pf\<lparr>pf_done := True, pf_commitErr := Some ErrPreparedFrameStale\<rparr>)"

definition BuildLatest :: "'w Replicator \<Rightarrow> SessionID \<Rightarrow> 'w Replicator \<times> (DeltaFrame \<times> bytes list) result" where
  "BuildLatest r sid =
     (case PrepareLatest r sid of
        (r1, Inl e) \<Rightarrow> (r1, Inl e)
      | (r1, Inr pf) \<Rightarrow> (r1, Inr (pf_Frame pf, pf_Datagrams pf)))"

text \<open>Sending the packets one by one: the number of bytes sent, and the first error.\<close>

fun send_packets :: "('w Transport) \<Rightarrow> SessionID \<Rightarrow> bytes list \<Rightarrow> 'w \<Rightarrow> 'w \<times> nat \<times> repl_error option" where
  "send_packets t sid [] w = (w, 0, None)"
| "send_packets t sid (packet # packets) w =
     (case tr_SendDatagram t sid packet w of
        (w1, Some e) \<Rightarrow> (w1, 0, Some e)
      | (w1, None) \<Rightarrow>
          let (w2, n, err) = send_packets t sid packets w1 in (w2, length packet + n, err))"

definition SendLatest :: "'w Replicator \<Rightarrow> SessionID \<Rightarrow> 'w \<Rightarrow> 'w Replicator \<times> 'w \<times> (DeltaFrame option \<times> unit result)" where
  "SendLatest r sid w =
     (if rp_closed r then (r, w, None, Inl ErrReplicatorClosed)
      else case repl_session r sid of
        Inl e \<Rightarrow> (r, w, None, Inl e)
      | Inr addr \<Rightarrow>
          (case rp_transport r of
             None \<Rightarrow> (r, w, None, Inl ErrTransportMissing)
           | Some t \<Rightarrow>
               (case prepareLatest r addr of
                  (r1, Inl e) \<Rightarrow> (r1, w, None, Inl e)
                | (r1, Inr pf) \<Rightarrow>
                    let (w1, n, err) =
                      (case tr_SendDatagramBatch t of
                         Some batch \<Rightarrow> (case batch sid (pf_Datagrams pf) w of
                             (w1, Some e) \<Rightarrow> (w1, 0, Some e)
                           | (w1, None) \<Rightarrow> (w1, sum_list (map length (pf_Datagrams pf)), None))
                       | None \<Rightarrow> send_packets t sid (pf_Datagrams pf) w);
                      r2 = tally (\<lambda>k. k\<lparr>k_sentBytes := k_sentBytes k + of_nat n\<rparr>) r1;
                      failed = tally (\<lambda>k. k\<lparr>k_sendErrors := k_sendErrors k + 1\<rparr>) in
                    case err of
                      Some e \<Rightarrow> (failed r2, w1, Some (pf_Frame pf), Inl e)
                    | None \<Rightarrow>
                        (case Commit r2 pf of
                           (r3, _, Inl e) \<Rightarrow> (failed r3, w1, Some (pf_Frame pf), Inl e)
                         | (r3, _, Inr _) \<Rightarrow> (r3, w1, Some (pf_Frame pf), Inr ())))))"

definition repl_SendReliable :: "'w Replicator \<Rightarrow> SessionID \<Rightarrow> bytes \<Rightarrow> 'w \<Rightarrow> 'w Replicator \<times> 'w \<times> unit result" where
  "repl_SendReliable r sid payload w =
     (if rp_closed r then (r, w, Inl ErrReplicatorClosed)
      else case repl_session r sid of
        Inl e \<Rightarrow> (r, w, Inl e)
      | Inr _ \<Rightarrow>
          (case rp_transport r of
             None \<Rightarrow> (r, w, Inl ErrTransportMissing)
           | Some t \<Rightarrow>
               (case tr_SendReliable t sid payload w of
                  (w1, Some e) \<Rightarrow> (tally (\<lambda>k. k\<lparr>k_sendErrors := k_sendErrors k + 1\<rparr>) r, w1, Inl e)
                | (w1, None) \<Rightarrow> (tally (\<lambda>k. k\<lparr>k_sentBytes := k_sentBytes k + of_nat (length payload)\<rparr>) r, w1, Inr ()))))"

section \<open>Transports, projectors, shutdown\<close>

fun register_all :: "(SessionInfo \<Rightarrow> 'w \<Rightarrow> 'w \<times> repl_error option) \<Rightarrow> (SessionID \<Rightarrow> 'w \<Rightarrow> 'w) \<Rightarrow> SessionID list
    \<Rightarrow> SessionInfo list \<Rightarrow> 'w \<Rightarrow> 'w \<times> repl_error option" where
  "register_all register remove registered [] w = (w, None)"
| "register_all register remove registered (info # infos) w =
     (case register info w of
        (w1, Some e) \<Rightarrow> (fold remove registered w1, Some e)
      | (w1, None) \<Rightarrow> register_all register remove (registered @ [si_ID info]) infos w1)"

definition SetTransport :: "'w Replicator \<Rightarrow> 'w Transport option \<Rightarrow> 'w \<Rightarrow> 'w Replicator \<times> 'w \<times> unit result" where
  "SetTransport r transport w =
     (if rp_closed r then (r, w, Inl ErrReplicatorClosed)
      else
        let old = rp_transport r;
            addrs = govalues (rp_sessions r);
            infos = map (\<lambda>addr. session_Info (rp_store r ! addr)) addrs in
        if sameTransport old transport then (r, w, Inr ())
        else
          let (w1, err) = (case Option.bind transport tr_SessionTransport of
                None \<Rightarrow> (w, None) | Some (register, remove) \<Rightarrow> register_all register remove [] infos w) in
          case err of
            Some e \<Rightarrow> (r, w1, Inl e)
          | None \<Rightarrow>
              (r\<lparr>rp_transport := transport,
                 rp_store := fold (\<lambda>addr st. st[addr := session_ForceFull (st ! addr)]) addrs (rp_store r)\<rparr>,
               fold (\<lambda>info. remove_from_transport old (si_ID info)) infos w1, Inr ()))"

definition SetProjector :: "'w Replicator \<Rightarrow> Projector option \<Rightarrow> 'w Replicator \<times> unit result" where
  "SetProjector r projector =
     (if rp_closed r then (r, Inl ErrReplicatorClosed)
      else if length (rp_sessions r) \<noteq> 0 \<or> ring_Len (rp_ring r) \<noteq> 0 then (r, Inl ErrSchemaFrozen)
      else (r\<lparr>rp_projector := (case projector of None \<Rightarrow> ProjectorFunc_nil | Some p \<Rightarrow> p)\<rparr>, Inr ()))"

definition repl_Session :: "'w Replicator \<Rightarrow> SessionID \<Rightarrow> SessionSnapshot option" where
  "repl_Session r sid =
     (case repl_session r sid of Inl _ \<Rightarrow> None | Inr addr \<Rightarrow> Some (session_Snapshot (rp_store r ! addr)))"

definition SessionIDs :: "'w Replicator \<Rightarrow> SessionID list" where
  "SessionIDs r = insertion_sort (\<lambda>sid. sid) (gokeys (rp_sessions r))"

record ReplicatorStats =
  rs_Counters :: replicatorCounters
  rs_ActiveSessions :: nat
  rs_SnapshotsRetained :: nat

definition repl_Stats :: "'w Replicator \<Rightarrow> ReplicatorStats" where
  "repl_Stats r = \<lparr>rs_Counters = rp_stats r, rs_ActiveSessions = length (rp_sessions r),
     rs_SnapshotsRetained = ring_Len (rp_ring r)\<rparr>"

definition repl_Close :: "'w Replicator \<Rightarrow> 'w \<Rightarrow> 'w Replicator \<times> 'w" where
  "repl_Close r w =
     (if rp_closed r then (r, w)
      else
        (r\<lparr>rp_closed := True, rp_sessions := [], rp_transport := None,
           rp_store := fold (\<lambda>addr st. st[addr := session_Close (st ! addr)]) (govalues (rp_sessions r)) (rp_store r),
           rp_ring := ring_Reset (rp_ring r)\<rparr>,
         fold (remove_from_transport (rp_transport r)) (gokeys (rp_sessions r)) w))"

section \<open>The invariant\<close>

definition session_good :: "Limits \<Rightarrow> SessionState \<Rightarrow> bool" where
  "session_good l s \<longleftrightarrow> session_ok s \<and> (\<forall>t y. map_of (ss_sent s) t = Some y \<longrightarrow> snapshot_ok l y)"

definition replicator_ok :: "'w Replicator \<Rightarrow> bool" where
  "replicator_ok r \<longleftrightarrow> limits_pos (rp_limits r) \<and> ring_ok (rp_ring r)
     \<and> (\<forall>s \<in> set (ring_items (rp_ring r)). snapshot_ok (rp_limits r) s)
     \<and> gomap_ok (rp_sessions r) \<and> (\<forall>s \<in> set (rp_store r). session_good (rp_limits r) s)
     \<and> (\<forall>sid a. map_of (rp_sessions r) sid = Some a \<longrightarrow>
          sid \<noteq> 0 \<and> a < length (rp_store r) \<and> si_ID (ss_info (rp_store r ! a)) = sid \<and> \<not> ss_closed (rp_store r ! a))
     \<and> (\<forall>a < length (rp_store r). \<not> ss_closed (rp_store r ! a) \<longrightarrow>
          map_of (rp_sessions r) (si_ID (ss_info (rp_store r ! a))) = Some a)
     \<and> (rp_closed r \<longrightarrow> rp_sessions r = [])"

definition prepared_ok :: "'w Replicator \<Rightarrow> PreparedFrame \<Rightarrow> bool" where
  "prepared_ok r pf \<longleftrightarrow> pf_state pf < length (rp_store r) \<and> snapshot_ok (rp_limits r) (pf_snapshot pf)"

text \<open>What every method keeps: the limits, the addresses in use, and that a closed session stays closed.\<close>

definition evolves :: "'w Replicator \<Rightarrow> 'w Replicator \<Rightarrow> bool" where
  "evolves r r' \<longleftrightarrow> replicator_ok r' \<and> rp_limits r' = rp_limits r \<and> rp_maxDatagram r' = rp_maxDatagram r
     \<and> length (rp_store r) \<le> length (rp_store r')
     \<and> (\<forall>a < length (rp_store r). ss_closed (rp_store r ! a) \<longrightarrow> ss_closed (rp_store r' ! a))"

lemma evolves_refl [simp]: "replicator_ok r \<Longrightarrow> evolves r r"
  by (simp add: evolves_def)

lemma evolves_trans: "evolves r r1 \<Longrightarrow> evolves r1 r2 \<Longrightarrow> evolves r r2"
  by (auto simp: evolves_def)

lemma tally_fields [simp]:
  "rp_limits (tally f r) = rp_limits r" "rp_maxDatagram (tally f r) = rp_maxDatagram r"
  "rp_ring (tally f r) = rp_ring r" "rp_sessions (tally f r) = rp_sessions r" "rp_store (tally f r) = rp_store r"
  "rp_closed (tally f r) = rp_closed r" "rp_transport (tally f r) = rp_transport r" "rp_projector (tally f r) = rp_projector r"
  by (simp_all add: tally_def)

lemma put_state_fields [simp]:
  "rp_limits (put_state r a s) = rp_limits r" "rp_maxDatagram (put_state r a s) = rp_maxDatagram r"
  "rp_ring (put_state r a s) = rp_ring r" "rp_sessions (put_state r a s) = rp_sessions r"
  "rp_store (put_state r a s) = (rp_store r)[a := s]" "rp_closed (put_state r a s) = rp_closed r"
  "rp_transport (put_state r a s) = rp_transport r" "rp_projector (put_state r a s) = rp_projector r"
  by (simp_all add: put_state_def)

lemma tally_ok [simp]: "replicator_ok (tally f r) = replicator_ok r" "evolves r (tally f r') = evolves r r'"
  by (simp_all add: replicator_ok_def evolves_def)

lemma replicator_ok_at:
  assumes "replicator_ok r" "a < length (rp_store r)"
  shows "session_good (rp_limits r) (rp_store r ! a)" "session_ok (rp_store r ! a)"
proof -
  show "session_good (rp_limits r) (rp_store r ! a)" using assms nth_mem unfolding replicator_ok_def by blast
  then show "session_ok (rp_store r ! a)" by (simp add: session_good_def)
qed

text \<open>A session may be replaced by a good one with the same identity.\<close>

definition moves :: "Limits \<Rightarrow> SessionState \<Rightarrow> SessionState \<Rightarrow> bool" where
  "moves l s s' \<longleftrightarrow> session_good l s' \<and> ss_info s' = ss_info s \<and> ss_closed s' = ss_closed s"

lemma store_evolves:
  assumes "replicator_ok r" "length st = length (rp_store r)"
    and "\<And>a. a < length (rp_store r) \<Longrightarrow> moves (rp_limits r) (rp_store r ! a) (st ! a)"
  shows "evolves r (r\<lparr>rp_store := st\<rparr>)"
proof -
  have "\<forall>s \<in> set st. session_good (rp_limits r) s"
    using assms(2,3) by (auto simp: in_set_conv_nth moves_def)
  moreover have at: "ss_info (st ! a) = ss_info (rp_store r ! a)" "ss_closed (st ! a) = ss_closed (rp_store r ! a)"
    if "a < length (rp_store r)" for a using assms(3) [OF that] by (simp_all add: moves_def)
  have "map_of (rp_sessions r) sid = Some a \<Longrightarrow> a < length (rp_store r)" for sid a
    using assms(1) by (simp add: replicator_ok_def)
  ultimately show ?thesis using assms(1,2) at by (simp add: evolves_def replicator_ok_def)
qed

lemma put_state_evolves:
  assumes "replicator_ok r" "a < length (rp_store r)" "moves (rp_limits r) (rp_store r ! a) s"
  shows "evolves r (put_state r a s)"
  unfolding put_state_def using assms(1)
proof (rule store_evolves)
  show "moves (rp_limits r) (rp_store r ! b) ((rp_store r)[a := s] ! b)" if "b < length (rp_store r)" for b
    using assms replicator_ok_at(1) [OF assms(1) that] by (cases "b = a") (simp_all add: moves_def)
qed simp

lemma transport_irrelevant [simp]: "evolves r (r'\<lparr>rp_transport := t\<rparr>) = evolves r r'"
  by (simp add: evolves_def replicator_ok_def)

fun quiet :: "session_op \<Rightarrow> bool" where
  "quiet (OpCommit _ _ _ _) = False"
| "quiet OpClose = False"
| "quiet _ = True"

lemma quiet_step:
  assumes "quiet op"
  shows "ss_sent (session_step s op) = ss_sent s" "ss_info (session_step s op) = ss_info s"
    "ss_closed (session_step s op) = ss_closed s"
  using assms by (cases op; simp add: handleControl_def session_Acknowledge_def session_ForceFull_def
      session_SetQualityTier_def session_prepare_def ss_ack_def Let_def split: option.splits)+

lemma quiet_moves: "session_good l s \<Longrightarrow> quiet op \<Longrightarrow> moves l s (session_step s op)"
  using session_step_ok quiet_step by (simp add: moves_def session_good_def)

lemma quiet_evolves:
  assumes "replicator_ok r" "a < length (rp_store r)" "quiet op"
  shows "evolves r (put_state r a (session_step (rp_store r ! a) op))"
  by (rule put_state_evolves [OF assms(1,2) quiet_moves [OF replicator_ok_at(1) [OF assms(1,2)] assms(3)]])

lemma session_addr:
  assumes "replicator_ok r" "repl_session r sid = Inr a"
  shows "a < length (rp_store r)" "\<not> rp_closed r" "sid \<noteq> 0" "map_of (rp_sessions r) sid = Some a"
    "\<not> ss_closed (rp_store r ! a)"
  using assms by (auto simp: repl_session_def replicator_ok_def split: if_splits option.splits)

lemma commit_moves:
  assumes "session_good l s" "snapshot_ok l sn" "commitPrepared s sn sequence generation full = (s', res)"
  shows "moves l s s'"
proof (cases res)
  case (Inl e)
  with assms(3) have "s' = s" by (auto simp: commitPrepared_def split: if_splits prod.splits)
  with assms(1) show ?thesis by (simp add: moves_def)
next
  case (Inr u)
  with assms(3) have c: "commitPrepared s sn sequence generation full = (s', Inr ())" by simp
  have s: "session_ok s" using assms(1) by (simp add: session_good_def)
  have "snapshot_ok l y" if "map_of (ss_sent s') t = Some y" for t y
    using commitPrepared_Inr(2,3) [OF s c] assms(1,2) that
    by (cases "t = sn_Tick sn") (auto simp: session_good_def)
  moreover have "ss_info s' = ss_info s" "ss_closed s' = ss_closed s"
    using c by (auto simp: commitPrepared_def split: if_splits prod.splits)
  ultimately show ?thesis using commitPrepared_Inr(1) [OF s c] by (auto simp: moves_def session_good_def)
qed

lemma Commit_evolves:
  assumes "replicator_ok r" "prepared_ok r pf"
  shows "evolves r (fst (Commit r pf))"
proof (cases "pf_done pf")
  case False
  let ?s = "rp_store r ! pf_state pf"
  obtain s' res where c: "commitPrepared ?s (pf_snapshot pf) (pf_sequence pf) (pf_generation pf) (pf_full pf) = (s', res)"
    by fastforce
  have a: "pf_state pf < length (rp_store r)" "snapshot_ok (rp_limits r) (pf_snapshot pf)"
    using assms(2) by (simp_all add: prepared_ok_def)
  have "evolves r (put_state r (pf_state pf) s')"
    by (rule put_state_evolves [OF assms(1) a(1) commit_moves [OF replicator_ok_at(1) [OF assms(1) a(1)] a(2) c]])
  with False c show ?thesis by (cases res) (simp_all add: Commit_def Let_def)
qed (use assms in \<open>simp add: Commit_def Let_def\<close>)

lemma Commit_pf: "pf_state (fst (snd (Commit r pf))) = pf_state pf" "pf_snapshot (fst (snd (Commit r pf))) = pf_snapshot pf"
  by (auto simp: Commit_def Let_def split: prod.splits sum.splits)

lemma Publish_evolves:
  assumes "replicator_ok r"
  shows "evolves r (fst (Publish r sn))"
proof (cases "snd (Publish r sn)")
  case (Inl e)
  then have "fst (Publish r sn) = r" by (auto simp: Publish_def split: if_splits sum.splits)
  with assms show ?thesis by simp
next
  case (Inr u)
  then obtain n ring where n: "NewSnapshot (sn_Meta sn) (sn_Objects sn) (rp_limits r) = Inr n"
    and ring: "ring_Add (rp_ring r) n = Inr ring" and "\<not> rp_closed r"
    by (auto simp: Publish_def split: if_splits sum.splits)
  then have p: "rp_ring (fst (Publish r sn)) = ring" "rp_store (fst (Publish r sn)) = rp_store r"
    "rp_sessions (fst (Publish r sn)) = rp_sessions r" "rp_limits (fst (Publish r sn)) = rp_limits r"
    "rp_maxDatagram (fst (Publish r sn)) = rp_maxDatagram r" "rp_closed (fst (Publish r sn)) = rp_closed r"
    by (simp_all add: Publish_def)
  have ok: "limits_pos (rp_limits r)" "ring_ok (rp_ring r)" using assms by (simp_all add: replicator_ok_def)
  have "snapshot_ok (rp_limits r) n" using n ok(1) by (simp add: NewSnapshot_Inr normalizeLimits_id)
  moreover have "set (ring_items ring) \<subseteq> set (ring_items (rp_ring r) @ [n])"
    unfolding ring_Add_Inr(2) [OF ok(2) ring] window_def by (rule set_drop_subset)
  ultimately show ?thesis
    using assms ring_Add_Inr(1) [OF ok(2) ring] by (auto simp: evolves_def replicator_ok_def p)
qed


lemma RegisterSession_cases:
  "fst (RegisterSession r info w) = r \<or> (\<exists>s f. NewSessionState info = Inr s \<and> si_ID info \<noteq> 0 \<and> \<not> rp_closed r
     \<and> map_of (rp_sessions r) (si_ID info) = None
     \<and> fst (RegisterSession r info w) = tally f (r\<lparr>rp_sessions := AList.update (si_ID info) (length (rp_store r)) (rp_sessions r),
          rp_store := rp_store r @ [s]\<rparr>))"
proof (cases "NewSessionState info")
  case (Inr s)
  obtain w1 err where e: "(case Option.bind (rp_transport r) tr_SessionTransport of
      None \<Rightarrow> (w, None) | Some (register, _) \<Rightarrow> register info w) = (w1, err)" by fastforce
  show ?thesis unfolding RegisterSession_def Let_def e Inr by (cases err) auto
qed (simp add: RegisterSession_def)

lemma RegisterSession_evolves:
  assumes "replicator_ok r"
  shows "evolves r (fst (RegisterSession r info w))"
  using RegisterSession_cases [of r info w]
proof (elim disjE exE conjE)
  assume "fst (RegisterSession r info w) = r"
  with assms show ?thesis by simp
next
  let ?r = "fst (RegisterSession r info w)"
  fix s f
  assume s: "NewSessionState info = Inr s" "si_ID info \<noteq> 0" "\<not> rp_closed r"
      "map_of (rp_sessions r) (si_ID info) = None"
    and r': "?r = tally f (r\<lparr>rp_sessions := AList.update (si_ID info) (length (rp_store r)) (rp_sessions r),
          rp_store := rp_store r @ [s]\<rparr>)"
  have p: "rp_sessions ?r = AList.update (si_ID info) (length (rp_store r)) (rp_sessions r)"
      "rp_store ?r = rp_store r @ [s]" "rp_limits ?r = rp_limits r" "rp_maxDatagram ?r = rp_maxDatagram r"
      "rp_ring ?r = rp_ring r" "rp_closed ?r = rp_closed r"
    unfolding r' by simp_all
  have new: "session_good (rp_limits r) s" "\<not> ss_closed s" "ss_info s = info"
    using s(1) NewSessionState_ok [OF s(1)] by (auto simp: session_good_def NewSessionState_def split: if_splits)
  have live: "si_ID (ss_info (rp_store r ! a)) \<noteq> si_ID info"
    if "a < length (rp_store r)" "\<not> ss_closed (rp_store r ! a)" for a
    using assms that s(4) unfolding replicator_ok_def by (metis option.distinct(1))
  have "replicator_ok ?r"
    unfolding replicator_ok_def p
    using assms new s live by (auto simp: replicator_ok_def nth_append less_Suc_eq)
  then show ?thesis by (auto simp: evolves_def p nth_append)
qed

lemma session_Close_good: "session_good l s \<Longrightarrow> session_good l (session_Close s)"
  using session_step_ok [of s OpClose] by (simp add: session_good_def session_Close_def)

lemma session_Close_fields [simp]: "ss_closed (session_Close s)" "ss_info (session_Close s) = ss_info s"
  by (simp_all add: session_Close_def)

lemma RemoveSession_evolves:
  assumes "replicator_ok r"
  shows "evolves r (fst (RemoveSession r sid w))"
proof (cases "sid = 0 \<or> map_of (rp_sessions r) sid = None")
  case True
  have "rp_sessions r = AList.delete sid (rp_sessions r)" if "map_of (rp_sessions r) sid = None"
    using that by (simp add: delete_conv' delete_id map_of_eq_None_iff)
  with True have "fst (RemoveSession r sid w) = r" by (auto simp: RemoveSession_def)
  with assms show ?thesis by simp
next
  case False
  then obtain a where a: "map_of (rp_sessions r) sid = Some a" "sid \<noteq> 0" by auto
  let ?r = "fst (RemoveSession r sid w)"
  have p: "rp_sessions ?r = AList.delete sid (rp_sessions r)"
      "rp_store ?r = (rp_store r)[a := session_Close (rp_store r ! a)]" "rp_limits ?r = rp_limits r"
      "rp_maxDatagram ?r = rp_maxDatagram r" "rp_ring ?r = rp_ring r" "rp_closed ?r = rp_closed r"
    using a by (simp_all add: RemoveSession_def)
  have at: "a < length (rp_store r)" "si_ID (ss_info (rp_store r ! a)) = sid" using assms a by (auto simp: replicator_ok_def)
  have good: "\<forall>x \<in> set (rp_store ?r). session_good (rp_limits r) x"
    unfolding p using set_update_subset_insert [of "rp_store r" a "session_Close (rp_store r ! a)"]
      session_Close_good [OF replicator_ok_at(1) [OF assms at(1)]] assms by (auto simp: replicator_ok_def)
  have "map_of (rp_sessions r) (si_ID (ss_info (rp_store r ! b))) = Some b \<and> si_ID (ss_info (rp_store r ! b)) \<noteq> sid"
    if "b < length (rp_store r)" "b \<noteq> a" "\<not> ss_closed (rp_store r ! b)" for b
    using assms that a(1) unfolding replicator_ok_def by (metis option.inject)
  then have "replicator_ok ?r"
    using assms good at unfolding replicator_ok_def p
    by (auto simp: gomap_get_delete nth_list_update split: if_splits)
  then show ?thesis using at by (auto simp: evolves_def p nth_list_update)
qed

lemma fold_at:
  "length (fold (\<lambda>a st. st[a := f (st ! a)]) as st) = length st"
  "b < length st \<Longrightarrow> fold (\<lambda>a st. st[a := f (st ! a)]) as st ! b = (f ^^ count_list as b) (st ! b)"
  by (induction as arbitrary: st) (simp_all add: nth_list_update funpow_swap1)

lemma funpow_keeps: "(\<And>x. P x \<Longrightarrow> P (f x)) \<Longrightarrow> P x \<Longrightarrow> P ((f ^^ n) x)"
  by (induction n) auto

lemma force_full_moves: "moves l s x \<Longrightarrow> moves l s (session_ForceFull x)"
  using quiet_moves [of l x OpForceFull] by (simp add: moves_def)

lemma SetTransport_cases:
  "fst (SetTransport r t w) = r \<or> fst (SetTransport r t w) = r\<lparr>rp_transport := t,
     rp_store := fold (\<lambda>addr st. st[addr := session_ForceFull (st ! addr)]) (govalues (rp_sessions r)) (rp_store r)\<rparr>"
proof -
  obtain w1 err where e: "(case Option.bind t tr_SessionTransport of None \<Rightarrow> (w, None) | Some (register, remove) \<Rightarrow>
      register_all register remove [] (map (\<lambda>addr. session_Info (rp_store r ! addr)) (govalues (rp_sessions r))) w)
      = (w1, err)" by fastforce
  show ?thesis unfolding SetTransport_def Let_def e by (cases err) simp_all
qed

lemma SetTransport_evolves:
  assumes "replicator_ok r"
  shows "evolves r (fst (SetTransport r t w))"
proof -
  let ?st = "fold (\<lambda>addr st. st[addr := session_ForceFull (st ! addr)]) (govalues (rp_sessions r)) (rp_store r)"
  have mv: "moves (rp_limits r) (rp_store r ! a) (?st ! a)" if "a < length (rp_store r)" for a
    unfolding fold_at(2) [where f = session_ForceFull, OF that] by (rule funpow_keeps [where P = "moves (rp_limits r) (rp_store r ! a)"], erule force_full_moves)
      (use replicator_ok_at(1) [OF assms that] in \<open>simp add: moves_def\<close>)
  have "evolves r (r\<lparr>rp_store := ?st\<rparr>)" by (rule store_evolves [OF assms fold_at(1) [where f = session_ForceFull] mv])
  then have "evolves r (r\<lparr>rp_transport := t, rp_store := ?st\<rparr>)" by (simp add: evolves_def replicator_ok_def)
  moreover have "fst (SetTransport r t w) = r \<or> fst (SetTransport r t w) = r\<lparr>rp_transport := t, rp_store := ?st\<rparr>"
    by (rule SetTransport_cases)
  ultimately show ?thesis using evolves_refl [OF assms] by (elim disjE) (simp_all only:)
qed

lemma SetProjector_evolves: "replicator_ok r \<Longrightarrow> evolves r (fst (SetProjector r p))"
  by (auto simp: SetProjector_def evolves_def replicator_ok_def)

lemma ring_Reset_ok: "ring_ok r \<Longrightarrow> ring_ok (ring_Reset r)"
  by (simp add: ring_ok_def ring_Reset_def last_tick_def)

lemma close_funpow: "0 < n \<Longrightarrow> ss_closed ((session_Close ^^ n) s)"
  by (cases n) simp_all

lemma repl_Close_evolves:
  assumes "replicator_ok r"
  shows "evolves r (fst (repl_Close r w))"
proof (cases "rp_closed r")
  case False
  let ?r = "fst (repl_Close r w)"
  let ?st = "fold (\<lambda>addr st. st[addr := session_Close (st ! addr)]) (govalues (rp_sessions r)) (rp_store r)"
  have p: "rp_store ?r = ?st" "rp_sessions ?r = []" "rp_limits ?r = rp_limits r"
      "rp_maxDatagram ?r = rp_maxDatagram r" "rp_ring ?r = ring_Reset (rp_ring r)" "rp_closed ?r"
    using False by (simp_all add: repl_Close_def)
  have len: "length ?st = length (rp_store r)" by (rule fold_at(1) [where f = session_Close])
  have good: "session_good (rp_limits r) (?st ! a)" if "a < length (rp_store r)" for a
    unfolding fold_at(2) [where f = session_Close, OF that]
    by (rule funpow_keeps [where P = "session_good (rp_limits r)"], erule session_Close_good)
      (rule replicator_ok_at(1) [OF assms that])
  have closed: "ss_closed (?st ! a)" if "a < length (rp_store r)" for a
  proof (cases "ss_closed (rp_store r ! a)")
    case True
    then show ?thesis unfolding fold_at(2) [where f = session_Close, OF that] by (rule funpow_keeps [where P = ss_closed, rotated]) simp
  next
    case False
    then have "(si_ID (ss_info (rp_store r ! a)), a) \<in> set (rp_sessions r)"
      using assms that by (auto simp: replicator_ok_def intro: map_of_SomeD)
    then have "0 < count_list (govalues (rp_sessions r)) a"
      by (force simp: count_list_0_iff zero_less_iff_neq_zero)
    then show ?thesis unfolding fold_at(2) [where f = session_Close, OF that] by (rule close_funpow)
  qed
  have "\<forall>s \<in> set ?st. session_good (rp_limits r) s" using good len by (auto simp: in_set_conv_nth)
  moreover have "ring_items (ring_Reset (rp_ring r)) = []" by (simp add: ring_Reset_def)
  ultimately have "replicator_ok ?r"
    using assms closed unfolding replicator_ok_def p len by (simp add: ring_Reset_ok gomap_ok_def)
  then show ?thesis using closed by (simp add: evolves_def p len)
qed (use assms in \<open>simp add: repl_Close_def\<close>)

section \<open>Preparing and sending\<close>

lemma encode_prepared_Inr:
  assumes "encode_prepared r pr current = Inr (projected, frame, encoded, packets)" "limits_pos (rp_limits r)"
  shows "snapshot_ok (rp_limits r) projected" "sn_Tick projected = sn_Tick current"
    "BuildDelta (pr_base pr) projected = Inr frame" "EncodeFrame frame (rp_limits r) = Inr encoded"
    "FragmentFrame frame (pr_sequence pr) encoded (rp_maxDatagram r) (rp_limits r) = Inr packets"
  using assms by (auto simp: encode_prepared_def projectAndNormalize_def result_Inr NewSnapshot_Inr normalizeLimits_id
      split: if_splits)

lemma prepareLatest_Inr:
  assumes "prepareLatest r a = (r', Inr pf)"
  obtains current s pr encoded where "ring_Latest (rp_ring r) = Some current"
    "session_prepare (rp_store r ! a) (sn_Tick current) = (s, Inr pr)"
    "encode_prepared r pr current = Inr (pf_snapshot pf, pf_Frame pf, encoded, pf_Datagrams pf)"
    "rp_store r' = (rp_store r)[a := s]" "pf_state pf = a" "pf_sequence pf = pr_sequence pr"
    "pf_generation pf = pr_generation pr" "pf_full pf \<longleftrightarrow> fr_Kind (pf_Frame pf) = FrameFull" "\<not> pf_done pf"
    "rp_limits r' = rp_limits r"
  using assms by (auto simp: prepareLatest_def split: option.splits prod.splits sum.splits)

lemma prepareLatest_evolves:
  assumes "replicator_ok r" "a < length (rp_store r)"
  shows "evolves r (fst (prepareLatest r a))"
proof -
  have "evolves r (put_state r a s)" if "session_prepare (rp_store r ! a) t = (s, x)" for s t x
    using quiet_evolves [OF assms, of "OpPrepare t"] that by simp
  with assms show ?thesis
    by (auto simp: prepareLatest_def split: option.splits prod.splits sum.splits)
qed

lemma prepareLatest_prepared:
  assumes "replicator_ok r" "a < length (rp_store r)" "prepareLatest r a = (r', Inr pf)"
  shows "prepared_ok r' pf"
proof -
  obtain current s pr encoded where p: "encode_prepared r pr current = Inr (pf_snapshot pf, pf_Frame pf, encoded, pf_Datagrams pf)"
      "rp_store r' = (rp_store r)[a := s]" "pf_state pf = a" "rp_limits r' = rp_limits r"
    using assms(3) by (rule prepareLatest_Inr)
  have "limits_pos (rp_limits r)" using assms(1) by (simp add: replicator_ok_def)
  from encode_prepared_Inr(1) [OF p(1) this] p assms(2) show ?thesis by (simp add: prepared_ok_def)
qed

lemma repl_Acknowledge_evolves:
  assumes "replicator_ok r"
  shows "evolves r (fst (repl_Acknowledge r sid tick))"
proof (cases "repl_session r sid")
  case (Inr a)
  have "evolves r (put_state r a (session_step (rp_store r ! a) (OpAcknowledge tick (ring_LatestTick (rp_ring r)))))"
    by (rule quiet_evolves [OF assms session_addr(1) [OF assms Inr]]) simp
  with assms Inr show ?thesis
    by (cases "session_Acknowledge (rp_store r ! a) tick (ring_LatestTick (rp_ring r))")
      (simp add: repl_Acknowledge_def split: sum.split)
qed (use assms in \<open>simp add: repl_Acknowledge_def\<close>)

lemma repl_ForceFull_evolves:
  assumes "replicator_ok r"
  shows "evolves r (fst (repl_ForceFull r sid))"
proof (cases "repl_session r sid")
  case (Inr a)
  have "evolves r (put_state r a (session_step (rp_store r ! a) OpForceFull))"
    by (rule quiet_evolves [OF assms session_addr(1) [OF assms Inr]]) simp
  with assms Inr show ?thesis by (simp add: repl_ForceFull_def)
qed (use assms in \<open>simp add: repl_ForceFull_def\<close>)

lemma repl_SetQualityTier_evolves:
  assumes "replicator_ok r"
  shows "evolves r (fst (repl_SetQualityTier r sid tier))"
proof (cases "repl_session r sid")
  case (Inr a)
  have "evolves r (put_state r a (session_step (rp_store r ! a) (OpSetQualityTier tier)))"
    by (rule quiet_evolves [OF assms session_addr(1) [OF assms Inr]]) simp
  with assms Inr show ?thesis
    by (cases "session_SetQualityTier (rp_store r ! a) tier") (simp add: repl_SetQualityTier_def split: sum.split)
qed (use assms in \<open>simp add: repl_SetQualityTier_def\<close>)

lemma HandleControl_evolves:
  assumes "replicator_ok r"
  shows "evolves r (fst (HandleControl r sid raw))"
proof (cases "repl_session r sid")
  case (Inl e)
  with assms show ?thesis by (simp add: HandleControl_def Let_def split: sum.split)
next
  case (Inr a)
  have move: "evolves r (put_state r a s)" if "handleControl (rp_store r ! a) m t = (s, x)" for m t s x
    using quiet_evolves [OF assms session_addr(1) [OF assms Inr], of "OpControl m t"] that by simp
  show ?thesis
  proof (cases "ring_Latest (rp_ring r)")
    case None
    with assms Inr show ?thesis by (simp add: HandleControl_def Let_def split: sum.split)
  next
    case (Some latest)
    show ?thesis
    proof (cases "DecodeControl raw")
      case (Inr m)
      obtain s x where h: "handleControl (rp_store r ! a) m (sn_Tick latest) = (s, x)" by fastforce
      with assms Inr Some \<open>repl_session r sid = Inr a\<close> move [OF h] show ?thesis
        by (cases x) (simp_all add: HandleControl_def Let_def)
    qed (use assms in \<open>simp add: HandleControl_def Let_def\<close>)
  qed
qed

lemma PrepareLatest_evolves:
  assumes "replicator_ok r"
  shows "evolves r (fst (PrepareLatest r sid))"
  using assms prepareLatest_evolves [OF assms session_addr(1) [OF assms]]
  by (simp add: PrepareLatest_def split: sum.split)

lemma PrepareLatest_Inr:
  assumes "PrepareLatest r sid = (r', Inr pf)"
  obtains a where "repl_session r sid = Inr a" "prepareLatest r a = (r', Inr pf)" "\<not> rp_closed r"
  using assms by (auto simp: PrepareLatest_def split: if_splits sum.splits)

text \<open>What the transport has accepted when it reports no error.\<close>

fun accepts_each :: "'w Transport \<Rightarrow> SessionID \<Rightarrow> bytes list \<Rightarrow> 'w \<Rightarrow> 'w \<Rightarrow> bool" where
  "accepts_each t sid [] w w' \<longleftrightarrow> w' = w"
| "accepts_each t sid (p # ps) w w' \<longleftrightarrow>
     snd (tr_SendDatagram t sid p w) = None \<and> accepts_each t sid ps (fst (tr_SendDatagram t sid p w)) w'"

definition transport_accepts :: "'w Transport \<Rightarrow> SessionID \<Rightarrow> bytes list \<Rightarrow> 'w \<Rightarrow> 'w \<Rightarrow> bool" where
  "transport_accepts t sid ps w w' \<longleftrightarrow>
     (case tr_SendDatagramBatch t of Some batch \<Rightarrow> batch sid ps w = (w', None) | None \<Rightarrow> accepts_each t sid ps w w')"

lemma send_packets_None: "send_packets t sid ps w = (w', n, None) \<Longrightarrow> accepts_each t sid ps w w'"
  by (induction ps arbitrary: w n) (auto split: prod.splits option.splits)

definition send_frame :: "'w Transport \<Rightarrow> SessionID \<Rightarrow> bytes list \<Rightarrow> 'w \<Rightarrow> 'w \<times> nat \<times> repl_error option" where
  "send_frame t sid ps w =
     (case tr_SendDatagramBatch t of
        Some batch \<Rightarrow> (case batch sid ps w of
            (w1, Some e) \<Rightarrow> (w1, 0, Some e)
          | (w1, None) \<Rightarrow> (w1, sum_list (map length ps), None))
      | None \<Rightarrow> send_packets t sid ps w)"

lemma send_frame_None: "send_frame t sid ps w = (w', n, None) \<Longrightarrow> transport_accepts t sid ps w w'"
  using send_packets_None by (fastforce simp: send_frame_def transport_accepts_def split: option.splits prod.splits)

lemma tally_tally: "tally f (tally g r) = tally (\<lambda>k. f (g k)) r"
  by (simp add: tally_def)

lemma SendLatest_unfold:
  assumes "repl_session r sid = Inr a" "\<not> rp_closed r" "rp_transport r = Some t"
    and "prepareLatest r a = (r1, Inr pf)" "send_frame t sid (pf_Datagrams pf) w = (w1, n, err)"
  shows "SendLatest r sid w =
    (let r2 = tally (\<lambda>k. k\<lparr>k_sentBytes := k_sentBytes k + of_nat n\<rparr>) r1;
         failed = tally (\<lambda>k. k\<lparr>k_sendErrors := k_sendErrors k + 1\<rparr>) in
     case err of
       Some e \<Rightarrow> (failed r2, w1, Some (pf_Frame pf), Inl e)
     | None \<Rightarrow>
         (case Commit r2 pf of
            (r3, _, Inl e) \<Rightarrow> (failed r3, w1, Some (pf_Frame pf), Inl e)
          | (r3, _, Inr _) \<Rightarrow> (r3, w1, Some (pf_Frame pf), Inr ())))"
  using assms(1-4) assms(5) [unfolded send_frame_def] by (simp add: SendLatest_def)

lemma Commit_unfold:
  assumes "\<not> pf_done pf"
    and "commitPrepared (rp_store r ! pf_state pf) (pf_snapshot pf) (pf_sequence pf) (pf_generation pf) (pf_full pf) = (s, res)"
  shows "snd (snd (Commit r pf)) = res" "rp_store (fst (Commit r pf)) = (rp_store r)[pf_state pf := s]"
    "rp_limits (fst (Commit r pf)) = rp_limits r"
  using assms by (cases res; simp add: Commit_def Let_def)+

text \<open>The three ways a send ends: nothing prepared, prepared but not committed, committed.\<close>

lemma SendLatest_cases:
  assumes "SendLatest r sid w = (r', w', fo, res)"
  obtains (refused) e where "res = Inl e" "r' = r" "fo = None"
  | (unprepared) a e where "repl_session r sid = Inr a" "prepareLatest r a = (r', Inl e)" "res = Inl e" "fo = None"
  | (unsent) a r1 pf f e where "repl_session r sid = Inr a" "prepareLatest r a = (r1, Inr pf)" "r' = tally f r1" "res = Inl e"
  | (stale) a r1 pf f g e pf' r3 where "repl_session r sid = Inr a" "prepareLatest r a = (r1, Inr pf)"
      "Commit (tally g r1) pf = (r3, pf', Inl e)" "r' = tally f r3" "res = Inl e"
  | (sent) a t r1 pf g pf' where "repl_session r sid = Inr a" "rp_transport r = Some t" "prepareLatest r a = (r1, Inr pf)"
      "transport_accepts t sid (pf_Datagrams pf) w w'" "Commit (tally g r1) pf = (r', pf', Inr ())" "res = Inr ()"
      "fo = Some (pf_Frame pf)"
proof (cases "rp_closed r \<or> isl (repl_session r sid) \<or> rp_transport r = None")
  case True
  then have "\<exists>e. SendLatest r sid w = (r, w, None, Inl e)"
    by (cases "repl_session r sid"; cases "rp_transport r") (auto simp: SendLatest_def)
  with assms show thesis by (auto intro: refused)
next
  case False
  then obtain a t where a: "repl_session r sid = Inr a" "\<not> rp_closed r" "rp_transport r = Some t"
    by (cases "repl_session r sid") auto
  show thesis
  proof (cases "prepareLatest r a")
    case (Pair r1 x)
    show thesis
    proof (cases x)
      case (Inl e)
      show thesis by (rule unprepared [OF a(1)]) (use assms a Pair Inl in \<open>auto simp: SendLatest_def\<close>)
    next
      case (Inr pf)
      obtain w1 n err where s: "send_frame t sid (pf_Datagrams pf) w = (w1, n, err)" by (rule prod_cases3)
      note u = SendLatest_unfold [OF a Pair [unfolded Inr] s, unfolded assms Let_def]
      show thesis
      proof (cases err)
        case (Some e)
        show thesis by (rule unsent [OF a(1) Pair [unfolded Inr]]) (use u Some in \<open>simp_all add: tally_tally\<close>)
      next
        case None
        have acc: "transport_accepts t sid (pf_Datagrams pf) w w1" by (rule send_frame_None [OF s [unfolded None]])
        obtain r3 pf' cr where c: "Commit (tally (\<lambda>k. k\<lparr>k_sentBytes := k_sentBytes k + of_nat n\<rparr>) r1) pf = (r3, pf', cr)"
          by (rule prod_cases3)
        show thesis
        proof (cases cr)
          case (Inl e)
          show thesis
            by (rule stale [OF a(1) Pair [unfolded Inr] c [unfolded Inl]]) (use u None c Inl in simp_all)
        next
          case Inr': (Inr u')
          have *: "r' = r3" "w' = w1" "res = Inr ()" "fo = Some (pf_Frame pf)" using u None c Inr' by simp_all
          show thesis
            by (rule sent [OF a(1,3) Pair [unfolded Inr] acc [folded *(2)] _ *(3,4)]) (use c Inr' *(1) in simp)
        qed
      qed
    qed
  qed
qed


lemma SendLatest_evolves:
  assumes "replicator_ok r"
  shows "evolves r (fst (SendLatest r sid w))"
proof -
  obtain r' w' fo res where s: "SendLatest r sid w = (r', w', fo, res)" by (rule prod_cases4)
  have prep: "evolves r (fst (prepareLatest r a))" if "repl_session r sid = Inr a" for a
    by (rule prepareLatest_evolves [OF assms session_addr(1) [OF assms that]])
  have com: "evolves r (fst (Commit (tally g r1) pf))"
    if "repl_session r sid = Inr a" "prepareLatest r a = (r1, Inr pf)" for a r1 pf g
  proof -
    have e: "evolves r r1" using prep [OF that(1)] that(2) by simp
    then have "replicator_ok (tally g r1)" by (simp add: evolves_def)
    moreover have "prepared_ok (tally g r1) pf"
      using prepareLatest_prepared [OF assms session_addr(1) [OF assms that(1)] that(2)] by (simp add: prepared_ok_def)
    ultimately have "evolves (tally g r1) (fst (Commit (tally g r1) pf))" by (rule Commit_evolves)
    with e show ?thesis using evolves_trans [of r "tally g r1"] by simp
  qed
  from s have "evolves r r'"
  proof (cases rule: SendLatest_cases)
    case (unsent a r1 pf f e)
    with prep [OF unsent(1)] show ?thesis by simp
  next
    case (stale a r1 pf f g e pf' r3)
    with com [OF stale(1,2), of g] show ?thesis by simp
  next
    case (sent a t r1 pf g pf')
    with com [OF sent(1,3), of g] show ?thesis by simp
  next
    case (unprepared a e)
    with prep [OF unprepared(1)] show ?thesis by simp
  qed (use assms in simp)
  with s show ?thesis by simp
qed

section \<open>Executions\<close>

text \<open>
  A state of the system: the replicator, the state of the transports, and the frames that were
  prepared so far. Every public method is a step; a prepared frame may be committed or aborted at any
  later time, by whoever holds it.
\<close>

type_synonym 'w system = "'w Replicator \<times> 'w \<times> PreparedFrame list"

inductive repl_step :: "'w system \<Rightarrow> 'w system \<Rightarrow> bool" where
  step_publish: "repl_step (r, w, pool) (fst (Publish r snapshot), w, pool)"
| step_register: "repl_step (r, w, pool) (fst (RegisterSession r info w), fst (snd (RegisterSession r info w)), pool)"
| step_remove: "repl_step (r, w, pool) (fst (RemoveSession r sid w), fst (snd (RemoveSession r sid w)), pool)"
| step_acknowledge: "repl_step (r, w, pool) (fst (repl_Acknowledge r sid tick), w, pool)"
| step_force_full: "repl_step (r, w, pool) (fst (repl_ForceFull r sid), w, pool)"
| step_quality: "repl_step (r, w, pool) (fst (repl_SetQualityTier r sid tier), w, pool)"
| step_control: "repl_step (r, w, pool) (fst (HandleControl r sid raw), w, pool)"
| step_prepare: "PrepareLatest r sid = (r', Inr pf) \<Longrightarrow> repl_step (r, w, pool) (r', w, pool @ [pf])"
| step_prepare_fails: "PrepareLatest r sid = (r', Inl e) \<Longrightarrow> repl_step (r, w, pool) (r', w, pool)"
| step_build: "repl_step (r, w, pool) (fst (BuildLatest r sid), w, pool)"
| step_commit: "i < length pool \<Longrightarrow> Commit r (pool ! i) = (r', pf, res) \<Longrightarrow> repl_step (r, w, pool) (r', w, pool[i := pf])"
| step_abort: "i < length pool \<Longrightarrow> repl_step (r, w, pool) (r, w, pool[i := Abort (pool ! i)])"
| step_send: "repl_step (r, w, pool) (fst (SendLatest r sid w), fst (snd (SendLatest r sid w)), pool)"
| step_send_reliable: "repl_step (r, w, pool) (fst (repl_SendReliable r sid payload w), fst (snd (repl_SendReliable r sid payload w)), pool)"
| step_transport: "repl_step (r, w, pool) (fst (SetTransport r t w), fst (snd (SetTransport r t w)), pool)"
| step_projector: "repl_step (r, w, pool) (fst (SetProjector r p), w, pool)"
| step_close: "repl_step (r, w, pool) (fst (repl_Close r w), snd (repl_Close r w), pool)"

definition reachable :: "'w ReplicatorConfig \<Rightarrow> 'w system \<Rightarrow> bool" where
  "reachable config s \<longleftrightarrow> (\<exists>w. repl_step\<^sup>*\<^sup>* (NewReplicator config, w, []) s)"

definition system_ok :: "'w system \<Rightarrow> bool" where
  "system_ok = (\<lambda>(r, w, pool). replicator_ok r \<and> (\<forall>pf \<in> set pool. prepared_ok r pf))"

lemma NewReplicator_ok: "replicator_ok (NewReplicator config)"
  using NewSnapshotRing_ok by (simp add: replicator_ok_def NewReplicator_def normalizeLimits_pos NewSnapshotRing_def)

lemma prepared_evolves: "prepared_ok r pf \<Longrightarrow> evolves r r' \<Longrightarrow> prepared_ok r' pf"
  by (auto simp: prepared_ok_def evolves_def)

lemma SendReliable_evolves: "replicator_ok r \<Longrightarrow> evolves r (fst (repl_SendReliable r sid payload w))"
  by (auto simp: repl_SendReliable_def split: sum.splits option.splits prod.splits)

lemma BuildLatest_evolves: "replicator_ok r \<Longrightarrow> evolves r (fst (BuildLatest r sid))"
  using PrepareLatest_evolves [of r sid] by (auto simp: BuildLatest_def split: sum.splits prod.splits)

lemmas method_evolves = Publish_evolves RegisterSession_evolves RemoveSession_evolves repl_Acknowledge_evolves
  repl_ForceFull_evolves repl_SetQualityTier_evolves HandleControl_evolves PrepareLatest_evolves BuildLatest_evolves
  SendLatest_evolves SendReliable_evolves SetTransport_evolves SetProjector_evolves repl_Close_evolves

lemma repl_step_evolves:
  assumes "repl_step s s'" "system_ok s"
  shows "evolves (fst s) (fst s')"
  using assms
proof (cases rule: repl_step.cases)
  case (step_commit i pool r r' pf res w)
  then have "evolves r (fst (Commit r (pool ! i)))"
    using assms(2) Commit_evolves [of r "pool ! i"] nth_mem by (auto simp: system_ok_def)
  with step_commit show ?thesis by simp
next
  case (step_prepare r sid r' pf w pool)
  with assms(2) PrepareLatest_evolves [of r sid] show ?thesis by (simp add: system_ok_def)
next
  case (step_prepare_fails r sid r' e w pool)
  with assms(2) PrepareLatest_evolves [of r sid] show ?thesis by (simp add: system_ok_def)
qed (use assms(2) in \<open>simp_all add: system_ok_def method_evolves\<close>)


lemma ball_update: "\<forall>x \<in> set xs. P x \<Longrightarrow> P y \<Longrightarrow> \<forall>x \<in> set (xs[i := y]). P x"
  using set_update_subset_insert [of xs i y] by blast

lemma repl_step_ok:
  assumes "repl_step s s'" "system_ok s"
  shows "system_ok s'"
proof -
  note ev = repl_step_evolves [OF assms]
  have old: "\<forall>pf \<in> set (snd (snd s)). prepared_ok (fst s') pf"
    using assms(2) prepared_evolves [OF _ ev] by (auto simp: system_ok_def)
  have "\<forall>pf \<in> set (snd (snd s')). prepared_ok (fst s') pf"
    using assms(1)
  proof (cases rule: repl_step.cases)
    case (step_prepare r sid r' pf w pool)
    obtain a where a: "repl_session r sid = Inr a" "prepareLatest r a = (r', Inr pf)"
      using step_prepare(3) by (rule PrepareLatest_Inr)
    have r: "replicator_ok r" using assms(2) step_prepare(1) by (simp add: system_ok_def)
    from prepareLatest_prepared [OF r session_addr(1) [OF r a(1)] a(2)] old step_prepare(1,2) show ?thesis by simp
  next
    case (step_commit i pool r r' pf res w)
    have "prepared_ok r' (pool ! i)" using old step_commit(1-3) by simp
    then have "prepared_ok r' pf" using Commit_pf [of r "pool ! i"] step_commit(4) by (simp add: prepared_ok_def)
    moreover have "\<forall>x \<in> set pool. prepared_ok r' x" using old step_commit(1,2) by simp
    ultimately show ?thesis unfolding step_commit(2) fst_conv snd_conv by (rule ball_update [rotated])
  next
    case (step_abort i pool r w)
    have "prepared_ok r (Abort (pool ! i))" using old step_abort by (simp add: prepared_ok_def Abort_def)
    moreover have "\<forall>x \<in> set pool. prepared_ok r x" using old step_abort(1,2) by simp
    ultimately show ?thesis unfolding step_abort(2) fst_conv snd_conv by (rule ball_update [rotated])
  qed (use old in simp_all)
  with ev show ?thesis by (cases s') (simp add: system_ok_def evolves_def)
qed

lemma reachable_ok:
  assumes "reachable config s"
  shows "system_ok s"
proof -
  obtain w where "repl_step\<^sup>*\<^sup>* (NewReplicator config, w, []) s" using assms by (auto simp: reachable_def)
  then show ?thesis
  proof (induction rule: rtranclp_induct)
    case base
    show ?case by (simp add: system_ok_def NewReplicator_ok)
  qed (rule repl_step_ok)
qed

lemma repl_steps_closed:
  assumes "repl_step\<^sup>*\<^sup>* s s'" "system_ok s" "a < length (rp_store (fst s))" "ss_closed (rp_store (fst s) ! a)"
  shows "system_ok s' \<and> a < length (rp_store (fst s')) \<and> ss_closed (rp_store (fst s') ! a)"
  using assms
proof (induction rule: rtranclp_induct)
  case (step s1 s2)
  then have "system_ok s1" "a < length (rp_store (fst s1))" "ss_closed (rp_store (fst s1) ! a)" by auto
  with repl_step_evolves [OF step.hyps(2)] repl_step_ok [OF step.hyps(2)] show ?case by (auto simp: evolves_def)
qed simp

section \<open>A concrete execution\<close>

text \<open>Fragmentation succeeds on every non-empty frame that keeps the limits.\<close>

lemma unat_u16: "n \<le> 65535 \<Longrightarrow> unat (of_nat n :: u16) = n"
  by (simp add: unat_of_nat take_bit_nat_eq_self_iff)

lemma FragmentFrame_total:
  assumes "seq \<noteq> 0" "encoded \<noteq> []" "int (length encoded) \<le> MaxFrameBytes l" "limits_pos l"
    and "42 < md" "md \<le> MaxDatagramBytes l" "md \<le> 65577" "meta_validate (fr_Meta f) = Inr ()"
    and n: "n = nat ((int (length encoded) + (md - 42) - 1) div (md - 42))" "int n \<le> MaxFragments l" "n \<le> 65535"
  shows "\<exists>ps. FragmentFrame f seq encoded md l = Inr ps \<and> length ps = n"
proof -
  define k where "k = nat (md - 42)"
  define d where "d = (\<lambda>i. min (i * k + k) (length encoded) - i * k)"
  define pl where "pl = (\<lambda>i. slice (i * k) (min (i * k + k) (length encoded)) encoded)"
  define h where "h = (\<lambda>i. fragment_header f seq (frame_flags f) n i (d i))"
  define ps where "ps = map (\<lambda>i. dgram (h i) (pl i) (datagram_sum (h i) (pl i))) [0..<n]"
  have k: "int k = md - 42" "0 < k" using assms(5) by (simp_all add: k_def)
  have l: "normalizeLimits l = l" using assms(4) by (rule normalizeLimits_id)
  have pos: "0 < n" using ceil_div(1) [of "int (length encoded)" "md - 42", OF _ _ refl] assms(2,5) by (simp add: n)
  have len: "length (pl i) = d i" "d i \<le> k" for i by (auto simp: pl_def d_def slice_def)
  have k16: "k \<le> 65535" using k(1) assms(7) by linarith
  have "encodeDatagram (h i) (pl i) = Inr (ps ! i) \<and> int (length (ps ! i)) \<le> md" if "i < n" for i
  proof -
    have "header_ok (h i)"
      using assms(1,8) that n(3) pos unat_u16 [of n] unat_u16 [of i]
      by (auto simp: header_ok_def h_def fragment_header_def meta_validate_def word_less_nat_alt split: if_splits)
    moreover have "unat (dh_PayloadLen (h i)) = d i"
      using len(2) [of i] k16 by (simp add: h_def fragment_header_def unat_u16)
    ultimately show ?thesis
      using len [of i] k(1) that unfolding encodeDatagram_Inr by (simp add: ps_def dgram_def)
  qed
  then have "fragment_loop (\<lambda>i. encodeDatagram (h i) (pl i)) md [0..<n] = Inr ps"
    unfolding fragment_loop_Inr by (simp add: list_all2_conv_all_nth ps_def)
  moreover have "(int (length encoded) + (md - 42) - 1) div (md - 42) = int n" using n(1) pos by simp
  ultimately have "FragmentFrame f seq encoded md l = Inr ps"
    using assms(1-3,5-7) n(2,3) pos
    by (simp add: FragmentFrame_def Let_def l frame_flags_def h_def pl_def d_def k_def)
  then show ?thesis by (auto simp: ps_def)
qed

lemma PrepareLatest_intro:
  assumes "repl_session r sid = Inr a" "\<not> rp_closed r" "ring_Latest (rp_ring r) = Some current"
    and "session_prepare (rp_store r ! a) (sn_Tick current) = (s, Inr pr)"
    and "encode_prepared r pr current = Inr (projected, frame, encoded, packets)"
  shows "\<exists>f. PrepareLatest r sid = (tally f (put_state r a s), Inr \<lparr>pf_Frame = frame, pf_Datagrams = packets,
    pf_state = a, pf_snapshot = projected, pf_sequence = pr_sequence pr, pf_generation = pr_generation pr,
    pf_full = (fr_Kind frame = FrameFull), pf_done = False, pf_commitErr = None\<rparr>)"
  using assms by (auto simp: PrepareLatest_def prepareLatest_def)

text \<open>
  A room of two objects: the first snapshot is sent in full and acknowledged, then the second one is
  published. The transport is a log that accepts every packet.
\<close>

definition ex_transport :: "bytes list Transport" where
  "ex_transport = \<lparr>tr_id = 1, tr_comparable = True, tr_SendDatagram = (\<lambda>_ p w. (w @ [p], None)),
     tr_SendReliable = (\<lambda>_ p w. (w @ [p], None)), tr_SendDatagramBatch = None, tr_SessionTransport = None\<rparr>"

definition ex_config :: "bytes list ReplicatorConfig" where
  "ex_config = \<lparr>rc_Limits = ex_limits, rc_RingSize = 4, rc_MaxDatagram = 100, rc_Projector = None,
     rc_Transport = Some ex_transport\<rparr>"

definition ex_room :: "SnapshotRing \<Rightarrow> (SessionID, nat) gomap \<Rightarrow> SessionState list \<Rightarrow> replicatorCounters \<Rightarrow> bytes list Replicator" where
  "ex_room ring sessions store k = (NewReplicator ex_config)\<lparr>rp_ring := ring, rp_sessions := sessions,
     rp_store := store, rp_stats := k\<rparr>"

definition ex_ring1 :: SnapshotRing where
  "ex_ring1 = projr (ring_Add (NewSnapshotRing 4) ex_base)"

definition ex_ring2 :: SnapshotRing where
  "ex_ring2 = projr (ring_Add ex_ring1 ex_cur)"

definition ex_state0 :: SessionState where
  "ex_state0 = projr (NewSessionState ex_info)"

definition ex_state1 :: SessionState where
  "ex_state1 = fst (session_prepare ex_state0 1)"

definition ex_state2 :: SessionState where
  "ex_state2 = fst (commitPrepared ex_state1 ex_base 1 0 True)"

definition ex_state3 :: SessionState where
  "ex_state3 = fst (session_Acknowledge ex_state2 1 1)"

lemma ex_room_fields [simp]:
  "rp_limits (ex_room ring ss st k) = ex_limits" "rp_maxDatagram (ex_room ring ss st k) = 100"
  "rp_ring (ex_room ring ss st k) = ring" "rp_sessions (ex_room ring ss st k) = ss" "rp_store (ex_room ring ss st k) = st"
  "\<not> rp_closed (ex_room ring ss st k)" "rp_transport (ex_room ring ss st k) = Some ex_transport"
  "rp_projector (ex_room ring ss st k) = ProjectorFunc_nil"
  by (simp_all add: ex_room_def NewReplicator_def ex_config_def)

lemma ex_room_tally: "tally f (ex_room ring ss st k) = ex_room ring ss st (f k)"
  "put_state (ex_room ring ss st k) a s = ex_room ring ss (st[a := s]) k"
  "(ex_room ring ss st k)\<lparr>rp_ring := ring'\<rparr> = ex_room ring' ss st k"
  "(ex_room ring ss st k)\<lparr>rp_sessions := ss', rp_store := st'\<rparr> = ex_room ring ss' st' k"
  by (simp_all add: tally_def put_state_def ex_room_def)

lemma ex_info_ID: "si_ID ex_info = 4" by code_simp


lemma ex_rings: "ring_Add (NewSnapshotRing 4) ex_base = Inr ex_ring1" "ring_Add ex_ring1 ex_cur = Inr ex_ring2"
  "ring_Latest ex_ring1 = Some ex_base" "ring_Latest ex_ring2 = Some ex_cur" "ring_LatestTick ex_ring1 = 1"
proof -
  have "\<not> isl (ring_Add (NewSnapshotRing 4) ex_base)" "\<not> isl (ring_Add ex_ring1 ex_cur)" by code_simp+
  then show "ring_Add (NewSnapshotRing 4) ex_base = Inr ex_ring1" "ring_Add ex_ring1 ex_cur = Inr ex_ring2"
    by (simp_all add: ex_ring1_def ex_ring2_def)
qed code_simp+

lemma ex_publish: "NewSnapshot (sn_Meta ex_base) (sn_Objects ex_base) ex_limits = Inr ex_base"
  "NewSnapshot (sn_Meta ex_cur) (sn_Objects ex_cur) ex_limits = Inr ex_cur"
  by code_simp+

lemma ex_states: "NewSessionState ex_info = Inr ex_state0"
  "session_prepare ex_state0 (sn_Tick ex_base) = (ex_state1, Inr \<lparr>pr_info = ex_info, pr_qualityTier = 0, pr_base = None,
     pr_previous = None, pr_sequence = 1, pr_generation = 0, pr_full = True\<rparr>)"
  "commitPrepared ex_state1 ex_base 1 0 True = (ex_state2, Inr ())"
  "session_Acknowledge ex_state2 1 1 = (ex_state3, Inr ())"
  "session_prepare ex_state3 (sn_Tick ex_cur) = (fst (session_prepare ex_state3 (sn_Tick ex_cur)), Inr \<lparr>pr_info = ex_info, pr_qualityTier = 0, pr_base = Some ex_base,
     pr_previous = Some ex_base, pr_sequence = 2, pr_generation = 0, pr_full = False\<rparr>)"
  by code_simp+


definition ex_first :: DeltaFrame where
  "ex_first = projr (BuildDelta None ex_base)"

lemma ex_fragments:
  assumes "EncodeFrame f ex_limits = Inr enc" "58 < length enc" "length enc \<le> 116" "seq \<noteq> 0" "meta_validate (fr_Meta f) = Inr ()"
  shows "\<exists>ps. FragmentFrame f seq enc 100 ex_limits = Inr ps \<and> length ps = 2"
proof (rule FragmentFrame_total)
  show "limits_pos ex_limits" by code_simp
  have "(int (length enc) + 57) div 58 = 2" using assms(2,3) by linarith
  then show "2 = nat ((int (length enc) + (100 - 42) - 1) div (100 - 42))" by simp
qed (use assms in \<open>auto simp: ex_limits_def DefaultLimits_def\<close>)

lemma ex_encode:
  assumes "BuildDelta (pr_base pr) sn = Inr f" "NewSnapshot (sn_Meta sn) (sn_Objects sn) ex_limits = Inr sn"
    and "EncodeFrame f ex_limits = Inr enc" "58 < length enc" "length enc \<le> 116" "pr_sequence pr \<noteq> 0"
    and "meta_validate (fr_Meta f) = Inr ()"
  shows "\<exists>ps. encode_prepared (ex_room ring ss st k) pr sn = Inr (sn, f, enc, ps) \<and> length ps = 2"
  using ex_fragments [OF assms(3-7)] assms(1-3)
  by (auto simp: encode_prepared_def projectAndNormalize_def ProjectorFunc_nil_def)

lemma ex_frames:
  "BuildDelta None ex_base = Inr ex_first" "\<not> isl (EncodeFrame ex_first ex_limits)" "\<not> isl (EncodeFrame ex_frame ex_limits)"
  "length (projr (EncodeFrame ex_first ex_limits)) = 70" "length (projr (EncodeFrame ex_frame ex_limits)) = 80"
  "meta_validate (fr_Meta ex_first) = Inr ()" "meta_validate (fr_Meta ex_frame) = Inr ()"
  "fr_Kind ex_first = FrameFull" "fr_Kind ex_frame = FrameDelta"
proof -
  have "\<not> isl (BuildDelta None ex_base)" by code_simp
  then show "BuildDelta None ex_base = Inr ex_first" by (simp add: ex_first_def)
qed code_simp+

lemma ex_prepare:
  assumes "ring_Latest ring = Some sn" "session_prepare s (sn_Tick sn) = (s', Inr pr)" "BuildDelta (pr_base pr) sn = Inr f"
    and "NewSnapshot (sn_Meta sn) (sn_Objects sn) ex_limits = Inr sn"
    and "EncodeFrame f ex_limits = Inr enc" "58 < length enc" "length enc \<le> 116" "pr_sequence pr \<noteq> 0"
    and "meta_validate (fr_Meta f) = Inr ()"
  shows "\<exists>k' pf. PrepareLatest (ex_room ring [(4, 0)] [s] k) 4 = (ex_room ring [(4, 0)] [s'] k', Inr pf)
    \<and> pf_Frame pf = f \<and> pf_state pf = 0 \<and> pf_snapshot pf = sn \<and> pf_sequence pf = pr_sequence pr
    \<and> pf_generation pf = pr_generation pr \<and> pf_full pf = (fr_Kind f = FrameFull) \<and> \<not> pf_done pf
    \<and> length (pf_Datagrams pf) = 2"
proof -
  let ?r = "ex_room ring [(4, 0)] [s] k"
  obtain ps where ps: "encode_prepared ?r pr sn = Inr (sn, f, enc, ps)" "length ps = 2"
    using ex_encode [OF assms(3-9), of ring "[(4, 0)]" "[s]" k] by blast
  have "repl_session ?r 4 = Inr 0" by (simp add: repl_session_def)
  from PrepareLatest_intro [OF this _ _ _ ps(1)] assms(1,2) ps(2) show ?thesis
    by (auto simp: ex_room_tally)
qed

text \<open>The state in which the acknowledged first snapshot is the baseline of the second.\<close>

lemma ex_reachable: "\<exists>k pool. reachable ex_config (ex_room ex_ring2 [(4, 0)] [ex_state3] k, [], pool)"
proof -
  let ?R = "\<lambda>ring ss st k pool. (ex_room ring ss st k, [], pool) :: bytes list system"
  have enc: "EncodeFrame ex_first ex_limits = Inr (projr (EncodeFrame ex_first ex_limits))" using ex_frames(2) by simp
  have s0: "(NewReplicator ex_config, [], []) = ?R (NewSnapshotRing 4) [] [] noCounters []"
    by (simp add: ex_room_def NewReplicator_def ex_config_def)
  have "\<exists>k. repl_step (?R (NewSnapshotRing 4) [] [] noCounters []) (?R ex_ring1 [] [] k [])"
    using step_publish [of "ex_room (NewSnapshotRing 4) [] [] noCounters" "[]" "[]" ex_base]
    by (auto simp: Publish_def ex_publish ex_rings ex_room_tally)
  then obtain k1 where s1: "repl_step (?R (NewSnapshotRing 4) [] [] noCounters []) (?R ex_ring1 [] [] k1 [])" ..
  have "\<exists>k. repl_step (?R ex_ring1 [] [] k1 []) (?R ex_ring1 [(4, 0)] [ex_state0] k [])"
    using step_register [of "ex_room ex_ring1 [] [] k1" "[]" "[]" ex_info]
    by (auto simp: RegisterSession_def ex_states ex_info_ID ex_transport_def ex_room_tally)
  then obtain k2 where s2: "repl_step (?R ex_ring1 [] [] k1 []) (?R ex_ring1 [(4, 0)] [ex_state0] k2 [])" ..
  obtain k3 pf where p: "PrepareLatest (ex_room ex_ring1 [(4, 0)] [ex_state0] k2) 4
      = (ex_room ex_ring1 [(4, 0)] [ex_state1] k3, Inr pf)" "pf_Frame pf = ex_first" "pf_state pf = 0"
      "pf_snapshot pf = ex_base" "pf_sequence pf = 1" "pf_generation pf = 0" "pf_full pf" "\<not> pf_done pf"
    using ex_prepare [OF ex_rings(3) ex_states(2) _ ex_publish(1) enc, of k2] ex_frames by auto
  note s3 = step_prepare [OF p(1), of "[]" "[]"]
  obtain k4 pf' res where c: "Commit (ex_room ex_ring1 [(4, 0)] [ex_state1] k3) pf = (ex_room ex_ring1 [(4, 0)] [ex_state2] k4, pf', res)"
    using ex_states(3) p(2-8) by (auto simp: Commit_def Let_def ex_room_tally)
  have s4: "repl_step (?R ex_ring1 [(4, 0)] [ex_state1] k3 [pf]) (?R ex_ring1 [(4, 0)] [ex_state2] k4 [pf'])"
    using step_commit [of 0 "[pf]" "ex_room ex_ring1 [(4, 0)] [ex_state1] k3"] c by simp
  have s5: "repl_step (?R ex_ring1 [(4, 0)] [ex_state2] k4 [pf']) (?R ex_ring1 [(4, 0)] [ex_state3] k4 [pf'])"
    using step_acknowledge [of "ex_room ex_ring1 [(4, 0)] [ex_state2] k4" "[]" "[pf']" 4 1]
    by (simp add: repl_Acknowledge_def repl_session_def ex_rings ex_states ex_room_tally)
  have "\<exists>k. repl_step (?R ex_ring1 [(4, 0)] [ex_state3] k4 [pf']) (?R ex_ring2 [(4, 0)] [ex_state3] k [pf'])"
    using step_publish [of "ex_room ex_ring1 [(4, 0)] [ex_state3] k4" "[]" "[pf']" ex_cur]
    by (auto simp: Publish_def ex_publish ex_rings ex_room_tally)
  then obtain k6 where s6: "repl_step (?R ex_ring1 [(4, 0)] [ex_state3] k4 [pf']) (?R ex_ring2 [(4, 0)] [ex_state3] k6 [pf'])" ..
  have "repl_step\<^sup>*\<^sup>* (NewReplicator ex_config, [], []) (?R ex_ring2 [(4, 0)] [ex_state3] k6 [pf'])"
    unfolding s0 using s1 s2 s3 s4 s5 s6 by (simp add: converse_rtranclp_into_rtranclp)
  then show ?thesis unfolding reachable_def by blast
qed

section \<open>Properties\<close>

text \<open>
  C2. Every execution keeps the replicator consistent, whatever the transports and projectors do:
  published and committed snapshots are canonical and within the limits, every session keeps its
  invariant, the session map and the live sessions correspond one to one, a closed replicator has no
  sessions, and every prepared frame refers to a session and a canonical snapshot.
\<close>

theorem replicator_invariant:
  assumes "reachable config (r, w, pool)"
  shows "replicator_ok r \<and> (\<forall>pf \<in> set pool. prepared_ok r pf)"
  using reachable_ok [OF assms] by (simp add: system_ok_def)

theorem replicator_invariant_witness: "\<exists>k. replicator_ok (ex_room ex_ring2 [(4, 0)] [ex_state3] k)"
  using ex_reachable replicator_invariant [of ex_config "ex_room ex_ring2 [(4, 0)] [ex_state3] _" "[]"] by blast

definition session_history :: "SessionState \<Rightarrow> (u32, Snapshot) gomap \<times> u32 \<times> u32 \<times> u32" where
  "session_history s = (ss_sent s, ss_lastSent s, ss_ackTick s, ss_committed s)"

lemma map_update_same:
  assumes "f x = f (xs ! i)" "i < length xs"
  shows "map f (xs[i := x]) = map f xs"
  using assms by (simp add: map_update list_update_same_conv)

lemma prepare_history: "session_history (fst (session_prepare s t)) = session_history s"
  by (auto simp: session_prepare_def session_history_def Let_def split: option.splits)

lemma prepareLatest_history:
  assumes "a < length (rp_store r)"
  shows "map session_history (rp_store (fst (prepareLatest r a))) = map session_history (rp_store r)"
    "b \<noteq> a \<Longrightarrow> rp_store (fst (prepareLatest r a)) ! b = rp_store r ! b"
proof -
  have "rp_store (fst (prepareLatest r a)) = rp_store r
      \<or> (\<exists>t. rp_store (fst (prepareLatest r a)) = (rp_store r)[a := fst (session_prepare (rp_store r ! a) t)])"
    by (auto simp: prepareLatest_def split: option.splits prod.splits sum.splits) (metis fst_conv)+
  then show "map session_history (rp_store (fst (prepareLatest r a))) = map session_history (rp_store r)"
    "b \<noteq> a \<Longrightarrow> rp_store (fst (prepareLatest r a)) ! b = rp_store r ! b"
    using map_update_same [where f = session_history, OF prepare_history assms] by auto
qed

lemma Commit_Inl_store: "Commit r pf = (r', pf', Inl e) \<Longrightarrow> rp_store r' = rp_store r"
  by (auto simp: Commit_def Let_def commitPrepared_def split: if_splits prod.splits sum.splits)

lemma Commit_Inr_store:
  assumes "Commit r pf = (r', pf', Inr ())" "\<not> pf_done pf" "prepared_ok r pf" "replicator_ok r"
  shows "map_of (ss_sent (rp_store r' ! pf_state pf)) (sn_Tick (pf_snapshot pf)) = Some (pf_snapshot pf)"
    "b \<noteq> pf_state pf \<Longrightarrow> rp_store r' ! b = rp_store r ! b"
proof -
  obtain s res where c: "commitPrepared (rp_store r ! pf_state pf) (pf_snapshot pf) (pf_sequence pf)
      (pf_generation pf) (pf_full pf) = (s, res)" by fastforce
  have a: "pf_state pf < length (rp_store r)" using assms(3) by (simp add: prepared_ok_def)
  have res: "res = Inr ()" "rp_store r' = (rp_store r)[pf_state pf := s]" using Commit_unfold [OF assms(2) c] assms(1) by simp_all
  show "map_of (ss_sent (rp_store r' ! pf_state pf)) (sn_Tick (pf_snapshot pf)) = Some (pf_snapshot pf)"
    using commitPrepared_Inr(2) [OF replicator_ok_at(2) [OF assms(4) a] c [unfolded res(1)]] a res(2) by simp
  show "rp_store r' ! b = rp_store r ! b" if "b \<noteq> pf_state pf" using res(2) that by simp
qed

text \<open>
  C3. A send commits all or nothing: when \<open>SendLatest\<close> reports an error, no session has a new
  snapshot, tick or sequence that could be acknowledged; when it succeeds, the transport has accepted
  every packet of the frame, the projected snapshot is stored under its tick, and no other session
  was touched.
\<close>

theorem send_all_or_nothing:
  assumes "reachable config (r, w, pool)" "SendLatest r sid w = (r', w', fo, res)"
  shows "case res of
      Inl e \<Rightarrow> map session_history (rp_store r') = map session_history (rp_store r)
    | Inr _ \<Rightarrow> \<exists>a t r1 pf. repl_session r sid = Inr a \<and> rp_transport r = Some t \<and> prepareLatest r a = (r1, Inr pf)
        \<and> fo = Some (pf_Frame pf) \<and> transport_accepts t sid (pf_Datagrams pf) w w'
        \<and> map_of (ss_sent (rp_store r' ! a)) (sn_Tick (pf_snapshot pf)) = Some (pf_snapshot pf)
        \<and> (\<forall>b. b \<noteq> a \<longrightarrow> rp_store r' ! b = rp_store r ! b)"
  using assms(2)
proof (cases rule: SendLatest_cases)
  have r: "replicator_ok r" using reachable_ok [OF assms(1)] by (simp add: system_ok_def)
  note addr = session_addr(1) [OF r]
  {
    case (unprepared a e)
    then show ?thesis using prepareLatest_history(1) [OF addr [OF unprepared(1)]] by simp
  next
    case (unsent a r1 pf f e)
    then show ?thesis using prepareLatest_history(1) [OF addr [OF unsent(1)]] by simp
  next
    case (stale a r1 pf f g e pf' r3)
    then show ?thesis
      using prepareLatest_history(1) [OF addr [OF stale(1)]] Commit_Inl_store [OF stale(3)] by simp
  next
    case (sent a t r1 pf g pf')
    obtain pf: "pf_state pf = a" "\<not> pf_done pf" using sent(3) by (rule prepareLatest_Inr)
    have ok: "replicator_ok (tally g r1)" "prepared_ok (tally g r1) pf"
      using prepareLatest_evolves [OF r addr [OF sent(1)]] prepareLatest_prepared [OF r addr [OF sent(1)] sent(3)] sent(3)
      by (simp_all add: evolves_def prepared_ok_def)
    have "rp_store r' ! b = rp_store r ! b" if "b \<noteq> a" for b
      using Commit_Inr_store(2) [OF sent(5) pf(2) ok(2,1)] prepareLatest_history(2) [OF addr [OF sent(1)] that] sent(3) pf(1) that
      by simp
    with sent Commit_Inr_store(1) [OF sent(5) pf(2) ok(2,1)] pf(1) show ?thesis by auto
  }
qed simp

text \<open>
  C4. A removed session stays dead: a frame prepared for it can never be committed afterwards, even
  when a client registers again under the same identifier, and the attempt changes no session.
\<close>

theorem removed_session_dead:
  assumes "reachable config (r, w, pool)" "map_of (rp_sessions r) sid = Some a"
    and "RemoveSession r sid w = (r1, w1, removed)" "repl_step\<^sup>*\<^sup>* (r1, w1, pool) (r2, w2, pool2)"
    and "pf_state pf = a" "\<not> pf_done pf"
  shows "removed \<and> snd (snd (Commit r2 pf)) = Inl ErrSessionNotFound \<and> rp_store (fst (Commit r2 pf)) = rp_store r2"
proof -
  have ok: "system_ok (r, w, pool)" by (rule reachable_ok [OF assms(1)])
  then have a: "a < length (rp_store r)" "sid \<noteq> 0" using assms(2) by (auto simp: system_ok_def replicator_ok_def)
  then have r1: "removed" "a < length (rp_store r1)" "ss_closed (rp_store r1 ! a)"
    using assms(2,3) by (auto simp: RemoveSession_def)
  have step: "repl_step (r, w, pool) (r1, w1, pool)"
    using step_remove [of r w pool sid] assms(3) by simp
  have "ss_closed (rp_store r2 ! a)" "a < length (rp_store r2)"
    using repl_steps_closed [OF assms(4) repl_step_ok [OF step ok]] r1 by auto
  then have "commitPrepared (rp_store r2 ! pf_state pf) (pf_snapshot pf) (pf_sequence pf) (pf_generation pf) (pf_full pf)
      = (rp_store r2 ! pf_state pf, Inl ErrSessionNotFound)" by (simp add: commitPrepared_def assms(5))
  from Commit_unfold [OF assms(6) this] r1(1) show ?thesis by simp
qed


lemma ex_prepared:
  "\<exists>k' pf. prepareLatest (ex_room ex_ring2 [(4, 0)] [ex_state3] k) 0
      = (ex_room ex_ring2 [(4, 0)] [fst (session_prepare ex_state3 (sn_Tick ex_cur))] k', Inr pf)
    \<and> pf_Frame pf = ex_frame \<and> pf_state pf = 0 \<and> pf_snapshot pf = ex_cur \<and> pf_sequence pf = 2 \<and> pf_generation pf = 0
    \<and> \<not> pf_full pf \<and> \<not> pf_done pf \<and> length (pf_Datagrams pf) = 2"
proof -
  have enc: "EncodeFrame ex_frame ex_limits = Inr (projr (EncodeFrame ex_frame ex_limits))" using ex_frames(3) by simp
  have "repl_session (ex_room ex_ring2 [(4, 0)] [ex_state3] k) 4 = Inr 0" by (simp add: repl_session_def)
  with ex_prepare [OF ex_rings(4) ex_states(5) _ ex_publish(2) enc, of k] ex_frames ex_build show ?thesis
    by (auto simp: PrepareLatest_def)
qed

lemma ex_send: "\<exists>r' w' fo. SendLatest (ex_room ex_ring2 [(4, 0)] [ex_state3] k) 4 [] = (r', w', fo, Inr ())"
proof -
  let ?r = "ex_room ex_ring2 [(4, 0)] [ex_state3] k"
  let ?s = "fst (session_prepare ex_state3 (sn_Tick ex_cur))"
  obtain k' pf where prep: "prepareLatest ?r 0 = (ex_room ex_ring2 [(4, 0)] [?s] k', Inr pf)"
    and p: "pf_Frame pf = ex_frame" "pf_state pf = 0" "pf_snapshot pf = ex_cur" "pf_sequence pf = 2" "pf_generation pf = 0"
      "\<not> pf_full pf" "\<not> pf_done pf"
    using ex_prepared by blast
  have a: "repl_session ?r 4 = Inr 0" by (simp add: repl_session_def)
  have c: "snd (commitPrepared ?s ex_cur 2 0 False) = Inr ()" by code_simp
  have t: "tr_SendDatagram ex_transport sid p w = (w @ [p], None)" "tr_SendDatagramBatch ex_transport = None" for sid p w
    by (simp_all add: ex_transport_def)
  have "\<exists>n. send_packets ex_transport 4 ps w = (w @ ps, n, None)" for ps w
  proof (induction ps arbitrary: w)
    case (Cons p ps)
    obtain n where "send_packets ex_transport 4 ps (w @ [p]) = ((w @ [p]) @ ps, n, None)" using Cons.IH by blast
    then show ?case by (simp add: t)
  qed simp
  then obtain n where "send_packets ex_transport 4 (pf_Datagrams pf) [] = ([] @ pf_Datagrams pf, n, None)" by blast
  then have s: "send_frame ex_transport 4 (pf_Datagrams pf) [] = (pf_Datagrams pf, n, None)"
    by (simp add: send_frame_def t)
  show ?thesis
    unfolding SendLatest_unfold [OF a _ _ prep s, simplified] using c p
    by (auto simp: Commit_def Let_def ex_room_tally split: prod.splits sum.splits)
qed

theorem send_all_or_nothing_witness:
  "\<exists>k. map_of (ss_sent (rp_store (fst (SendLatest (ex_room ex_ring2 [(4, 0)] [ex_state3] k) 4 [])) ! 0)) 2 = Some ex_cur"
proof -
  obtain k pool where r: "reachable ex_config (ex_room ex_ring2 [(4, 0)] [ex_state3] k, [], pool)" using ex_reachable by blast
  obtain r' w' fo where s: "SendLatest (ex_room ex_ring2 [(4, 0)] [ex_state3] k) 4 [] = (r', w', fo, Inr ())"
    using ex_send by blast
  have "repl_session (ex_room ex_ring2 [(4, 0)] [ex_state3] k) 4 = Inr 0" "sn_Tick ex_cur = 2"
    by (simp_all add: repl_session_def ex_cur_def ex_meta_def)
  with send_all_or_nothing [OF r s] ex_prepared [of k]
  have "map_of (ss_sent (rp_store r' ! 0)) 2 = Some ex_cur" by auto
  with s show ?thesis by (intro exI [of _ k]) simp
qed

theorem removed_session_dead_witness:
  "\<exists>k. snd (snd (Commit (fst (RemoveSession (ex_room ex_ring2 [(4, 0)] [ex_state3] k) 4 []))
     \<lparr>pf_Frame = ex_frame, pf_Datagrams = [], pf_state = 0, pf_snapshot = ex_cur, pf_sequence = 2, pf_generation = 0,
      pf_full = False, pf_done = False, pf_commitErr = None\<rparr>)) = Inl ErrSessionNotFound"
proof -
  obtain k pool where r: "reachable ex_config (ex_room ex_ring2 [(4, 0)] [ex_state3] k, [], pool)" using ex_reachable by blast
  obtain r1 w1 removed where m: "RemoveSession (ex_room ex_ring2 [(4, 0)] [ex_state3] k) 4 [] = (r1, w1, removed)"
    by (rule prod_cases3)
  have "fst (RemoveSession (ex_room ex_ring2 [(4, 0)] [ex_state3] k) 4 []) = r1" using m by simp
  with removed_session_dead [OF r _ m rtranclp.rtrancl_refl, of 0] show ?thesis by (intro exI [of _ k]) simp
qed

end
