(* ===== verification/Sync_Stream.thy ===== *)
theory Sync_Stream
  imports Prelude "HOL-Library.Char_ord" "HOL-Library.List_Lexorder" "HOL-Library.Product_Lexorder"
begin

text \<open>
  Ordered state streams (\<open>src/syncstream/syncstream.go\<close>, \<open>lifecycle_journal.go\<close>, \<open>observability.go\<close>):
  sequencing, bounded replay history, acknowledgements, and the decision between a replay and a
  full snapshot.

  A method that holds the mutex of the history throughout is one step. \<open>Acknowledge\<close> and \<open>Recover\<close>
  take the mutex twice; they have two histories as arguments, the one \<open>h0\<close> that the first critical
  section reads and the one \<open>h\<close> that the second finds, which other callers may have changed. The journal of a history is an
  interface of the application: an optional recorder, a function on a state \<open>'j\<close> of its own that may
  refuse a mutation. The clock is an argument, as are the random epochs. Identifiers of observers
  and streams are integers, sequences are \<open>uint64\<close> and wrap. \<open>HistoryMetrics\<close> is exported as floating
  point gauges by \<open>ExportMetrics\<close>; that conversion is not modelled.
\<close>

section \<open>Data\<close>

datatype stream_error =
    ErrTopicRequired | ErrAckAhead | ErrAckEpochMismatch | ErrPayloadTooLarge | ErrStreamLimit
  | ErrSchemaTransitionRequiresFull | ErrSnapshotProviderRequired | ErrInvalidSnapshot
  | ErrHistoryStoreRequired | ErrHistoryJournalRequired | ErrStreamExternal nat

record Observer =
  ob_Kind :: u8
  ob_ID :: int
  ob_Session :: int
  ob_Scope :: string

record Stream =
  st_Topic :: string
  st_Key :: int

record Packet =
  pk_Observer :: Observer
  pk_Stream :: Stream
  pk_Epoch :: u64
  pk_Sequence :: u64
  pk_BaseSequence :: u64
  pk_SchemaVersion :: u32
  pk_Full :: bool
  pk_Critical :: bool
  pk_Payload :: bytes

definition Packet_Clone :: "Packet \<Rightarrow> Packet" where
  "Packet_Clone p = p\<lparr>pk_Payload := pk_Payload p\<rparr>"

record HistoryOptions =
  ho_MaxPacketsPerStream :: int
  ho_SchemaVersion :: u32
  ho_MaxPayloadBytes :: int
  ho_MaxStreams :: int
  ho_Epoch :: u64
  ho_IdleTTL :: int
  ho_PruneAcknowledged :: bool

record streamState =
  sm_latest :: u64
  sm_acked :: u64
  sm_dropped :: u64
  sm_pruned :: u64
  sm_schema :: u32
  sm_activity :: int
  sm_items :: "Packet list"

definition newStream :: streamState where
  "newStream = \<lparr>sm_latest = 0, sm_acked = 0, sm_dropped = 0, sm_pruned = 0, sm_schema = 0, sm_activity = 0,
     sm_items = []\<rparr>"

type_synonym streamKey = "Observer \<times> Stream"

record History =
  hi_options :: HistoryOptions
  hi_epoch :: u64
  hi_streams :: "(streamKey, streamState) gomap"

datatype HistoryMutationKind =
    HistoryMutationAppend | HistoryMutationAcknowledge | HistoryMutationDelete | HistoryMutationDeleteView
  | HistoryMutationSweep | HistoryMutationRotateEpoch | HistoryMutationOther

record HistoryMutation =
  mu_Version :: u32
  mu_Kind :: HistoryMutationKind
  mu_Epoch :: u64
  mu_Packet :: Packet
  mu_Observer :: Observer
  mu_Stream :: Stream
  mu_Sequence :: u64
  mu_Targets :: "streamKey list"
  mu_PruneAcknowledged :: bool

definition HistoryMutationVersion :: u32 where
  "HistoryMutationVersion = 1"

definition HistorySnapshotVersion :: u32 where
  "HistorySnapshotVersion = 1"

definition noObserver :: Observer where
  "noObserver = \<lparr>ob_Kind = 0, ob_ID = 0, ob_Session = 0, ob_Scope = []\<rparr>"

definition noStream :: Stream where
  "noStream = \<lparr>st_Topic = [], st_Key = 0\<rparr>"

definition noPacket :: Packet where
  "noPacket = \<lparr>pk_Observer = noObserver, pk_Stream = noStream, pk_Epoch = 0, pk_Sequence = 0, pk_BaseSequence = 0,
     pk_SchemaVersion = 0, pk_Full = False, pk_Critical = False, pk_Payload = []\<rparr>"

definition mutation :: "HistoryMutationKind \<Rightarrow> u64 \<Rightarrow> HistoryMutation" where
  "mutation kind epoch = \<lparr>mu_Version = HistoryMutationVersion, mu_Kind = kind, mu_Epoch = epoch, mu_Packet = noPacket,
     mu_Observer = noObserver, mu_Stream = noStream, mu_Sequence = 0, mu_Targets = [], mu_PruneAcknowledged = False\<rparr>"

type_synonym 'j recorder = "HistoryMutation \<Rightarrow> 'j \<Rightarrow> 'j \<times> stream_error option"

definition journal_Record :: "'j recorder option \<Rightarrow> HistoryMutation \<Rightarrow> 'j \<Rightarrow> 'j \<times> stream_error option" where
  "journal_Record jr m j = (case jr of None \<Rightarrow> (j, None) | Some rec \<Rightarrow> rec m j)"

section \<open>Appending and acknowledging\<close>

definition NewHistory :: "HistoryOptions \<Rightarrow> u64 \<Rightarrow> History" where
  "NewHistory options0 freshEpoch =
     (let o1 = (if ho_MaxPacketsPerStream options0 \<le> 0 then options0\<lparr>ho_MaxPacketsPerStream := 256\<rparr> else options0);
          o2 = (if ho_SchemaVersion o1 = 0 then o1\<lparr>ho_SchemaVersion := 1\<rparr> else o1);
          o3 = (if ho_Epoch o2 = 0 then o2\<lparr>ho_Epoch := freshEpoch\<rparr> else o2) in
      \<lparr>hi_options = o3, hi_epoch = ho_Epoch o3, hi_streams = []\<rparr>)"

definition retain :: "int \<Rightarrow> Packet list \<Rightarrow> u64 \<Rightarrow> Packet list \<times> u64" where
  "retain maxPackets items dropped =
     (let overflow = int (length items) - maxPackets in
      if overflow > 0 then (drop (nat overflow) items, dropped + of_int overflow) else (items, dropped))"

definition stamp :: "History \<Rightarrow> streamState \<Rightarrow> Packet \<Rightarrow> Packet" where
  "stamp h s p0 = p0\<lparr>pk_Epoch := hi_epoch h, pk_Sequence := sm_latest s + 1,
     pk_BaseSequence := (if pk_Full p0 then 0 else sm_latest s)\<rparr>"

definition Append :: "'j recorder option \<Rightarrow> int \<Rightarrow> History \<Rightarrow> 'j \<Rightarrow> Packet \<Rightarrow> History \<times> 'j \<times> (stream_error + Packet)" where
  "Append jr now h j packet =
     (if st_Topic (pk_Stream packet) = [] then (h, j, Inl ErrTopicRequired)
      else if ho_MaxPayloadBytes (hi_options h) > 0 \<and> int (length (pk_Payload packet)) > ho_MaxPayloadBytes (hi_options h)
      then (h, j, Inl ErrPayloadTooLarge)
      else
        let key = (pk_Observer packet, pk_Stream packet) in
        if map_of (hi_streams h) key = None \<and> ho_MaxStreams (hi_options h) > 0
          \<and> int (length (hi_streams h)) \<ge> ho_MaxStreams (hi_options h)
        then (h, j, Inl ErrStreamLimit)
        else
          let s = (case map_of (hi_streams h) key of None \<Rightarrow> newStream | Some s \<Rightarrow> s);
              p0 = (if pk_SchemaVersion packet = 0 then packet\<lparr>pk_SchemaVersion := ho_SchemaVersion (hi_options h)\<rparr> else packet) in
          if sm_latest s > 0 \<and> pk_SchemaVersion p0 \<noteq> sm_schema s \<and> \<not> pk_Full p0
          then (h, j, Inl ErrSchemaTransitionRequiresFull)
          else
            let p = Packet_Clone (stamp h s p0) in
            case journal_Record jr ((mutation HistoryMutationAppend (hi_epoch h))\<lparr>mu_Packet := Packet_Clone p\<rparr>) j of
              (j1, Some e) \<Rightarrow> (h, j1, Inl e)
            | (j1, None) \<Rightarrow>
                let (items, dropped) = retain (ho_MaxPacketsPerStream (hi_options h)) (sm_items s @ [p]) (sm_dropped s) in
                (h\<lparr>hi_streams := AList.update key
                     (s\<lparr>sm_latest := pk_Sequence p, sm_schema := pk_SchemaVersion p, sm_activity := now,
                        sm_items := items, sm_dropped := dropped\<rparr>) (hi_streams h)\<rparr>, j1, Inr (Packet_Clone p)))"

definition prune :: "u64 \<Rightarrow> Packet list \<Rightarrow> u64 \<Rightarrow> Packet list \<times> u64" where
  "prune sequence items pruned =
     (dropWhile (\<lambda>p. pk_Sequence p \<le> sequence) items,
      pruned + of_nat (length (takeWhile (\<lambda>p. pk_Sequence p \<le> sequence) items)))"

definition AcknowledgeEpoch ::
  "'j recorder option \<Rightarrow> int \<Rightarrow> History \<Rightarrow> 'j \<Rightarrow> Observer \<Rightarrow> Stream \<Rightarrow> u64 \<Rightarrow> u64 \<Rightarrow> History \<times> 'j \<times> (stream_error + unit)" where
  "AcknowledgeEpoch jr now h j observer stream epoch sequence =
     (if epoch \<noteq> hi_epoch h then (h, j, Inl ErrAckEpochMismatch)
      else case map_of (hi_streams h) (observer, stream) of
        None \<Rightarrow> (h, j, if sequence = 0 then Inr () else Inl ErrAckAhead)
      | Some s \<Rightarrow>
          if sequence > sm_latest s then (h, j, Inl ErrAckAhead)
          else if sequence > sm_acked s then
            (case journal_Record jr ((mutation HistoryMutationAcknowledge (hi_epoch h))\<lparr>mu_Observer := observer, mu_Stream := stream,
                   mu_Sequence := sequence, mu_PruneAcknowledged := ho_PruneAcknowledged (hi_options h)\<rparr>) j of
               (j1, Some e) \<Rightarrow> (h, j1, Inl e)
             | (j1, None) \<Rightarrow>
                 let (items, pruned) = (if ho_PruneAcknowledged (hi_options h) then prune sequence (sm_items s) (sm_pruned s)
                                        else (sm_items s, sm_pruned s)) in
                 (h\<lparr>hi_streams := AList.update (observer, stream)
                      (s\<lparr>sm_acked := sequence, sm_items := items, sm_pruned := pruned, sm_activity := now\<rparr>)
                      (hi_streams h)\<rparr>, j1, Inr ()))
          else (h, j, Inr ()))"

definition history_Epoch :: "History option \<Rightarrow> u64" where
  "history_Epoch h = (case h of None \<Rightarrow> 0 | Some h \<Rightarrow> hi_epoch h)"

definition stream_Acknowledge ::
  "'j recorder option \<Rightarrow> int \<Rightarrow> History \<Rightarrow> History \<Rightarrow> 'j \<Rightarrow> Observer \<Rightarrow> Stream \<Rightarrow> u64 \<Rightarrow> History \<times> 'j \<times> (stream_error + unit)" where
  "stream_Acknowledge jr now h0 h j observer stream sequence =
     AcknowledgeEpoch jr now h j observer stream (history_Epoch (Some h0)) sequence"

section \<open>Resynchronisation\<close>

datatype ResyncReason =
    ResyncNone | ResyncHistoryMissing | ResyncHistoryGap | ResyncSchemaMismatch | ResyncClientAhead | ResyncEpochMismatch

record ResyncRequest =
  rq_Observer :: Observer
  rq_Stream :: Stream
  rq_Epoch :: u64
  rq_AfterSequence :: u64
  rq_SchemaVersion :: u32

record ResyncResult =
  rr_Packets :: "Packet list"
  rr_FullRequired :: bool
  rr_Reason :: ResyncReason
  rr_LatestSequence :: u64

definition full_required :: "ResyncReason \<Rightarrow> u64 \<Rightarrow> ResyncResult" where
  "full_required reason latest = \<lparr>rr_Packets = [], rr_FullRequired = True, rr_Reason = reason, rr_LatestSequence = latest\<rparr>"

text \<open>The loop over the candidates after the first: the schema of the first, and an unbroken chain.\<close>

fun chain_holds :: "u32 \<Rightarrow> u64 \<Rightarrow> Packet list \<Rightarrow> bool" where
  "chain_holds schema previous [] = True"
| "chain_holds schema previous (p # ps) =
     (if pk_SchemaVersion p \<noteq> schema \<or> (\<not> pk_Full p \<and> pk_BaseSequence p \<noteq> previous) then False
      else chain_holds schema (pk_Sequence p) ps)"

definition Resync :: "History \<Rightarrow> ResyncRequest \<Rightarrow> ResyncResult" where
  "Resync h rq =
     (if rq_Epoch rq \<noteq> 0 \<and> rq_Epoch rq \<noteq> hi_epoch h then full_required ResyncEpochMismatch 0
      else case map_of (hi_streams h) (rq_Observer rq, rq_Stream rq) of
        None \<Rightarrow> full_required ResyncHistoryMissing 0
      | Some s \<Rightarrow>
          if rq_AfterSequence rq > sm_latest s then full_required ResyncClientAhead (sm_latest s)
          else if rq_SchemaVersion rq \<noteq> 0 \<and> sm_latest s > 0 \<and> sm_schema s \<noteq> rq_SchemaVersion rq
          then full_required ResyncSchemaMismatch (sm_latest s)
          else if rq_AfterSequence rq = sm_latest s
          then \<lparr>rr_Packets = [], rr_FullRequired = False, rr_Reason = ResyncNone, rr_LatestSequence = sm_latest s\<rparr>
          else case dropWhile (\<lambda>p. \<not> pk_Sequence p > rq_AfterSequence rq) (sm_items s) of
            [] \<Rightarrow> full_required ResyncHistoryGap (sm_latest s)
          | c # cs \<Rightarrow>
              if rq_SchemaVersion rq \<noteq> 0 \<and> pk_SchemaVersion c \<noteq> rq_SchemaVersion rq
              then full_required ResyncSchemaMismatch (sm_latest s)
              else if \<not> pk_Full c \<and> pk_BaseSequence c \<noteq> rq_AfterSequence rq
              then full_required ResyncHistoryGap (sm_latest s)
              else if \<not> chain_holds (pk_SchemaVersion c) (pk_Sequence c) cs
              then full_required ResyncHistoryGap (sm_latest s)
              else \<lparr>rr_Packets = map Packet_Clone (c # cs), rr_FullRequired = False, rr_Reason = ResyncNone,
                    rr_LatestSequence = sm_latest s\<rparr>)"

type_synonym SnapshotProvider = "ResyncRequest \<Rightarrow> stream_error + Packet"

definition Recover ::
  "'j recorder option \<Rightarrow> int \<Rightarrow> History \<Rightarrow> History \<Rightarrow> 'j \<Rightarrow> ResyncRequest \<Rightarrow> SnapshotProvider option
    \<Rightarrow> History \<times> 'j \<times> ResyncResult \<times> stream_error option" where
  "Recover jr now h0 h j rq provider =
     (let result = Resync h0 rq in
      if \<not> rr_FullRequired result then (h, j, result, None)
      else case provider of
        None \<Rightarrow> (h, j, result, Some ErrSnapshotProviderRequired)
      | Some snapshot \<Rightarrow>
          (case snapshot rq of
             Inl e \<Rightarrow> (h, j, result, Some e)
           | Inr packet \<Rightarrow>
               let p1 = packet\<lparr>pk_Observer := rq_Observer rq, pk_Stream := rq_Stream rq, pk_Full := True\<rparr>;
                   p2 = (if rq_SchemaVersion rq \<noteq> 0 then p1\<lparr>pk_SchemaVersion := rq_SchemaVersion rq\<rparr> else p1) in
               (case Append jr now h j p2 of
                  (h1, j1, Inl e) \<Rightarrow> (h1, j1, result, Some e)
                | (h1, j1, Inr p) \<Rightarrow>
                    (h1, j1, \<lparr>rr_Packets = [p], rr_FullRequired = False, rr_Reason = rr_Reason result,
                       rr_LatestSequence = pk_Sequence p\<rparr>, None))))"

section \<open>Status and metrics\<close>

record StreamStatus =
  ws_Epoch :: u64
  ws_LatestSequence :: u64
  ws_AckedSequence :: u64
  ws_OldestSequence :: u64
  ws_Pending :: u64
  ws_Dropped :: u64
  ws_Pruned :: u64
  ws_Retained :: nat

definition Status :: "History \<Rightarrow> Observer \<Rightarrow> Stream \<Rightarrow> StreamStatus" where
  "Status h observer stream =
     (case map_of (hi_streams h) (observer, stream) of
        None \<Rightarrow> \<lparr>ws_Epoch = 0, ws_LatestSequence = 0, ws_AckedSequence = 0, ws_OldestSequence = 0, ws_Pending = 0,
          ws_Dropped = 0, ws_Pruned = 0, ws_Retained = 0\<rparr>
      | Some s \<Rightarrow> \<lparr>ws_Epoch = hi_epoch h, ws_LatestSequence = sm_latest s, ws_AckedSequence = sm_acked s,
          ws_OldestSequence = (case sm_items s of [] \<Rightarrow> 0 | p # _ \<Rightarrow> pk_Sequence p),
          ws_Pending = sm_latest s - sm_acked s, ws_Dropped = sm_dropped s, ws_Pruned = sm_pruned s,
          ws_Retained = length (sm_items s)\<rparr>)"

record HistoryMetrics =
  hm_Epoch :: u64
  hm_Streams :: nat
  hm_Retained :: u64
  hm_Dropped :: u64
  hm_Pruned :: u64
  hm_Pending :: u64

definition Metrics :: "History \<Rightarrow> HistoryMetrics" where
  "Metrics h = fold (\<lambda>s m. m\<lparr>hm_Retained := hm_Retained m + of_nat (length (sm_items s)),
       hm_Dropped := hm_Dropped m + sm_dropped s, hm_Pruned := hm_Pruned m + sm_pruned s,
       hm_Pending := hm_Pending m + (sm_latest s - sm_acked s)\<rparr>) (govalues (hi_streams h))
     \<lparr>hm_Epoch = hi_epoch h, hm_Streams = length (hi_streams h), hm_Retained = 0, hm_Dropped = 0, hm_Pruned = 0,
      hm_Pending = 0\<rparr>"

record HealthOptions =
  hl_MaxPending :: u64
  hl_MaxDropped :: u64
  hl_MaxStreams :: int

record HealthStatus =
  ht_Healthy :: bool
  ht_Reason :: string
  ht_Metrics :: HistoryMetrics

definition Health :: "History \<Rightarrow> HealthOptions \<Rightarrow> HealthStatus" where
  "Health h opts =
     (let m = Metrics h;
          status = \<lparr>ht_Healthy = True, ht_Reason = [], ht_Metrics = m\<rparr> in
      if hl_MaxPending opts > 0 \<and> hm_Pending m > hl_MaxPending opts
      then status\<lparr>ht_Healthy := False, ht_Reason := ''pending_limit''\<rparr>
      else if hl_MaxDropped opts > 0 \<and> hm_Dropped m > hl_MaxDropped opts
      then status\<lparr>ht_Healthy := False, ht_Reason := ''dropped_limit''\<rparr>
      else if hl_MaxStreams opts > 0 \<and> int (hm_Streams m) > hl_MaxStreams opts
      then status\<lparr>ht_Healthy := False, ht_Reason := ''stream_limit''\<rparr>
      else status)"

section \<open>Export and import\<close>

record HistoryStreamSnapshot =
  hs_Observer :: Observer
  hs_Stream :: Stream
  hs_Latest :: u64
  hs_Acked :: u64
  hs_Dropped :: u64
  hs_Pruned :: u64
  hs_Schema :: u32
  hs_LastActivity :: int
  hs_Packets :: "Packet list"

record HistorySnapshot =
  sp_Version :: u32
  sp_Epoch :: u64
  sp_Streams :: "HistoryStreamSnapshot list"

definition export_stream :: "streamKey \<times> streamState \<Rightarrow> HistoryStreamSnapshot" where
  "export_stream = (\<lambda>((observer, stream), s). \<lparr>hs_Observer = observer, hs_Stream = stream, hs_Latest = sm_latest s,
     hs_Acked = sm_acked s, hs_Dropped = sm_dropped s, hs_Pruned = sm_pruned s, hs_Schema = sm_schema s,
     hs_LastActivity = sm_activity s, hs_Packets = map Packet_Clone (sm_items s)\<rparr>)"

definition export_key :: "HistoryStreamSnapshot \<Rightarrow> string \<times> u8 \<times> int \<times> int \<times> string \<times> int" where
  "export_key s = (ob_Scope (hs_Observer s), ob_Kind (hs_Observer s), ob_ID (hs_Observer s), ob_Session (hs_Observer s),
     st_Topic (hs_Stream s), st_Key (hs_Stream s))"

definition exportLocked :: "History \<Rightarrow> HistorySnapshot" where
  "exportLocked h = \<lparr>sp_Version = HistorySnapshotVersion, sp_Epoch = hi_epoch h,
     sp_Streams = sort_key export_key (map export_stream (hi_streams h))\<rparr>"

definition Export :: "History \<Rightarrow> HistorySnapshot" where
  "Export h = exportLocked h"

text \<open>The loop over the packets of one stream; \<open>previous\<close> is \<open>None\<close> at the first packet.\<close>

fun import_packets ::
  "HistoryOptions \<Rightarrow> u64 \<Rightarrow> HistoryStreamSnapshot \<Rightarrow> (u64 \<times> u32) option \<Rightarrow> Packet list \<Rightarrow> stream_error + Packet list" where
  "import_packets opts epoch item previous [] = Inr []"
| "import_packets opts epoch item previous (p # ps) =
     (if pk_Observer p \<noteq> hs_Observer item \<or> pk_Stream p \<noteq> hs_Stream item \<or> pk_Epoch p \<noteq> epoch \<or> pk_Sequence p = 0
         \<or> pk_SchemaVersion p = 0 then Inl ErrInvalidSnapshot
      else if ho_MaxPayloadBytes opts > 0 \<and> int (length (pk_Payload p)) > ho_MaxPayloadBytes opts then Inl ErrPayloadTooLarge
      else if (case previous of
             None \<Rightarrow> \<not> pk_Full p \<and> pk_BaseSequence p + 1 \<noteq> pk_Sequence p
           | Some (sequence, schema) \<Rightarrow> pk_Sequence p \<noteq> sequence + 1 \<or> (\<not> pk_Full p \<and> pk_BaseSequence p \<noteq> sequence)
               \<or> (pk_SchemaVersion p \<noteq> schema \<and> \<not> pk_Full p))
      then Inl ErrInvalidSnapshot
      else if pk_Full p \<and> pk_BaseSequence p \<noteq> 0 then Inl ErrInvalidSnapshot
      else try_bind (import_packets opts epoch item (Some (pk_Sequence p, pk_SchemaVersion p)) ps) (\<lambda>out.
        Inr (Packet_Clone p # out)))"

definition import_stream :: "HistoryOptions \<Rightarrow> int \<Rightarrow> u64 \<Rightarrow> HistoryStreamSnapshot \<Rightarrow> stream_error + streamState" where
  "import_stream opts now epoch item =
     (if hs_Acked item > hs_Latest item
         \<or> (hs_Latest item > 0 \<and> length (hs_Packets item) = 0 \<and> hs_Acked item \<noteq> hs_Latest item) then Inl ErrInvalidSnapshot
      else
        let activity = (if hs_LastActivity item = 0 then now else hs_LastActivity item) in
        try_bind (import_packets opts epoch item None (hs_Packets item)) (\<lambda>items.
          if length items > 0 \<and> pk_Sequence (last items) \<noteq> hs_Latest item then Inl ErrInvalidSnapshot
          else
            let (kept, dropped) = retain (ho_MaxPacketsPerStream opts) items (hs_Dropped item);
                schema = (if length kept > 0 then pk_SchemaVersion (last kept) else hs_Schema item) in
            if hs_Latest item > 0 \<and> schema = 0 then Inl ErrInvalidSnapshot
            else Inr \<lparr>sm_latest = hs_Latest item, sm_acked = hs_Acked item, sm_dropped = dropped, sm_pruned = hs_Pruned item,
                   sm_schema = schema, sm_activity = activity, sm_items = kept\<rparr>))"

fun import_streams ::
  "HistoryOptions \<Rightarrow> int \<Rightarrow> u64 \<Rightarrow> (streamKey, streamState) gomap \<Rightarrow> HistoryStreamSnapshot list
    \<Rightarrow> stream_error + (streamKey, streamState) gomap" where
  "import_streams opts now epoch streams [] = Inr streams"
| "import_streams opts now epoch streams (item # items) =
     (if st_Topic (hs_Stream item) = [] then Inl ErrInvalidSnapshot
      else if map_of streams (hs_Observer item, hs_Stream item) \<noteq> None then Inl ErrInvalidSnapshot
      else try_bind (import_stream opts now epoch item) (\<lambda>s.
        import_streams opts now epoch (AList.update (hs_Observer item, hs_Stream item) s streams) items))"

definition Import :: "int \<Rightarrow> History \<Rightarrow> HistorySnapshot \<Rightarrow> stream_error + History" where
  "Import now h snapshot =
     (if sp_Version snapshot \<noteq> HistorySnapshotVersion then Inl ErrInvalidSnapshot
      else if sp_Epoch snapshot = 0 then Inl ErrInvalidSnapshot
      else if ho_MaxStreams (hi_options h) > 0 \<and> int (length (sp_Streams snapshot)) > ho_MaxStreams (hi_options h)
      then Inl ErrStreamLimit
      else try_bind (import_streams (hi_options h) now (sp_Epoch snapshot) [] (sp_Streams snapshot)) (\<lambda>streams.
        Inr (h\<lparr>hi_streams := streams, hi_epoch := sp_Epoch snapshot\<rparr>)))"

type_synonym 'd HistoryStore = "('d \<Rightarrow> stream_error + HistorySnapshot) \<times> (HistorySnapshot \<Rightarrow> 'd \<Rightarrow> 'd \<times> stream_error option)"

definition Save :: "History \<Rightarrow> 'd HistoryStore option \<Rightarrow> 'd \<Rightarrow> 'd \<times> stream_error option" where
  "Save h store d = (case store of None \<Rightarrow> (d, Some ErrHistoryStoreRequired) | Some (_, save) \<Rightarrow> save (Export h) d)"

definition Restore :: "int \<Rightarrow> History \<Rightarrow> 'd HistoryStore option \<Rightarrow> 'd \<Rightarrow> stream_error + History" where
  "Restore now h store d =
     (case store of None \<Rightarrow> Inl ErrHistoryStoreRequired | Some (load, _) \<Rightarrow> try_bind (load d) (Import now h))"

section \<open>Lifecycle\<close>

definition NewHistoryWithJournal ::
  "HistoryOptions \<Rightarrow> u64 \<Rightarrow> int \<Rightarrow> ('j \<Rightarrow> stream_error + HistorySnapshot) option \<Rightarrow> 'j \<Rightarrow> stream_error + History" where
  "NewHistoryWithJournal options freshEpoch now journal j =
     (case journal of
        None \<Rightarrow> Inl ErrHistoryJournalRequired
      | Some load \<Rightarrow> try_bind (load j) (Import now (NewHistory options freshEpoch)))"

definition history_Checkpoint ::
  "(HistorySnapshot \<Rightarrow> 'j \<Rightarrow> 'j \<times> stream_error option) option \<Rightarrow> History \<Rightarrow> 'j \<Rightarrow> 'j \<times> stream_error option" where
  "history_Checkpoint journal h j =
     (case journal of None \<Rightarrow> (j, Some ErrHistoryJournalRequired) | Some checkpoint \<Rightarrow> checkpoint (exportLocked h) j)"

definition RotateEpoch :: "'j recorder option \<Rightarrow> u64 \<Rightarrow> History \<Rightarrow> 'j \<Rightarrow> u64 \<Rightarrow> History \<times> 'j \<times> (stream_error + unit)" where
  "RotateEpoch jr freshEpoch h j epoch0 =
     (let epoch = (if epoch0 = 0 then freshEpoch else epoch0) in
      if epoch = hi_epoch h then (h, j, Inr ())
      else case journal_Record jr (mutation HistoryMutationRotateEpoch epoch) j of
        (j1, Some e) \<Rightarrow> (h, j1, Inl e)
      | (j1, None) \<Rightarrow> (h\<lparr>hi_epoch := epoch, hi_streams := []\<rparr>, j1, Inr ()))"

definition DeleteStream :: "'j recorder option \<Rightarrow> History \<Rightarrow> 'j \<Rightarrow> Observer \<Rightarrow> Stream \<Rightarrow> History \<times> 'j \<times> (stream_error + unit)" where
  "DeleteStream jr h j observer stream =
     (if map_of (hi_streams h) (observer, stream) = None then (h, j, Inr ())
      else case journal_Record jr ((mutation HistoryMutationDelete (hi_epoch h))\<lparr>mu_Observer := observer, mu_Stream := stream\<rparr>) j of
        (j1, Some e) \<Rightarrow> (h, j1, Inl e)
      | (j1, None) \<Rightarrow> (h\<lparr>hi_streams := AList.delete (observer, stream) (hi_streams h)\<rparr>, j1, Inr ()))"

definition DeleteObserver :: "'j recorder option \<Rightarrow> History \<Rightarrow> 'j \<Rightarrow> Observer \<Rightarrow> History \<times> 'j \<times> (stream_error + nat)" where
  "DeleteObserver jr h j observer =
     (let count' = length (filter (\<lambda>(key, _). fst key = observer) (hi_streams h)) in
      if count' = 0 then (h, j, Inr 0)
      else case journal_Record jr ((mutation HistoryMutationDeleteView (hi_epoch h))\<lparr>mu_Observer := observer\<rparr>) j of
        (j1, Some e) \<Rightarrow> (h, j1, Inl e)
      | (j1, None) \<Rightarrow> (h\<lparr>hi_streams := filter (\<lambda>(key, _). fst key \<noteq> observer) (hi_streams h)\<rparr>, j1, Inr count'))"

definition SweepIdle :: "'j recorder option \<Rightarrow> int \<Rightarrow> History \<Rightarrow> 'j \<Rightarrow> History \<times> 'j \<times> (stream_error + nat)" where
  "SweepIdle jr now h j =
     (if ho_IdleTTL (hi_options h) \<le> 0 then (h, j, Inr 0)
      else
        let cutoff = now - ho_IdleTTL (hi_options h);
            keys = map fst (filter (\<lambda>(_, s). sm_activity s \<noteq> 0 \<and> sm_activity s \<le> cutoff) (hi_streams h));
            (j1, err) = (if length keys > 0
              then journal_Record jr ((mutation HistoryMutationSweep (hi_epoch h))\<lparr>mu_Targets := keys\<rparr>) j else (j, None)) in
        case err of
          Some e \<Rightarrow> (h, j1, Inl e)
        | None \<Rightarrow> (h\<lparr>hi_streams := fold AList.delete keys (hi_streams h)\<rparr>, j1, Inr (length keys)))"

section \<open>The invariant, with the complete log of every stream\<close>

lemma Packet_Clone_id [simp]: "Packet_Clone p = p"
  by (simp add: Packet_Clone_def)

definition packet_key :: "Packet \<Rightarrow> streamKey" where
  "packet_key p = (pk_Observer p, pk_Stream p)"

text \<open>Packet number \<open>i\<close> (from 0) of a stream; \<open>schema\<close> is the schema of its predecessor.\<close>

definition entry_ok :: "HistoryOptions \<Rightarrow> u64 \<Rightarrow> streamKey \<Rightarrow> nat \<Rightarrow> u32 \<Rightarrow> Packet \<Rightarrow> bool" where
  "entry_ok opts epoch key i schema p \<longleftrightarrow> packet_key p = key \<and> pk_Epoch p = epoch \<and> pk_Sequence p = of_nat (Suc i)
     \<and> pk_BaseSequence p = (if pk_Full p then 0 else of_nat i) \<and> pk_SchemaVersion p \<noteq> 0
     \<and> (ho_MaxPayloadBytes opts > 0 \<longrightarrow> int (length (pk_Payload p)) \<le> ho_MaxPayloadBytes opts)
     \<and> (0 < i \<and> \<not> pk_Full p \<longrightarrow> pk_SchemaVersion p = schema)"

text \<open>All packets ever appended to a stream since it was created.\<close>

definition log_ok :: "HistoryOptions \<Rightarrow> u64 \<Rightarrow> streamKey \<Rightarrow> Packet list \<Rightarrow> bool" where
  "log_ok opts epoch key all \<longleftrightarrow> length all < 2 ^ 64 \<and> st_Topic (snd key) \<noteq> []
     \<and> (\<forall>i < length all. entry_ok opts epoch key i (pk_SchemaVersion (all ! (i - 1))) (all ! i))"

definition stream_ok :: "HistoryOptions \<Rightarrow> u64 \<Rightarrow> streamKey \<Rightarrow> Packet list \<Rightarrow> streamState \<Rightarrow> bool" where
  "stream_ok opts epoch key all s \<longleftrightarrow> log_ok opts epoch key all \<and> all \<noteq> [] \<and> sm_latest s = of_nat (length all)
     \<and> sm_schema s = pk_SchemaVersion (last all) \<and> sm_acked s \<le> sm_latest s
     \<and> (\<exists>n \<le> length all. sm_items s = drop n all) \<and> (sm_items s = [] \<longrightarrow> sm_acked s = sm_latest s)
     \<and> int (length (sm_items s)) \<le> ho_MaxPacketsPerStream opts"

definition options_ok :: "HistoryOptions \<Rightarrow> bool" where
  "options_ok opts \<longleftrightarrow> ho_MaxPacketsPerStream opts > 0 \<and> ho_SchemaVersion opts \<noteq> 0"

definition key_ok :: "HistoryOptions \<Rightarrow> u64 \<Rightarrow> streamKey \<Rightarrow> Packet list \<Rightarrow> streamState option \<Rightarrow> bool" where
  "key_ok opts epoch key all so \<longleftrightarrow> (case so of None \<Rightarrow> all = [] | Some s \<Rightarrow> stream_ok opts epoch key all s)"

definition history_ok :: "(streamKey \<Rightarrow> Packet list) \<Rightarrow> History \<Rightarrow> bool" where
  "history_ok log h \<longleftrightarrow> options_ok (hi_options h) \<and> hi_epoch h \<noteq> 0 \<and> gomap_ok (hi_streams h)
     \<and> (ho_MaxStreams (hi_options h) > 0 \<longrightarrow> int (length (hi_streams h)) \<le> ho_MaxStreams (hi_options h))
     \<and> (\<forall>key. key_ok (hi_options h) (hi_epoch h) key (log key) (map_of (hi_streams h) key))"

lemma stream_okI:
  assumes "log_ok opts epoch key all" "all \<noteq> []" "sm_latest s = of_nat (length all)" "sm_schema s = pk_SchemaVersion (last all)"
    "sm_acked s \<le> sm_latest s" "m \<le> length all" "sm_items s = drop m all" "m = length all \<Longrightarrow> sm_acked s = sm_latest s"
    "int (length all) - int m \<le> ho_MaxPacketsPerStream opts"
  shows "stream_ok opts epoch key all s"
  using assms unfolding stream_ok_def by auto

lemma history_okD:
  assumes "history_ok log h"
  shows "key_ok (hi_options h) (hi_epoch h) key (log key) (map_of (hi_streams h) key)"
    "map_of (hi_streams h) key = Some s \<Longrightarrow> stream_ok (hi_options h) (hi_epoch h) key (log key) s"
proof -
  show "key_ok (hi_options h) (hi_epoch h) key (log key) (map_of (hi_streams h) key)"
    using assms unfolding history_ok_def by blast
  then show "map_of (hi_streams h) key = Some s \<Longrightarrow> stream_ok (hi_options h) (hi_epoch h) key (log key) s"
    by (simp add: key_ok_def)
qed

lemma history_okI:
  assumes "options_ok (hi_options h)" "hi_epoch h \<noteq> 0" "gomap_ok (hi_streams h)"
    "ho_MaxStreams (hi_options h) > 0 \<Longrightarrow> int (length (hi_streams h)) \<le> ho_MaxStreams (hi_options h)"
    "\<And>key. key_ok (hi_options h) (hi_epoch h) key (log key) (map_of (hi_streams h) key)"
  shows "history_ok log h"
  using assms unfolding history_ok_def by blast

lemma unat_u64: "n < 2 ^ 64 \<Longrightarrow> unat (of_nat n :: u64) = n"
  by (simp add: unat_of_nat take_bit_nat_eq_self_iff)

lemma of_nat_u64_less: "m < 2 ^ 64 \<Longrightarrow> n < 2 ^ 64 \<Longrightarrow> (of_nat m :: u64) < of_nat n \<longleftrightarrow> m < n"
  by (simp add: word_less_nat_alt unat_u64)

lemma of_nat_u64_eq: "m < 2 ^ 64 \<Longrightarrow> n < 2 ^ 64 \<Longrightarrow> (of_nat m :: u64) = of_nat n \<longleftrightarrow> m = n"
  by (metis unat_u64)

lemma retain_items: "0 < c \<Longrightarrow> fst (retain c items d) = drop (length items - nat c) items"
  by (auto simp: retain_def Let_def nat_diff_distrib)

lemma retain_suffix:
  assumes "0 < c" "n \<le> length all"
  obtains m where "m \<le> length all" "int (length (all @ [p])) - int m \<le> c" "fst (retain c (drop n all @ [p]) d) = drop m (all @ [p])"
proof
  let ?m = "length (drop n all @ [p]) - nat c + n"
  have *: "drop n all @ [p] = drop n (all @ [p])" using assms(2) by simp
  show "fst (retain c (drop n all @ [p]) d) = drop ?m (all @ [p])"
    unfolding retain_items [OF assms(1)] by (simp only: * drop_drop)
qed (use assms in auto)

text \<open>The two outcomes of an append.\<close>

lemma Append_Inl: "Append jr now h j packet = (h', j', Inl e) \<Longrightarrow> h' = h"
  by (auto simp: Append_def Let_def split: if_splits option.splits prod.splits)

lemma Append_Inr:
  assumes "Append jr now h j packet = (h', j', Inr p)"
  defines "key \<equiv> (pk_Observer packet, pk_Stream packet)"
  defines "s \<equiv> case map_of (hi_streams h) key of None \<Rightarrow> newStream | Some s \<Rightarrow> s"
  defines "p0 \<equiv> if pk_SchemaVersion packet = 0 then packet\<lparr>pk_SchemaVersion := ho_SchemaVersion (hi_options h)\<rparr> else packet"
  shows "p = stamp h s p0" "st_Topic (pk_Stream packet) \<noteq> []"
    "ho_MaxPayloadBytes (hi_options h) > 0 \<Longrightarrow> int (length (pk_Payload packet)) \<le> ho_MaxPayloadBytes (hi_options h)"
    "map_of (hi_streams h) key = None \<Longrightarrow> ho_MaxStreams (hi_options h) > 0 \<Longrightarrow>
       int (length (hi_streams h)) < ho_MaxStreams (hi_options h)"
    "sm_latest s > 0 \<Longrightarrow> \<not> pk_Full p0 \<Longrightarrow> pk_SchemaVersion p0 = sm_schema s"
    "h' = h\<lparr>hi_streams := AList.update key (s\<lparr>sm_latest := pk_Sequence p, sm_schema := pk_SchemaVersion p, sm_activity := now,
       sm_items := fst (retain (ho_MaxPacketsPerStream (hi_options h)) (sm_items s @ [p]) (sm_dropped s)),
       sm_dropped := snd (retain (ho_MaxPacketsPerStream (hi_options h)) (sm_items s @ [p]) (sm_dropped s))\<rparr>) (hi_streams h)\<rparr>"
    "journal_Record jr ((mutation HistoryMutationAppend (hi_epoch h))\<lparr>mu_Packet := p\<rparr>) j = (j', None)"
  using assms(1) unfolding Append_def Let_def key_def [symmetric] s_def [symmetric] p0_def [symmetric]
  by (auto split: if_splits prod.splits option.splits simp: not_le)

lemma log_ok_snoc:
  assumes "log_ok opts epoch key all" "length all + 1 < 2 ^ 64" "entry_ok opts epoch key (length all) (pk_SchemaVersion (last all)) p"
  shows "log_ok opts epoch key (all @ [p])"
proof -
  have "entry_ok opts epoch key i (pk_SchemaVersion ((all @ [p]) ! (i - 1))) ((all @ [p]) ! i)" if "i < length (all @ [p])" for i
  proof (cases "i < length all")
    case True
    with assms(1) show ?thesis by (auto simp: log_ok_def nth_append)
  next
    case False
    with that have "i = length all" by simp
    then show ?thesis using assms(3) by (cases all rule: rev_cases) (simp_all add: nth_append entry_ok_def)
  qed
  moreover have "length (all @ [p]) < 2 ^ 64" using assms(2) by (simp only: length_append list.size add_0_right One_nat_def)
  ultimately show ?thesis using assms(1) unfolding log_ok_def by blast
qed

lemma log_ok_Nil: "st_Topic (snd key) \<noteq> [] \<Longrightarrow> log_ok opts epoch key []"
  by (simp add: log_ok_def)

lemma Append_stream_ok:
  assumes "history_ok log h" "Append jr now h j packet = (h', j', Inr p)" "length (log (packet_key packet)) + 1 < 2 ^ 64"
  shows "history_ok (log(packet_key packet := log (packet_key packet) @ [p])) h'"
proof -
  let ?opts = "hi_options h"
  define key where "key = (pk_Observer packet, pk_Stream packet)"
  define s where "s = (case map_of (hi_streams h) key of None \<Rightarrow> newStream | Some s \<Rightarrow> s)"
  define p0 where "p0 = (if pk_SchemaVersion packet = 0 then packet\<lparr>pk_SchemaVersion := ho_SchemaVersion ?opts\<rparr> else packet)"
  define all where "all = log key"
  have k: "packet_key packet = key" by (simp add: packet_key_def key_def)
  note A = Append_Inr [OF assms(2), folded key_def, folded s_def p0_def]
  have opts: "0 < ho_MaxPacketsPerStream ?opts" "ho_SchemaVersion ?opts \<noteq> 0" using assms(1) by (auto simp: history_ok_def options_ok_def)
  have len: "length all + 1 < 2 ^ 64" using assms(3) by (simp add: k all_def)
  have topic: "st_Topic (snd key) \<noteq> []" using A(2) by (simp add: key_def)
  have old: "log_ok ?opts (hi_epoch h) key all \<and> sm_latest s = of_nat (length all) \<and> (\<exists>n \<le> length all. sm_items s = drop n all)
    \<and> (all \<noteq> [] \<longrightarrow> sm_schema s = pk_SchemaVersion (last all)) \<and> sm_acked s \<le> sm_latest s"
    using history_okD(1) [OF assms(1), of key] topic
    by (cases "map_of (hi_streams h) key") (auto simp: key_ok_def s_def all_def newStream_def log_ok_Nil stream_ok_def)
  have p: "packet_key p = key" "pk_Epoch p = hi_epoch h" "pk_Sequence p = of_nat (Suc (length all))"
    "pk_BaseSequence p = (if pk_Full p then 0 else of_nat (length all))" "pk_SchemaVersion p \<noteq> 0"
    "pk_Payload p = pk_Payload packet" "pk_SchemaVersion p = pk_SchemaVersion p0" "pk_Full p = pk_Full p0"
    using opts(2) old unfolding A(1) by (simp_all add: stamp_def packet_key_def key_def p0_def)
  have log: "log_ok ?opts (hi_epoch h) key (all @ [p])"
  proof (rule log_ok_snoc [OF _ len])
    show "log_ok ?opts (hi_epoch h) key all" using old by blast
    have "pk_SchemaVersion p = pk_SchemaVersion (last all)" if "0 < length all" "\<not> pk_Full p"
    proof -
      have "unat (of_nat (length all) :: u64) = length all" by (rule unat_u64) (use len in linarith)
      then have "sm_latest s > 0" using old that(1) by (simp add: word_less_nat_alt)
      with A(5) old that p(7,8) show ?thesis by simp
    qed
    with p(1-5) A(3) p(6) show "entry_ok ?opts (hi_epoch h) key (length all) (pk_SchemaVersion (last all)) p"
      unfolding entry_ok_def by simp
  qed
  obtain n where n: "n \<le> length all" "sm_items s = drop n all" using old by blast
  obtain m where m: "m \<le> length all" "int (length (all @ [p])) - int m \<le> ho_MaxPacketsPerStream ?opts"
    and items: "fst (retain (ho_MaxPacketsPerStream ?opts) (sm_items s @ [p]) (sm_dropped s)) = drop m (all @ [p])"
    using retain_suffix [OF opts(1) n(1)] unfolding n(2) by blast
  have un: "unat (of_nat (length all) :: u64) = length all" "unat (of_nat (Suc (length all)) :: u64) = Suc (length all)"
    by (rule unat_u64; use len in linarith)+
  have "unat (sm_acked s) \<le> length all" using old un(1) unfolding word_le_nat_alt by auto
  then have acked: "sm_acked s \<le> pk_Sequence p" unfolding p(3) word_le_nat_alt un(2) by linarith
  have new: "stream_ok ?opts (hi_epoch h) key (all @ [p])
      (s\<lparr>sm_latest := pk_Sequence p, sm_schema := pk_SchemaVersion p, sm_activity := now,
       sm_items := drop m (all @ [p]), sm_dropped := d\<rparr>)" for d
    
    by (rule stream_okI [OF log]) (use p(3) m acked in simp_all)
  have "ho_MaxStreams ?opts > 0 \<Longrightarrow> int (length (AList.update key x (hi_streams h))) \<le> ho_MaxStreams ?opts" for x
    using assms(1) A(4) by (auto simp: history_ok_def gomap_length_update domIff)
  moreover have "key_ok ?opts (hi_epoch h) k' ((log(key := all @ [p])) k') (map_of (hi_streams h') k')" for k'
    using history_okD(1) [OF assms(1), of k'] new unfolding A(6) items by (cases "k' = key") (simp_all add: key_ok_def)
  ultimately show ?thesis
    using assms(1) unfolding k all_def [symmetric] A(6) by (intro history_okI) (simp_all add: history_ok_def)
qed

lemma dropWhile_index:
  assumes "\<And>i. i < length xs \<Longrightarrow> P (xs ! i) \<longleftrightarrow> i < k"
  shows "dropWhile P xs = drop k xs"
  using assms
proof (induction xs arbitrary: k)
  case (Cons x xs)
  have hd: "P x \<longleftrightarrow> 0 < k" using Cons.prems [of 0] by simp
  have tl: "P (xs ! i) \<longleftrightarrow> i < k - 1" if "i < length xs" for i using Cons.prems [of "Suc i"] that by auto
  show ?case
  proof (cases k)
    case 0
    with hd show ?thesis by simp
  next
    case (Suc k')
    with hd Cons.IH [OF tl] show ?thesis by simp
  qed
qed simp

lemma log_ok_entry: "log_ok opts epoch key all \<Longrightarrow> i < length all \<Longrightarrow>
    entry_ok opts epoch key i (pk_SchemaVersion (all ! (i - 1))) (all ! i)"
  by (simp add: log_ok_def)

lemma log_sequence:
  assumes "log_ok opts epoch key all" "i < length all"
  shows "unat (pk_Sequence (all ! i)) = Suc i"
proof -
  have "pk_Sequence (all ! i) = of_nat (Suc i)" using log_ok_entry [OF assms] by (simp only: entry_ok_def)
  moreover have "Suc i < 2 ^ 64" using assms unfolding log_ok_def by linarith
  ultimately show ?thesis by (simp only: unat_u64)
qed

lemma items_after:
  assumes "log_ok opts epoch key all" "n \<le> length all"
  shows "dropWhile (\<lambda>p. pk_Sequence p \<le> q) (drop n all) = drop (max n (unat q)) all"
proof -
  have "pk_Sequence (drop n all ! i) \<le> q \<longleftrightarrow> i < unat q - n" if "i < length (drop n all)" for i
    using log_sequence [OF assms(1), of "n + i"] that assms(2) unfolding word_le_nat_alt by auto
  from dropWhile_index [OF this] show ?thesis by (simp add: max_def add.commute)
qed

lemma stream_okE:
  assumes "stream_ok opts epoch key all s"
  obtains n where "log_ok opts epoch key all" "all \<noteq> []" "sm_latest s = of_nat (length all)" "unat (sm_latest s) = length all"
    "sm_schema s = pk_SchemaVersion (last all)" "sm_acked s \<le> sm_latest s" "n \<le> length all" "sm_items s = drop n all"
    "n = length all \<Longrightarrow> sm_acked s = sm_latest s" "int (length all) - int n \<le> ho_MaxPacketsPerStream opts"
proof -
  obtain n where n: "n \<le> length all" "sm_items s = drop n all" using assms unfolding stream_ok_def by blast
  have l: "log_ok opts epoch key all" "sm_latest s = of_nat (length all)" using assms by (simp_all add: stream_ok_def)
  have "unat (sm_latest s) = length all" unfolding l(2) by (rule unat_u64) (use l(1) in \<open>simp only: log_ok_def\<close>)
  moreover have "int (length (drop n all)) \<le> ho_MaxPacketsPerStream opts" using assms n(2) by (simp add: stream_ok_def)
  then have "int (length all) - int n \<le> ho_MaxPacketsPerStream opts" using n(1) by (simp add: of_nat_diff)
  ultimately show thesis using that n l assms by (auto simp: stream_ok_def)
qed

lemma history_ok_change:
  assumes "history_ok log h" "gomap_ok streams" "length streams \<le> length (hi_streams h)"
    "\<And>key. key_ok (hi_options h) (hi_epoch h) key (log' key) (map_of streams key)"
  shows "history_ok log' (h\<lparr>hi_streams := streams\<rparr>)"
proof (rule history_okI)
  show "int (length (hi_streams (h\<lparr>hi_streams := streams\<rparr>))) \<le> ho_MaxStreams (hi_options (h\<lparr>hi_streams := streams\<rparr>))"
    if "0 < ho_MaxStreams (hi_options (h\<lparr>hi_streams := streams\<rparr>))"
    using assms(1,3) that by (simp add: history_ok_def)
qed (use assms in \<open>simp_all add: history_ok_def\<close>)

text \<open>Acknowledging: the items that go are exactly the ones acknowledged.\<close>

lemma AcknowledgeEpoch_cases:
  assumes "AcknowledgeEpoch jr now h j observer stream epoch q = (h', j', res)"
  obtains (same) "h' = h" "j' = j \<or> (\<exists>m e. journal_Record jr m j = (j', Some e))"
  | (progress) s items pruned where "map_of (hi_streams h) (observer, stream) = Some s" "q \<le> sm_latest s" "sm_acked s < q"
      "items = (if ho_PruneAcknowledged (hi_options h) then dropWhile (\<lambda>p. pk_Sequence p \<le> q) (sm_items s) else sm_items s)"
      "epoch = hi_epoch h" "res = Inr ()"
      "h' = h\<lparr>hi_streams := AList.update (observer, stream)
         (s\<lparr>sm_acked := q, sm_items := items, sm_pruned := pruned, sm_activity := now\<rparr>) (hi_streams h)\<rparr>"
      "pruned = (if ho_PruneAcknowledged (hi_options h) then snd (prune q (sm_items s) (sm_pruned s)) else sm_pruned s)"
      "journal_Record jr ((mutation HistoryMutationAcknowledge (hi_epoch h))\<lparr>mu_Observer := observer, mu_Stream := stream,
         mu_Sequence := q, mu_PruneAcknowledged := ho_PruneAcknowledged (hi_options h)\<rparr>) j = (j', None)"
proof (cases "map_of (hi_streams h) (observer, stream)")
  case None
  with assms show thesis by (intro same) (auto simp: AcknowledgeEpoch_def split: if_splits)
next
  case (Some s)
  obtain j1 err where jr: "journal_Record jr ((mutation HistoryMutationAcknowledge (hi_epoch h))\<lparr>mu_Observer := observer,
     mu_Stream := stream, mu_Sequence := q, mu_PruneAcknowledged := ho_PruneAcknowledged (hi_options h)\<rparr>) j = (j1, err)"
    by (rule prod.exhaust)
  show thesis
  proof (cases "epoch = hi_epoch h \<and> q \<le> sm_latest s \<and> sm_acked s < q \<and> err = None")
    case True
    with Some assms jr show thesis
      by (intro progress [OF Some]) (auto simp: AcknowledgeEpoch_def prune_def not_less [symmetric] split: if_splits)
  next
    case False
    with Some assms jr show thesis
      by (intro same) (auto simp: AcknowledgeEpoch_def not_less split: if_splits option.splits)
  qed
qed

lemma AcknowledgeEpoch_ok:
  assumes "history_ok log h" "AcknowledgeEpoch jr now h j observer stream epoch q = (h', j', res)"
  shows "history_ok log h'"
  using assms(2)
proof (cases rule: AcknowledgeEpoch_cases)
  case same
  with assms(1) show ?thesis by blast
next
  case (progress s items pruned)
  let ?key = "(observer, stream)" and ?opts = "hi_options h"
  have ok: "stream_ok ?opts (hi_epoch h) ?key (log ?key) s" by (rule history_okD(2) [OF assms(1) progress(1)])
  have new: "stream_ok ?opts (hi_epoch h) ?key (log ?key) (s\<lparr>sm_acked := q, sm_items := items, sm_pruned := pruned, sm_activity := now\<rparr>)"
    using ok
  proof (rule stream_okE)
    fix n
    assume s: "log_ok ?opts (hi_epoch h) ?key (log ?key)" "log ?key \<noteq> []" "sm_latest s = of_nat (length (log ?key))"
      "unat (sm_latest s) = length (log ?key)" "sm_schema s = pk_SchemaVersion (last (log ?key))"
      and n: "n \<le> length (log ?key)" "sm_items s = drop n (log ?key)" "n = length (log ?key) \<Longrightarrow> sm_acked s = sm_latest s"
      "int (length (log ?key)) - int n \<le> ho_MaxPacketsPerStream ?opts"
    have q: "unat q \<le> length (log ?key)" using progress(2) s(4) by (simp add: word_le_nat_alt)
    let ?m = "if ho_PruneAcknowledged ?opts then max n (unat q) else n"
    have items: "items = drop ?m (log ?key)" using progress(4) items_after [OF s(1) n(1)] n(2) by simp
    have full: "q = sm_latest s" if "?m = length (log ?key)"
    proof -
      have "n \<noteq> length (log ?key)" using n(3) progress(2,3) by auto
      then have "unat q = unat (sm_latest s)" using that s(4) by (auto simp: max_def split: if_splits)
      then show ?thesis by (simp add: word_unat_eq_iff)
    qed
    have m: "n \<le> ?m" "?m \<le> length (log ?key)" using n(1) q by simp_all
    then have bound: "int (length (log ?key)) - int ?m \<le> ho_MaxPacketsPerStream ?opts" using n(4) by linarith
    show ?thesis
      by (rule stream_okI [OF s(1,2) _ _ _ m(2) _ _ bound]) (use s(3,5) items full progress(2) in simp_all)
  qed
  have "key_ok ?opts (hi_epoch h) k (log k) (map_of (hi_streams h') k)" for k
    using history_okD(1) [OF assms(1), of k] new unfolding progress(7) by (cases "k = ?key") (simp_all add: key_ok_def)
  then show ?thesis unfolding progress(7)
    using assms(1) progress(1) by (intro history_ok_change [OF assms(1)]) (auto simp: history_ok_def gomap_length_update domIff)
qed

section \<open>Executions\<close>

text \<open>A stream that goes loses its log; a key that stays keeps it.\<close>

definition forget :: "(streamKey \<Rightarrow> bool) \<Rightarrow> (streamKey \<Rightarrow> Packet list) \<Rightarrow> streamKey \<Rightarrow> Packet list" where
  "forget gone log = (\<lambda>key. if gone key then [] else log key)"

lemma forget_ok:
  assumes "history_ok log h" "gomap_ok streams" "length streams \<le> length (hi_streams h)"
    "\<And>key. map_of streams key = (if gone key then None else map_of (hi_streams h) key)"
  shows "history_ok (forget gone log) (h\<lparr>hi_streams := streams\<rparr>)"
  by (rule history_ok_change [OF assms(1-3)])
    (use history_okD(1) [OF assms(1)] in \<open>simp add: assms(4) forget_def key_ok_def\<close>)

lemma map_of_filter_key: "map_of (filter (\<lambda>(k, v). P k) m) key = (if P key then map_of m key else None)"
  by (induction m) auto

lemma fold_delete: "fold AList.delete keys m = filter (\<lambda>(k, v). k \<notin> set keys) m"
  by (induction keys arbitrary: m) (auto simp: AList.delete_eq intro!: filter_cong)

definition sweep_keys :: "int \<Rightarrow> History \<Rightarrow> streamKey list" where
  "sweep_keys now h = map fst (filter (\<lambda>(_, s). sm_activity s \<noteq> 0 \<and> sm_activity s \<le> now - ho_IdleTTL (hi_options h)) (hi_streams h))"

text \<open>
  A state of a running history: the history, its journal, and the log of every packet each stream has
  had since it was created. The bound in \<open>append\<close> is the width of the sequence numbers.
\<close>

type_synonym 'j stream_run = "History \<times> 'j \<times> (streamKey \<Rightarrow> Packet list)"

inductive stream_step :: "'j recorder option \<Rightarrow> 'j stream_run \<Rightarrow> 'j stream_run \<Rightarrow> bool" for jr where
  append: "Append jr now h j packet = (h', j', Inr p) \<Longrightarrow> length (log (packet_key packet)) + 1 < 2 ^ 64 \<Longrightarrow>
     stream_step jr (h, j, log) (h', j', log(packet_key packet := log (packet_key packet) @ [p]))"
| append_fails: "Append jr now h j packet = (h', j', Inl e) \<Longrightarrow> stream_step jr (h, j, log) (h', j', log)"
| acknowledge: "AcknowledgeEpoch jr now h j observer stream epoch sequence = (h', j', res) \<Longrightarrow>
     stream_step jr (h, j, log) (h', j', log)"
| rotate: "RotateEpoch jr fresh h j epoch = (h', j', res) \<Longrightarrow> fresh \<noteq> 0 \<Longrightarrow>
     stream_step jr (h, j, log) (h', j', if hi_epoch h' = hi_epoch h then log else forget (\<lambda>_. True) log)"
| delete: "DeleteStream jr h j observer stream = (h', j', Inr ()) \<Longrightarrow>
     stream_step jr (h, j, log) (h', j', forget (\<lambda>key. key = (observer, stream)) log)"
| delete_fails: "DeleteStream jr h j observer stream = (h', j', Inl e) \<Longrightarrow> stream_step jr (h, j, log) (h', j', log)"
| delete_observer: "DeleteObserver jr h j observer = (h', j', Inr n) \<Longrightarrow>
     stream_step jr (h, j, log) (h', j', forget (\<lambda>key. fst key = observer) log)"
| delete_observer_fails: "DeleteObserver jr h j observer = (h', j', Inl e) \<Longrightarrow> stream_step jr (h, j, log) (h', j', log)"
| sweep: "SweepIdle jr now h j = (h', j', Inr n) \<Longrightarrow> ho_IdleTTL (hi_options h) > 0 \<Longrightarrow>
     stream_step jr (h, j, log) (h', j', forget (\<lambda>key. key \<in> set (sweep_keys now h)) log)"
| sweep_fails: "SweepIdle jr now h j = (h', j', Inl e) \<Longrightarrow> stream_step jr (h, j, log) (h', j', log)"

definition stream_reachable :: "HistoryOptions \<Rightarrow> u64 \<Rightarrow> 'j recorder option \<Rightarrow> 'j stream_run \<Rightarrow> bool" where
  "stream_reachable options fresh jr r \<longleftrightarrow>
     fresh \<noteq> 0 \<and> (\<exists>j. (stream_step jr)\<^sup>*\<^sup>* (NewHistory options fresh, j, \<lambda>_. []) r)"

lemma NewHistory_ok: "fresh \<noteq> 0 \<Longrightarrow> history_ok (\<lambda>_. []) (NewHistory options fresh)"
  by (rule history_okI) (auto simp: NewHistory_def Let_def options_ok_def key_ok_def)

lemma RotateEpoch_ok:
  assumes "history_ok log h" "RotateEpoch jr fresh h j epoch = (h', j', res)" "fresh \<noteq> 0"
  shows "history_ok (if hi_epoch h' = hi_epoch h then log else forget (\<lambda>_. True) log) h'"
proof -
  have "history_ok (forget (\<lambda>_. True) log) (h\<lparr>hi_epoch := if epoch = 0 then fresh else epoch, hi_streams := []\<rparr>)"
    using assms(1,3) by (intro history_okI) (auto simp: history_ok_def forget_def key_ok_def)
  then show ?thesis
    using assms(1,2) by (auto simp: RotateEpoch_def Let_def split: if_splits prod.splits option.splits)
qed

lemma DeleteStream_ok:
  assumes "history_ok log h" "DeleteStream jr h j observer stream = (h', j', res)"
  shows "res = Inr () \<Longrightarrow> history_ok (forget (\<lambda>key. key = (observer, stream)) log) h'" "res = Inl e \<Longrightarrow> h' = h"
proof -
  have g: "gomap_ok (hi_streams h)" using assms(1) by (simp add: history_ok_def)
  have "history_ok (forget (\<lambda>key. key = (observer, stream)) log) (h\<lparr>hi_streams := AList.delete (observer, stream) (hi_streams h)\<rparr>)"
    by (rule forget_ok [OF assms(1)]) (use g length_delete_le in auto)
  moreover have "AList.delete (observer, stream) (hi_streams h) = hi_streams h" if "map_of (hi_streams h) (observer, stream) = None"
    using that by (simp add: map_of_eq_None_iff delete_id)
  ultimately show "res = Inr () \<Longrightarrow> history_ok (forget (\<lambda>key. key = (observer, stream)) log) h'" "res = Inl e \<Longrightarrow> h' = h"
    using assms(2) by (auto simp: DeleteStream_def split: if_splits prod.splits option.splits)
qed

lemma DeleteObserver_ok:
  assumes "history_ok log h" "DeleteObserver jr h j observer = (h', j', res)"
  shows "res = Inr n \<Longrightarrow> history_ok (forget (\<lambda>key. fst key = observer) log) h'" "res = Inl e \<Longrightarrow> h' = h"
proof -
  have g: "gomap_ok (hi_streams h)" using assms(1) by (simp add: history_ok_def)
  have *: "history_ok (forget (\<lambda>key. fst key = observer) log) (h\<lparr>hi_streams := filter (\<lambda>(key, _). fst key \<noteq> observer) (hi_streams h)\<rparr>)"
    by (rule forget_ok [OF assms(1)]) (use g in \<open>auto simp: gomap_ok_filter map_of_filter_key [where P = "\<lambda>key. fst key \<noteq> observer"]\<close>)
  moreover have "filter (\<lambda>(key, _). fst key \<noteq> observer) (hi_streams h) = hi_streams h"
    if "length (filter (\<lambda>(key, _). fst key = observer) (hi_streams h)) = 0"
    using that by (auto simp: filter_id_conv filter_empty_conv)
  ultimately show "res = Inr n \<Longrightarrow> history_ok (forget (\<lambda>key. fst key = observer) log) h'" "res = Inl e \<Longrightarrow> h' = h"
    using assms(2) unfolding DeleteObserver_def Let_def
    by (auto split: if_splits prod.splits option.splits simp del: length_0_conv)
qed

lemma SweepIdle_ok:
  assumes "history_ok log h" "SweepIdle jr now h j = (h', j', res)"
  shows "ho_IdleTTL (hi_options h) > 0 \<Longrightarrow> res = Inr n \<Longrightarrow> history_ok (forget (\<lambda>key. key \<in> set (sweep_keys now h)) log) h'"
    "res = Inl e \<Longrightarrow> h' = h"
proof -
  have g: "gomap_ok (hi_streams h)" using assms(1) by (simp add: history_ok_def)
  have *: "history_ok (forget (\<lambda>key. key \<in> set (sweep_keys now h)) log) (h\<lparr>hi_streams := fold AList.delete (sweep_keys now h) (hi_streams h)\<rparr>)"
    unfolding fold_delete
    by (rule forget_ok [OF assms(1)]) (use g in \<open>auto simp: gomap_ok_filter map_of_filter_key [where P = "\<lambda>k. k \<notin> set (sweep_keys now h)"]\<close>)
  show "ho_IdleTTL (hi_options h) > 0 \<Longrightarrow> res = Inr n \<Longrightarrow> history_ok (forget (\<lambda>key. key \<in> set (sweep_keys now h)) log) h'"
    "res = Inl e \<Longrightarrow> h' = h"
    using assms(2) * unfolding SweepIdle_def Let_def sweep_keys_def [symmetric]
    by (auto split: if_splits prod.splits option.splits)
qed

lemma stream_step_ok:
  assumes "stream_step jr (h, j, log) (h', j', log')" "history_ok log h"
  shows "history_ok log' h'"
  using assms(1)
proof (cases rule: stream_step.cases)
  case append
  then show ?thesis using Append_stream_ok [OF assms(2)] by simp
next
  case append_fails
  then show ?thesis using assms(2) by (auto dest: Append_Inl)
next
  case acknowledge
  then show ?thesis using AcknowledgeEpoch_ok [OF assms(2)] by auto
next
  case (rotate fresh epoch res)
  show ?thesis unfolding rotate(1) by (rule RotateEpoch_ok [OF assms(2) rotate(2,3)])
next
  case (delete observer stream)
  show ?thesis unfolding delete(1) by (rule DeleteStream_ok(1) [OF assms(2) delete(2) refl])
next
  case (delete_fails observer stream e)
  show ?thesis using DeleteStream_ok(2) [OF assms(2) delete_fails(2) refl] delete_fails(1) assms(2) by simp
next
  case (delete_observer observer n)
  show ?thesis unfolding delete_observer(1) by (rule DeleteObserver_ok(1) [OF assms(2) delete_observer(2) refl])
next
  case (delete_observer_fails observer e)
  show ?thesis using DeleteObserver_ok(2) [OF assms(2) delete_observer_fails(2) refl] delete_observer_fails(1) assms(2) by simp
next
  case (sweep now n)
  show ?thesis unfolding sweep(1) by (rule SweepIdle_ok(1) [OF assms(2) sweep(2,3) refl])
next
  case (sweep_fails now e)
  show ?thesis using SweepIdle_ok(2) [OF assms(2) sweep_fails(2) refl] sweep_fails(1) assms(2) by simp
qed

lemma stream_reachable_ok:
  assumes "stream_reachable options fresh jr (h, j, log)"
  shows "history_ok log h"
proof -
  obtain j0 where fresh: "fresh \<noteq> 0" and steps: "(stream_step jr)\<^sup>*\<^sup>* (NewHistory options fresh, j0, \<lambda>_. []) (h, j, log)"
    using assms by (auto simp: stream_reachable_def)
  have "history_ok (snd (snd r)) (fst r)" if "(stream_step jr)\<^sup>*\<^sup>* (NewHistory options fresh, j0, \<lambda>_. []) r" for r
    using that
  proof (induction rule: rtranclp_induct)
    case base
    show ?case by (simp add: NewHistory_ok fresh)
  next
    case (step y z)
    then show ?case by (cases y; cases z) (auto dest: stream_step_ok)
  qed
  from this [OF steps] show ?thesis by simp
qed

section \<open>What a resynchronisation gives\<close>

lemma log_ok_length: "log_ok opts epoch key all \<Longrightarrow> length all < 2 ^ 64"
  unfolding log_ok_def by blast

lemma Resync_candidates:
  assumes "log_ok opts epoch key all" "n \<le> length all"
  shows "dropWhile (\<lambda>p. \<not> pk_Sequence p > q) (drop n all) = drop (max n (unat q)) all"
  using items_after [OF assms, of q] by (simp only: not_less)

lemma log_base:
  assumes "log_ok opts epoch key all" "m < length all" "\<not> pk_Full (all ! m)"
  shows "unat (pk_BaseSequence (all ! m)) = m"
proof -
  have "pk_BaseSequence (all ! m) = of_nat m" using log_ok_entry [OF assms(1,2)] assms(3) by (simp add: entry_ok_def)
  moreover have "m < 2 ^ 64" using log_ok_length [OF assms(1)] assms(2) by linarith
  ultimately show ?thesis by (simp only: unat_u64)
qed

lemma Resync_replay:
  assumes "history_ok log h" "\<not> rr_FullRequired (Resync h rq)"
  defines "all \<equiv> log (rq_Observer rq, rq_Stream rq)"
  obtains m where "unat (rq_AfterSequence rq) \<le> m" "m \<le> length all" "rr_Packets (Resync h rq) = drop m all"
    "m = unat (rq_AfterSequence rq) \<or> (m < length all \<and> pk_Full (all ! m))" "unat (rr_LatestSequence (Resync h rq)) = length all"
    "rr_Reason (Resync h rq) = ResyncNone"
proof (cases "map_of (hi_streams h) (rq_Observer rq, rq_Stream rq)")
  case None
  with assms(2) show thesis by (simp add: Resync_def full_required_def split: if_splits)
next
  case (Some s)
  let ?q = "rq_AfterSequence rq" and ?key = "(rq_Observer rq, rq_Stream rq)"
  have "stream_ok (hi_options h) (hi_epoch h) ?key all s" unfolding all_def by (rule history_okD(2) [OF assms(1) Some])
  then show thesis
  proof (rule stream_okE)
    fix n
    assume l: "log_ok (hi_options h) (hi_epoch h) ?key all" "unat (sm_latest s) = length all"
      and n: "n \<le> length all" "sm_items s = drop n all"
    let ?m = "max n (unat ?q)"
    have cand: "dropWhile (\<lambda>p. \<not> pk_Sequence p > ?q) (sm_items s) = drop ?m all"
      unfolding n(2) by (rule Resync_candidates [OF l(1) n(1)])
    have le: "\<not> sm_latest s < ?q" using assms(2) Some by (auto simp: Resync_def full_required_def split: if_splits)
    then have q: "unat ?q \<le> length all" using l(2) by (simp add: word_less_nat_alt)
    show thesis
    proof (cases "?q = sm_latest s")
      case True
      then have "Resync h rq = \<lparr>rr_Packets = [], rr_FullRequired = False, rr_Reason = ResyncNone, rr_LatestSequence = sm_latest s\<rparr>"
        using assms(2) Some by (auto simp: Resync_def full_required_def split: if_splits)
      then show thesis using that [of "length all"] l(2) True by simp
    next
      case False
      obtain c cs where c: "drop ?m all = c # cs"
        using assms(2) Some False cand 
        by (cases "drop ?m all") (auto simp: Resync_def full_required_def simp del: dropWhile_eq_Nil_conv split: if_splits)
      then have m: "?m < length all" "c = all ! ?m" by (metis drop_all leI list.discI, metis hd_drop_conv_nth drop_all leI list.discI list.sel(1))
      have res: "Resync h rq = \<lparr>rr_Packets = map Packet_Clone (c # cs), rr_FullRequired = False, rr_Reason = ResyncNone,
            rr_LatestSequence = sm_latest s\<rparr>" "pk_Full c \<or> pk_BaseSequence c = ?q"
        using assms(2) Some False c cand by (auto simp: Resync_def full_required_def split: if_splits)
      have "?m = unat ?q \<or> pk_Full (all ! ?m)" using res(2) log_base [OF l(1) m(1)] m(2) by auto
      then show thesis using that [of ?m] m(1) res(1) l(2) c by (simp add: map_idI)
    qed
  qed
qed

lemma fold_suffix:
  assumes "\<And>p c c'. pk_Full p \<Longrightarrow> f p c = f p c'" "a \<le> m" "m = a \<or> (m < length all \<and> pk_Full (all ! m))"
  shows "fold f (drop m all) (fold f (take a all) c0) = fold f all c0"
proof -
  have split: "fold f all c0 = fold f (drop m all) (fold f (take m all) c0)"
    by (metis append_take_drop_id comp_apply fold_append)
  show ?thesis
  proof (cases "m = a")
    case True
    with split show ?thesis by simp
  next
    case False
    then have m: "m < length all" "pk_Full (all ! m)" using assms(3) by auto
    have "fold f (drop m all) x = fold f (drop m all) y" for x y
      using assms(1) [OF m(2), of x y] by (simp add: Cons_nth_drop_Suc [OF m(1), symmetric])
    with split show ?thesis by metis
  qed
qed

lemma chain_holds_drop:
  assumes "log_ok opts epoch key all" "\<forall>i. k \<le> i \<and> i < length all \<longrightarrow> pk_SchemaVersion (all ! i) = schema" "unat previous = k"
  shows "chain_holds schema previous (drop k all)"
  using assms
proof (induction "length all - k" arbitrary: k previous)
  case 0
  then show ?case by simp
next
  case (Suc d)
  then have k: "k < length all" by simp
  have base: "pk_Full (all ! k) \<or> pk_BaseSequence (all ! k) = previous"
    using log_base [OF Suc.prems(1) k] Suc.prems(3) by (auto simp: word_unat_eq_iff)
  have "chain_holds schema (pk_Sequence (all ! k)) (drop (Suc k) all)"
  proof (rule Suc.hyps(1))
    show "d = length all - Suc k" using Suc.hyps(2) by simp
    show "unat (pk_Sequence (all ! k)) = Suc k" by (rule log_sequence [OF Suc.prems(1) k])
  qed (use Suc.prems in auto)
  with base k Suc.prems(2) show ?case by (simp add: Cons_nth_drop_Suc [OF k, symmetric])
qed

text \<open>An example: one stream with three packets, of which two are retained.\<close>

definition ex_options :: HistoryOptions where
  "ex_options = \<lparr>ho_MaxPacketsPerStream = 2, ho_SchemaVersion = 1, ho_MaxPayloadBytes = 4, ho_MaxStreams = 2, ho_Epoch = 9,
     ho_IdleTTL = 50, ho_PruneAcknowledged = True\<rparr>"

definition ex_packet :: "bool \<Rightarrow> u8 \<Rightarrow> Packet" where
  "ex_packet full b = noPacket\<lparr>pk_Stream := \<lparr>st_Topic = ''hp'', st_Key = 7\<rparr>, pk_Full := full, pk_Payload := [b]\<rparr>"

definition ex_log :: "Packet list" where
  "ex_log = [(ex_packet True 10)\<lparr>pk_Epoch := 9, pk_Sequence := 1, pk_SchemaVersion := 1\<rparr>,
     (ex_packet False 11)\<lparr>pk_Epoch := 9, pk_Sequence := 2, pk_BaseSequence := 1, pk_SchemaVersion := 1\<rparr>,
     (ex_packet False 12)\<lparr>pk_Epoch := 9, pk_Sequence := 3, pk_BaseSequence := 2, pk_SchemaVersion := 1\<rparr>]"

definition ex_key :: streamKey where
  "ex_key = (noObserver, \<lparr>st_Topic = ''hp'', st_Key = 7\<rparr>)"

definition ex_stream :: "nat \<Rightarrow> streamState" where
  "ex_stream n = \<lparr>sm_latest = of_nat n, sm_acked = 0, sm_dropped = of_nat (n - 2), sm_pruned = 0, sm_schema = 1, sm_activity = 100,
     sm_items = drop (n - 2) (take n ex_log)\<rparr>"

definition ex_history :: "nat \<Rightarrow> History" where
  "ex_history n = \<lparr>hi_options = ex_options, hi_epoch = 9, hi_streams = (if n = 0 then [] else [(ex_key, ex_stream n)])\<rparr>"

definition ex_run :: "nat \<Rightarrow> unit stream_run" where
  "ex_run n = (ex_history n, (), (\<lambda>_. [])(ex_key := take n ex_log))"

lemmas ex_simps = ex_history_def ex_stream_def ex_log_def ex_key_def ex_packet_def ex_options_def noPacket_def noObserver_def noStream_def

lemma ex_appends:
  "Append None 100 (ex_history 0) () (ex_packet True 10) = (ex_history 1, (), Inr (ex_log ! 0))"
  "Append None 100 (ex_history 1) () (ex_packet False 11) = (ex_history 2, (), Inr (ex_log ! 1))"
  "Append None 100 (ex_history 2) () (ex_packet False 12) = (ex_history 3, (), Inr (ex_log ! 2))"
  by code_simp+

lemma ex_step:
  assumes "Append None 100 (ex_history n) () (ex_packet full b) = (ex_history (Suc n), (), Inr (ex_log ! n))" "n < 3"
  shows "stream_step None (ex_run n) (ex_run (Suc n))"
proof -
  have k: "packet_key (ex_packet full b) = ex_key" by (simp add: packet_key_def ex_simps)
  have "length ex_log = 3" by (simp add: ex_log_def)
  then have "take n ex_log @ [ex_log ! n] = take (Suc n) ex_log" using assms(2) by (simp add: take_Suc_conv_app_nth)
  with stream_step.append [OF assms(1), of "(\<lambda>_. [])(ex_key := take n ex_log)"] assms(2) show ?thesis by (simp add: ex_run_def k)
qed

lemma ex_reaches: "stream_reachable ex_options 5 None (ex_run 3)"
proof -
  have e: "ex_run 0 = (NewHistory ex_options 5, (), \<lambda>_. [])"
    by (simp add: ex_run_def ex_history_def NewHistory_def ex_options_def fun_upd_idem_iff)
  have s: "stream_step None (ex_run 0) (ex_run 1)" "stream_step None (ex_run 1) (ex_run 2)" "stream_step None (ex_run 2) (ex_run 3)"
    using ex_step [of 0] ex_step [of 1] ex_step [of 2] ex_appends by (simp_all add: eval_nat_numeral)
  have "(stream_step None)\<^sup>*\<^sup>* (ex_run 0) (ex_run 3)"
    using s by (meson converse_rtranclp_into_rtranclp rtranclp.rtrancl_refl)
  then show ?thesis unfolding stream_reachable_def e by auto
qed

definition ex_request :: ResyncRequest where
  "ex_request = \<lparr>rq_Observer = fst ex_key, rq_Stream = snd ex_key, rq_Epoch = 9, rq_AfterSequence = 1, rq_SchemaVersion = 1\<rparr>"

lemma Recover_cases:
  assumes "Recover jr now h0 h j rq provider = (h', j', result, None)"
  obtains (replay) "\<not> rr_FullRequired (Resync h0 rq)" "h' = h" "j' = j" "result = Resync h0 rq"
  | (snapshot) packet p where "rr_FullRequired (Resync h0 rq)" "Append jr now h j packet = (h', j', Inr p)"
      "packet_key packet = (rq_Observer rq, rq_Stream rq)" "pk_Full packet" "rr_Packets result = [p]"
      "rr_LatestSequence result = pk_Sequence p"
proof (cases "rr_FullRequired (Resync h0 rq)")
  case False
  with assms show thesis by (auto simp: Recover_def Let_def intro: replay)
next
  case True
  then obtain snap packet where p: "provider = Some snap" "snap rq = Inr packet"
    using assms by (cases provider; cases "the provider rq") (auto simp: Recover_def Let_def)
  define p1 where "p1 = packet\<lparr>pk_Observer := rq_Observer rq, pk_Stream := rq_Stream rq, pk_Full := True\<rparr>"
  define p2 where "p2 = (if rq_SchemaVersion rq \<noteq> 0 then p1\<lparr>pk_SchemaVersion := rq_SchemaVersion rq\<rparr> else p1)"
  obtain h1 j1 res where a: "Append jr now h j p2 = (h1, j1, res)" by (rule prod_cases3)
  have k: "packet_key p2 = (rq_Observer rq, rq_Stream rq)" "pk_Full p2" by (simp_all add: p2_def p1_def packet_key_def)
  have "Recover jr now h0 h j rq provider = (case res of Inl e \<Rightarrow> (h1, j1, Resync h0 rq, Some e) | Inr p \<Rightarrow>
      (h1, j1, \<lparr>rr_Packets = [p], rr_FullRequired = False, rr_Reason = rr_Reason (Resync h0 rq), rr_LatestSequence = pk_Sequence p\<rparr>, None))"
    unfolding Recover_def Let_def p(1)
    by (simp only: True not_True_eq_False if_False option.case p(2) sum.case p1_def [symmetric] p2_def [symmetric] a prod.case)
  with assms a k True show thesis by (cases res) (auto intro: snapshot)
qed

lemma Append_Full: "Append jr now h j packet = (h', j', Inr p) \<Longrightarrow> pk_Full p = pk_Full packet"
  using Append_Inr(1) [of jr now h j packet h' j' p] by (auto simp: stamp_def)

text \<open>
  C5. A recovered consumer converges. Let the effect of a packet on the state of a consumer be any
  function for which a full packet sets the state whatever it was. A consumer that has applied the
  first \<open>AfterSequence\<close> packets of a stream and then applies the packets that \<open>Recover\<close> returns is in
  the state of one that applied every packet of the stream: of the stream as \<open>Resync\<close> saw it for a
  replay; for a new full packet, of the stream with that packet appended, and then from any state at
  all. Other callers may change the history between the two critical sections.
\<close>

theorem recover_converges:
  assumes "stream_reachable options fresh jr (h0, j0, log0)" "(stream_step jr)\<^sup>*\<^sup>* (h0, j0, log0) (h, j, log)"
    and "Recover jr now h0 h j rq provider = (h', j', result, None)"
    and "key = (rq_Observer rq, rq_Stream rq)" "length (log key) + 1 < 2 ^ 64"
    and "\<And>p c c'. pk_Full p \<Longrightarrow> effect p c = effect p c'"
  shows "if rr_FullRequired (Resync h0 rq)
    then stream_step jr (h, j, log) (h', j', log(key := log key @ rr_Packets result))
      \<and> fold effect (rr_Packets result) client = fold effect (log key @ rr_Packets result) initial
    else (h', j') = (h, j)
      \<and> fold effect (rr_Packets result) (fold effect (take (unat (rq_AfterSequence rq)) (log0 key)) initial) = fold effect (log0 key) initial"
  using assms(3)
proof (cases rule: Recover_cases)
  case replay
  show ?thesis
    by (rule Resync_replay [OF stream_reachable_ok [OF assms(1)] replay(1)])
      (use fold_suffix [where f = effect] assms(4,6) replay in simp)
next
  case (snapshot packet p)
  have "stream_step jr (h, j, log) (h', j', log(packet_key packet := log (packet_key packet) @ [p]))"
    by (rule stream_step.append [OF snapshot(2)]) (use assms(4,5) snapshot(3) in simp)
  moreover have "effect p client = effect p (fold effect (log key) initial)"
    by (rule assms(6)) (use Append_Full [OF snapshot(2)] snapshot(4) in simp)
  ultimately show ?thesis using snapshot(1,3,5) assms(4) by simp
qed

text \<open>
  C12. No needless snapshot. When the epoch and the schema version of the request are zero or those of
  the stream, and every packet after \<open>AfterSequence\<close> is retained under the schema of the stream,
  \<open>Resync\<close> replays exactly those packets.
\<close>

theorem resync_replays:
  assumes "stream_reachable options fresh jr (h, j, log)" "map_of (hi_streams h) key = Some s"
    and "key = (rq_Observer rq, rq_Stream rq)" "after = unat (rq_AfterSequence rq)"
    and "rq_Epoch rq \<in> {0, hi_epoch h}" "rq_SchemaVersion rq \<in> {0, sm_schema s}"
    and "length (log key) - length (sm_items s) \<le> after" "after \<le> length (log key)"
    and "\<forall>i. after \<le> i \<and> i < length (log key) \<longrightarrow> pk_SchemaVersion (log key ! i) = sm_schema s"
  shows "Resync h rq = \<lparr>rr_Packets = drop after (log key), rr_FullRequired = False, rr_Reason = ResyncNone,
    rr_LatestSequence = sm_latest s\<rparr>"
proof -
  have "stream_ok (hi_options h) (hi_epoch h) key (log key) s"
    by (rule history_okD(2) [OF stream_reachable_ok [OF assms(1)] assms(2)])
  then show ?thesis
  proof (rule stream_okE)
    fix n
    assume l: "log_ok (hi_options h) (hi_epoch h) key (log key)" "unat (sm_latest s) = length (log key)"
      and n: "n \<le> length (log key)" "sm_items s = drop n (log key)"
    have na: "max n after = after" using assms(7) n by simp
    have cand: "dropWhile (\<lambda>p. \<not> pk_Sequence p > rq_AfterSequence rq) (sm_items s) = drop after (log key)"
      unfolding n(2) Resync_candidates [OF l(1) n(1)] assms(4) [symmetric] na by (rule refl)
    have le: "\<not> rq_AfterSequence rq > sm_latest s" using assms(4,8) l(2) by (simp add: word_less_nat_alt)
    have e: "\<not> (rq_Epoch rq \<noteq> 0 \<and> rq_Epoch rq \<noteq> hi_epoch h)"
      "\<not> (rq_SchemaVersion rq \<noteq> 0 \<and> sm_latest s > 0 \<and> sm_schema s \<noteq> rq_SchemaVersion rq)" using assms(5,6) by auto
    show ?thesis
    proof (cases "rq_AfterSequence rq = sm_latest s")
      case True
      then have "after = length (log key)" using assms(4) l(2) by simp
      then show ?thesis unfolding Resync_def assms(3) [symmetric] assms(2) option.case if_not_P [OF e(1)] if_not_P [OF e(2)]
          if_not_P [OF le] if_P [OF True] by simp
    next
      case False
      then have a: "after < length (log key)" using assms(4,8) l(2) by (auto simp: word_unat_eq_iff)
      let ?c = "log key ! after"
      have c: "drop after (log key) = ?c # drop (Suc after) (log key)" by (rule Cons_nth_drop_Suc [OF a, symmetric])
      have base: "pk_Full ?c \<or> pk_BaseSequence ?c = rq_AfterSequence rq"
        using log_base [OF l(1) a] assms(4) by (auto simp: word_unat_eq_iff)
      have "chain_holds (sm_schema s) (pk_Sequence ?c) (drop (Suc after) (log key))"
        by (rule chain_holds_drop [OF l(1) _ log_sequence [OF l(1) a]]) (use assms(9) in simp)
      moreover have sc: "pk_SchemaVersion ?c = sm_schema s" using assms(9) a by simp
      ultimately have f: "\<not> (\<not> pk_Full ?c \<and> pk_BaseSequence ?c \<noteq> rq_AfterSequence rq)"
        "\<not> (rq_SchemaVersion rq \<noteq> 0 \<and> pk_SchemaVersion ?c \<noteq> rq_SchemaVersion rq)"
        "\<not> \<not> chain_holds (pk_SchemaVersion ?c) (pk_Sequence ?c) (drop (Suc after) (log key))"
        using base assms(6) by auto
      show ?thesis unfolding Resync_def assms(3) [symmetric] assms(2) option.case cand c list.case if_not_P [OF e(1)]
          if_not_P [OF e(2)] if_not_P [OF le] if_not_P [OF False] if_not_P [OF f(1)] if_not_P [OF f(2)] if_not_P [OF f(3)]
        by (simp add: map_idI)
    qed
  qed
qed

theorem resync_replays_witness: "Resync (ex_history 3) ex_request = \<lparr>rr_Packets = drop 1 ex_log, rr_FullRequired = False,
    rr_Reason = ResyncNone, rr_LatestSequence = 3\<rparr>"
proof -
  have i: "\<forall>i. 1 \<le> i \<and> i < length ex_log \<longrightarrow> pk_SchemaVersion (ex_log ! i) = 1"
    by (auto simp: ex_log_def ex_packet_def noPacket_def nth_Cons' less_Suc_eq)
  show ?thesis
    using resync_replays [OF ex_reaches [unfolded ex_run_def], of ex_key "ex_stream 3" ex_request 1] i
    by (simp add: ex_history_def ex_stream_def ex_request_def ex_log_def)
qed

theorem recover_converges_witness:
  "fold (\<lambda>p c. if pk_Full p then pk_Payload p else c @ pk_Payload p) (rr_Packets (Resync (ex_history 3) ex_request)) [10] = [10, 11, 12]"
proof -
  have r: "Recover None 100 (ex_history 3) (ex_history 3) () ex_request None = (ex_history 3, (), Resync (ex_history 3) ex_request, None)"
    "\<not> rr_FullRequired (Resync (ex_history 3) ex_request)" by code_simp+
  show ?thesis
    using recover_converges [OF ex_reaches [unfolded ex_run_def] rtranclp.rtrancl_refl r(1) refl,
        where effect = "\<lambda>p c. if pk_Full p then pk_Payload p else c @ pk_Payload p" and initial = "[]"] r(2)
    by (simp add: ex_request_def ex_log_def ex_packet_def noPacket_def)
qed

section \<open>An exported history is imported unchanged\<close>

lemma import_packets_log:
  assumes "log_ok opts epoch key all" "key = (hs_Observer item, hs_Stream item)"
    and "previous = None \<or> (0 < k \<and> previous = Some (pk_Sequence (all ! (k - 1)), pk_SchemaVersion (all ! (k - 1))))"
  shows "import_packets opts epoch item previous (drop k all) = Inr (drop k all)"
  using assms(3)
proof (induction "length all - k" arbitrary: k previous)
  case 0
  then show ?case by simp
next
  case (Suc d)
  then have k: "k < length all" by simp
  let ?p = "all ! k"
  have p: "pk_Observer ?p = hs_Observer item" "pk_Stream ?p = hs_Stream item" "pk_Epoch ?p = epoch" "pk_SchemaVersion ?p \<noteq> 0"
    "pk_Sequence ?p = of_nat k + 1" "pk_BaseSequence ?p = (if pk_Full ?p then 0 else of_nat k)"
    "ho_MaxPayloadBytes opts > 0 \<Longrightarrow> int (length (pk_Payload ?p)) \<le> ho_MaxPayloadBytes opts"
    "0 < k \<Longrightarrow> \<not> pk_Full ?p \<Longrightarrow> pk_SchemaVersion ?p = pk_SchemaVersion (all ! (k - 1))"
    using log_ok_entry [OF assms(1) k] assms(2) by (auto simp: entry_ok_def packet_key_def)
  have nz: "pk_Sequence ?p \<noteq> 0" using log_sequence [OF assms(1) k] by auto
  have prev: "pk_Sequence (all ! (k - 1)) = of_nat k" if "0 < k"
    using log_ok_entry [OF assms(1), of "k - 1"] that k by (simp add: entry_ok_def del: of_nat_Suc)
  have "import_packets opts epoch item (Some (pk_Sequence ?p, pk_SchemaVersion ?p)) (drop (Suc k) all) = Inr (drop (Suc k) all)"
    by (rule Suc.hyps(1)) (use Suc.hyps(2) in simp_all)
  with Suc.prems p prev nz show ?case
    by (auto simp: Cons_nth_drop_Suc [OF k, symmetric] split: if_splits)
qed

definition touched :: "int \<Rightarrow> streamState \<Rightarrow> streamState" where
  "touched now s = s\<lparr>sm_activity := if sm_activity s = 0 then now else sm_activity s\<rparr>"

lemma import_export_stream:
  assumes "stream_ok opts epoch key all s"
  shows "import_stream opts now epoch (export_stream (key, s)) = Inr (touched now s)"
  using assms
proof (rule stream_okE)
  fix n
  assume s: "log_ok opts epoch key all" "all \<noteq> []" "sm_latest s = of_nat (length all)"
    "sm_schema s = pk_SchemaVersion (last all)" "sm_acked s \<le> sm_latest s"
    and n: "n \<le> length all" "sm_items s = drop n all" "n = length all \<Longrightarrow> sm_acked s = sm_latest s"
    "int (length all) - int n \<le> ho_MaxPacketsPerStream opts"
  obtain observer stream where key: "key = (observer, stream)" by (rule prod.exhaust)
  let ?item = "export_stream (key, s)"
  have item: "hs_Latest ?item = sm_latest s" "hs_Acked ?item = sm_acked s" "hs_Dropped ?item = sm_dropped s"
    "hs_Pruned ?item = sm_pruned s" "hs_Schema ?item = sm_schema s" "hs_LastActivity ?item = sm_activity s"
    "hs_Packets ?item = drop n all" "key = (hs_Observer ?item, hs_Stream ?item)"
    by (simp_all add: export_stream_def key n(2) map_idI)
  have pk: "import_packets opts epoch ?item None (drop n all) = Inr (drop n all)"
    by (rule import_packets_log [OF s(1) item(8)]) simp
  have keep: "retain (ho_MaxPacketsPerStream opts) (drop n all) (sm_dropped s) = (drop n all, sm_dropped s)"
    using n(1,4) by (simp add: retain_def of_nat_diff)
  have last: "pk_Sequence (last all) = sm_latest s"
    using log_ok_entry [OF s(1), of "length all - 1"] s(2,3) by (simp add: entry_ok_def last_conv_nth del: of_nat_Suc)
  have schema: "pk_SchemaVersion (last all) \<noteq> 0"
    using log_ok_entry [OF s(1), of "length all - 1"] s(2) by (simp add: entry_ok_def last_conv_nth)
  have sc: "(if length (drop n all) > 0 then pk_SchemaVersion (last (drop n all)) else sm_schema s) = sm_schema s"
    using s(4) by (simp add: last_drop)
  have c1: "\<not> (sm_acked s > sm_latest s \<or> (sm_latest s > 0 \<and> length (drop n all) = 0 \<and> sm_acked s \<noteq> sm_latest s))"
    using s(5) n(1,3) by auto
  have c2: "\<not> (length (drop n all) > 0 \<and> pk_Sequence (last (drop n all)) \<noteq> sm_latest s)"
    using last by (simp add: last_drop)
  have c3: "\<not> (sm_latest s > 0 \<and> sm_schema s = 0)" using schema s(4) by simp
  show ?thesis
    unfolding import_stream_def item(1-7) Let_def if_not_P [OF c1] pk try_bind_simps if_not_P [OF c2] keep prod.case sc if_not_P [OF c3]
    by (simp add: touched_def n(2))
qed

lemma update_absent: "k \<notin> fst ` set m \<Longrightarrow> AList.update k v m = m @ [(k, v)]"
  by (induction m) auto

definition item_key :: "HistoryStreamSnapshot \<Rightarrow> streamKey" where
  "item_key v = (hs_Observer v, hs_Stream v)"

lemma import_streams_items:
  assumes "distinct (map fst m @ map item_key vs)"
    and "\<And>v. v \<in> set vs \<Longrightarrow> st_Topic (hs_Stream v) \<noteq> [] \<and> import_stream opts now epoch v = Inr (f v)"
  shows "import_streams opts now epoch m vs = Inr (m @ map (\<lambda>v. (item_key v, f v)) vs)"
  using assms
proof (induction vs arbitrary: m)
  case (Cons v vs)
  have absent: "item_key v \<notin> fst ` set m" using Cons.prems(1) by auto
  have "import_streams opts now epoch (m @ [(item_key v, f v)]) vs = Inr ((m @ [(item_key v, f v)]) @ map (\<lambda>v. (item_key v, f v)) vs)"
    by (rule Cons.IH) (use Cons.prems in auto)
  with absent Cons.prems(2) [of v] show ?case
    by (simp add: update_absent map_of_eq_None_iff [THEN iffD2] item_key_def)
qed simp

lemma insort_key_map: "insort_key f (g x) (map g xs) = map g (insort_key (\<lambda>x. f (g x)) x xs)"
  by (induction xs) auto

lemma sort_key_map: "sort_key f (map g xs) = map g (sort_key (\<lambda>x. f (g x)) xs)"
  by (induction xs) (simp_all add: insort_key_map)

lemma import_export:
  assumes "history_ok log h" "hi_options h' = hi_options h"
  defines "kvs \<equiv> sort_key (\<lambda>kv. export_key (export_stream kv)) (hi_streams h)"
  shows "Import now h' (Export h) = Inr (h'\<lparr>hi_streams := map (\<lambda>(key, s). (key, touched now s)) kvs, hi_epoch := hi_epoch h\<rparr>)"
proof -
  have d: "distinct (map fst kvs)"
    using assms(1) by (simp add: history_ok_def gomap_ok_def kvs_def distinct_map)
  have k: "item_key (export_stream kv) = fst kv" for kv by (cases kv) (auto simp: export_stream_def item_key_def split_def)
  let ?imp = "\<lambda>v. import_stream (hi_options h') now (hi_epoch h) v"
  have each: "st_Topic (snd (fst kv)) \<noteq> [] \<and> ?imp (export_stream kv) = Inr (touched now (snd kv))" if "kv \<in> set kvs" for kv
  proof -
    have "map_of (hi_streams h) (fst kv) = Some (snd kv)" using that assms(1) by (simp add: kvs_def history_ok_def gomap_ok_def)
    then have s: "stream_ok (hi_options h) (hi_epoch h) (fst kv) (log (fst kv)) (snd kv)" by (rule history_okD(2) [OF assms(1)])
    then show ?thesis using import_export_stream [OF s] assms(2) by (simp add: stream_ok_def log_ok_def)
  qed
  have "import_streams (hi_options h') now (hi_epoch h) [] (map export_stream kvs)
      = Inr ([] @ map (\<lambda>v. (item_key v, projr (?imp v))) (map export_stream kvs))"
  proof (rule import_streams_items)
    show "distinct (map fst [] @ map item_key (map export_stream kvs))" using d by (simp add: k comp_def)
    show "st_Topic (hs_Stream v) \<noteq> [] \<and> ?imp v = Inr (projr (?imp v))" if "v \<in> set (map export_stream kvs)" for v
      using that each by (auto simp: export_stream_def split_def)
  qed
  moreover have "map (\<lambda>v. (item_key v, projr (?imp v))) (map export_stream kvs) = map (\<lambda>(key, s). (key, touched now s)) kvs"
    using each by (simp add: k split_def)
  moreover have "sp_Streams (Export h) = map export_stream kvs" by (simp add: Export_def exportLocked_def kvs_def sort_key_map)
  moreover have "length kvs = length (hi_streams h)" by (simp add: kvs_def)
  ultimately show ?thesis
    using assms(1,2) by (auto simp: Import_def Export_def exportLocked_def HistorySnapshotVersion_def history_ok_def)
qed

text \<open>
  C13. Export and import are inverse. Importing what a reachable history exports, into any history
  with the same options, succeeds and gives the same epoch and, under every key, the same stream
  (a stream whose last activity is the zero time gets the time of the import).
\<close>

theorem export_import_roundtrip:
  assumes "stream_reachable options fresh jr (h, j, log)" "hi_options h' = hi_options h"
  shows "\<exists>h''. Import now h' (Export h) = Inr h'' \<and> hi_epoch h'' = hi_epoch h \<and> hi_options h'' = hi_options h
    \<and> (\<forall>key. map_of (hi_streams h'') key = map_option (touched now) (map_of (hi_streams h) key))"
proof -
  have ok: "history_ok log h" by (rule stream_reachable_ok [OF assms(1)])
  let ?kvs = "sort_key (\<lambda>kv. export_key (export_stream kv)) (hi_streams h)"
  have g: "distinct (map fst (hi_streams h))" using ok by (simp add: history_ok_def gomap_ok_def)
  then have "map_of ?kvs = map_of (hi_streams h)"
    by (subst map_of_inject_set) (simp_all add: distinct_map)
  then have "map_of (map (\<lambda>(key, s). (key, touched now s)) ?kvs) = (\<lambda>key. map_option (touched now) (map_of (hi_streams h) key))"
    by (simp add: map_of_map comp_def)
  then show ?thesis unfolding import_export [OF ok assms(2), of now] using assms(2) by simp
qed

theorem export_import_roundtrip_witness:
  "\<exists>h''. Import 500 (NewHistory ex_options 5) (Export (ex_history 3)) = Inr h'' \<and> map_of (hi_streams h'') ex_key = Some (ex_stream 3)"
proof -
  have "hi_options (NewHistory ex_options 5) = hi_options (ex_history 3)"
    by (simp add: NewHistory_def ex_history_def ex_options_def)
  from export_import_roundtrip [OF ex_reaches [unfolded ex_run_def] this, of 500]
  obtain h'' where h: "Import 500 (NewHistory ex_options 5) (Export (ex_history 3)) = Inr h''"
    "map_of (hi_streams h'') ex_key = map_option (touched 500) (map_of (hi_streams (ex_history 3)) ex_key)" by blast
  moreover have "map_option (touched 500) (map_of (hi_streams (ex_history 3)) ex_key) = Some (ex_stream 3)"
    by (simp add: ex_history_def touched_def ex_stream_def)
  ultimately show ?thesis by simp
qed

end
