(* ===== verification/Sync_Journal.thy ===== *)
theory Sync_Journal
  imports Sync_Stream
begin

text \<open>
  The write-ahead journal of a history on files (\<open>src/syncstream/file_journal.go\<close>).

  A directory holds checkpoints and logs (WALs) by generation number. Only files that the journal
  itself names are modelled. The contents of a file are what the decoder of the standard library makes
  of it: a checkpoint is its record; a log is the list of its terminated lines, each a mutation or
  text that does not decode, and whether an unterminated tail follows. Marshalling and unmarshalling a
  record is the identity, as it is for texts that are valid UTF-8. A record appended after an
  unterminated tail is on one line with it, and that line does not decode: the tail is a proper prefix
  of an object, or an object, and no object follows either in JSON.

  Which file operation fails is an argument (\<open>readFails\<close>, \<open>write_fault\<close>, \<open>checkpoint_fault\<close>); a crash between two
  operations leaves the same directory as a failure of the second.
\<close>

section \<open>Files\<close>

datatype wal_line = Entry HistoryMutation | Torn

record wal_file =
  wl_lines :: "wal_line list"
  wl_tail :: bool

record fileCheckpoint =
  fc_Generation :: u64
  fc_Snapshot :: HistorySnapshot

record FileHistoryJournal =
  fj_checkpoints :: "(u64, fileCheckpoint) gomap"
  fj_wals :: "(u64, wal_file) gomap"
  fj_initialEpoch :: u64
  fj_generation :: u64

definition NewFileHistoryJournal ::
  "string \<Rightarrow> (u64, fileCheckpoint) gomap \<Rightarrow> (u64, wal_file) gomap \<Rightarrow> u64 \<Rightarrow> u64 \<Rightarrow> stream_error option
    \<Rightarrow> stream_error + FileHistoryJournal" where
  "NewFileHistoryJournal directory checkpoints wals freshEpoch initialEpoch mkdirFails =
     (if directory = [] then Inl ErrHistoryJournalRequired
      else case mkdirFails of
        Some e \<Rightarrow> Inl e
      | None \<Rightarrow> Inr \<lparr>fj_checkpoints = checkpoints, fj_wals = wals,
          fj_initialEpoch = (if initialEpoch = 0 then freshEpoch else initialEpoch), fj_generation = 1\<rparr>)"

section \<open>Replay\<close>

fun find_stream :: "Observer \<Rightarrow> Stream \<Rightarrow> HistoryStreamSnapshot list \<Rightarrow> nat option" where
  "find_stream observer stream [] = None"
| "find_stream observer stream (v # vs) =
     (if hs_Observer v = observer \<and> hs_Stream v = stream then Some 0 else map_option Suc (find_stream observer stream vs))"

definition remove_at :: "nat \<Rightarrow> 'a list \<Rightarrow> 'a list" where
  "remove_at i xs = take i xs @ drop (i + 1) xs"

definition remove_stream :: "Observer \<Rightarrow> Stream \<Rightarrow> HistoryStreamSnapshot list \<Rightarrow> HistoryStreamSnapshot list" where
  "remove_stream observer stream vs = (case find_stream observer stream vs of None \<Rightarrow> vs | Some i \<Rightarrow> remove_at i vs)"

definition empty_stream :: "Observer \<Rightarrow> Stream \<Rightarrow> HistoryStreamSnapshot" where
  "empty_stream observer stream = \<lparr>hs_Observer = observer, hs_Stream = stream, hs_Latest = 0, hs_Acked = 0, hs_Dropped = 0,
     hs_Pruned = 0, hs_Schema = 0, hs_LastActivity = 0, hs_Packets = []\<rparr>"

definition replay_append :: "HistorySnapshot \<Rightarrow> Packet \<Rightarrow> stream_error + HistorySnapshot" where
  "replay_append snapshot p =
     (let (streams, i) = (case find_stream (pk_Observer p) (pk_Stream p) (sp_Streams snapshot) of
            None \<Rightarrow> (sp_Streams snapshot @ [empty_stream (pk_Observer p) (pk_Stream p)], length (sp_Streams snapshot))
          | Some i \<Rightarrow> (sp_Streams snapshot, i));
          value = streams ! i in
      if pk_Sequence p \<noteq> hs_Latest value + 1 then Inl ErrInvalidSnapshot
      else Inr (snapshot\<lparr>sp_Streams := streams[i := value\<lparr>hs_Latest := pk_Sequence p, hs_Schema := pk_SchemaVersion p,
             hs_Packets := hs_Packets value @ [Packet_Clone p]\<rparr>]\<rparr>))"

definition replay_acknowledge :: "HistorySnapshot \<Rightarrow> HistoryMutation \<Rightarrow> stream_error + HistorySnapshot" where
  "replay_acknowledge snapshot m =
     (case find_stream (mu_Observer m) (mu_Stream m) (sp_Streams snapshot) of
        None \<Rightarrow> Inl ErrInvalidSnapshot
      | Some i \<Rightarrow>
          let value = sp_Streams snapshot ! i in
          if mu_Sequence m > hs_Latest value then Inl ErrInvalidSnapshot
          else if mu_Sequence m > hs_Acked value then
            let (packets, pruned) = (if mu_PruneAcknowledged m then prune (mu_Sequence m) (hs_Packets value) (hs_Pruned value)
                                     else (hs_Packets value, hs_Pruned value)) in
            Inr (snapshot\<lparr>sp_Streams := (sp_Streams snapshot)[i := value\<lparr>hs_Acked := mu_Sequence m, hs_Packets := packets,
                   hs_Pruned := pruned\<rparr>]\<rparr>)
          else Inr snapshot)"

definition replayHistoryMutation :: "HistorySnapshot \<Rightarrow> HistoryMutation \<Rightarrow> stream_error + HistorySnapshot" where
  "replayHistoryMutation snapshot0 m =
     (if mu_Version m \<noteq> HistoryMutationVersion then Inl ErrInvalidSnapshot
      else if mu_Kind m = HistoryMutationRotateEpoch then Inr (snapshot0\<lparr>sp_Epoch := mu_Epoch m, sp_Streams := []\<rparr>)
      else
        let snapshot = (if sp_Epoch snapshot0 = 0 then snapshot0\<lparr>sp_Epoch := mu_Epoch m\<rparr> else snapshot0) in
        if mu_Epoch m \<noteq> sp_Epoch snapshot then Inl ErrInvalidSnapshot
        else case mu_Kind m of
          HistoryMutationAppend \<Rightarrow> replay_append snapshot (mu_Packet m)
        | HistoryMutationAcknowledge \<Rightarrow> replay_acknowledge snapshot m
        | HistoryMutationDelete \<Rightarrow>
            Inr (snapshot\<lparr>sp_Streams := remove_stream (mu_Observer m) (mu_Stream m) (sp_Streams snapshot)\<rparr>)
        | HistoryMutationDeleteView \<Rightarrow>
            Inr (snapshot\<lparr>sp_Streams := filter (\<lambda>v. hs_Observer v \<noteq> mu_Observer m) (sp_Streams snapshot)\<rparr>)
        | HistoryMutationSweep \<Rightarrow>
            Inr (snapshot\<lparr>sp_Streams := fold (\<lambda>(observer, stream). remove_stream observer stream) (mu_Targets m) (sp_Streams snapshot)\<rparr>)
        | _ \<Rightarrow> Inl ErrInvalidSnapshot)"

fun replay_lines :: "wal_line list \<Rightarrow> HistorySnapshot \<Rightarrow> stream_error + HistorySnapshot" where
  "replay_lines [] snapshot = Inr snapshot"
| "replay_lines (Torn # ls) snapshot = Inl (ErrStreamExternal 1)"
| "replay_lines (Entry m # ls) snapshot = try_bind (replayHistoryMutation snapshot m) (replay_lines ls)"

text \<open>The tail of a log is read and passed over.\<close>

definition replayWAL :: "wal_file option \<Rightarrow> HistorySnapshot \<Rightarrow> stream_error + HistorySnapshot" where
  "replayWAL file snapshot = (case file of None \<Rightarrow> Inl (ErrStreamExternal 2) | Some f \<Rightarrow> replay_lines (wl_lines f) snapshot)"

section \<open>Loading, recording, checkpointing\<close>

definition checkpointGenerations :: "FileHistoryJournal \<Rightarrow> u64 list" where
  "checkpointGenerations jn = rev (sort (filter (\<lambda>g. g > 0) (gokeys (fj_checkpoints jn))))"

definition loadGeneration :: "FileHistoryJournal \<Rightarrow> u64 \<Rightarrow> stream_error + HistorySnapshot" where
  "loadGeneration jn generation =
     (case map_of (fj_checkpoints jn) generation of
        None \<Rightarrow> Inl (ErrStreamExternal 2)
      | Some checkpoint \<Rightarrow>
          if fc_Generation checkpoint \<noteq> generation then Inl ErrInvalidSnapshot
          else replayWAL (map_of (fj_wals jn) generation) (fc_Snapshot checkpoint))"

definition Load :: "stream_error option \<Rightarrow> FileHistoryJournal \<Rightarrow> FileHistoryJournal \<times> (stream_error + HistorySnapshot)" where
  "Load readFails jn =
     (case checkpointGenerations jn of
        [] \<Rightarrow>
          let jn1 = jn\<lparr>fj_generation := 1\<rparr>;
              snapshot = \<lparr>sp_Version = HistorySnapshotVersion, sp_Epoch = fj_initialEpoch jn, sp_Streams = []\<rparr> in
          (jn1, case (readFails, map_of (fj_wals jn) 1) of
             (Some e, _) \<Rightarrow> Inl e
           | (None, None) \<Rightarrow> Inr snapshot
           | (None, Some f) \<Rightarrow>
               replayWAL (Some f) (if wl_lines f \<noteq> [] \<or> wl_tail f then snapshot\<lparr>sp_Epoch := 0\<rparr> else snapshot))
      | generation # _ \<Rightarrow>
          (case (case readFails of Some e \<Rightarrow> Inl e | None \<Rightarrow> loadGeneration jn generation) of
             Inl e \<Rightarrow> (jn, Inl e)
           | Inr snapshot \<Rightarrow> (jn\<lparr>fj_generation := generation\<rparr>, Inr snapshot)))"

datatype write_fault =
    NoFault | OpenFails stream_error
  | WriteFails stream_error bool \<comment> \<open>with some of the bytes written, not the final newline\<close>
  | SyncFails stream_error | CloseFails stream_error

definition write_line :: "HistoryMutation \<Rightarrow> wal_file \<Rightarrow> wal_file" where
  "write_line m f = \<lparr>wl_lines = wl_lines f @ [if wl_tail f then Torn else Entry m], wl_tail = False\<rparr>"

definition open_wal :: "wal_file option \<Rightarrow> wal_file" where
  "open_wal f = (case f of None \<Rightarrow> \<lparr>wl_lines = [], wl_tail = False\<rparr> | Some f \<Rightarrow> f)"

definition journal_Write :: "write_fault \<Rightarrow> HistoryMutation \<Rightarrow> FileHistoryJournal \<Rightarrow> FileHistoryJournal \<times> stream_error option" where
  "journal_Write fault m jn =
     (if mu_Version m \<noteq> HistoryMutationVersion then (jn, Some ErrInvalidSnapshot)
      else
        let f = open_wal (map_of (fj_wals jn) (fj_generation jn));
            put = (\<lambda>f. jn\<lparr>fj_wals := AList.update (fj_generation jn) f (fj_wals jn)\<rparr>) in
        case fault of
          OpenFails e \<Rightarrow> (jn, Some e)
        | WriteFails e some \<Rightarrow> (put (if some then f\<lparr>wl_tail := True\<rparr> else f), Some e)
        | SyncFails e \<Rightarrow> (put (write_line m f), Some e)
        | CloseFails e \<Rightarrow> (put (write_line m f), Some e)
        | NoFault \<Rightarrow> (put (write_line m f), None))"

datatype checkpoint_fault =
    NoCheckpointFault bool bool \<comment> \<open>whether the obsolete checkpoint and log can be removed\<close>
  | WalOpenFails stream_error | WalRemoveFails stream_error | WalReopenFails stream_error
  | TemporaryFails stream_error \<comment> \<open>any step from the sync of the new log to the rename\<close>

definition removeObsoleteGenerations :: "bool \<Rightarrow> bool \<Rightarrow> u64 \<Rightarrow> FileHistoryJournal \<Rightarrow> FileHistoryJournal" where
  "removeObsoleteGenerations checkpointGoes walGoes current jn =
     (if current \<le> 2 then jn
      else
        let obsolete = current - 2;
            jn1 = (if checkpointGoes then jn\<lparr>fj_checkpoints := AList.delete obsolete (fj_checkpoints jn)\<rparr> else jn) in
        if walGoes then jn1\<lparr>fj_wals := AList.delete obsolete (fj_wals jn1)\<rparr> else jn1)"

definition Checkpoint ::
  "checkpoint_fault \<Rightarrow> HistorySnapshot \<Rightarrow> FileHistoryJournal \<Rightarrow> FileHistoryJournal \<times> stream_error option" where
  "Checkpoint fault snapshot jn =
     (let next = fj_generation jn + 1;
          exists = map_of (fj_wals jn) next \<noteq> None;
          opened = jn\<lparr>fj_wals := AList.update next \<lparr>wl_lines = [], wl_tail = False\<rparr> (fj_wals jn)\<rparr>;
          published = opened\<lparr>fj_checkpoints := AList.update next \<lparr>fc_Generation = next, fc_Snapshot = snapshot\<rparr> (fj_checkpoints jn),
            fj_generation := next\<rparr>;
          complete = (\<lambda>checkpointGoes walGoes. (removeObsoleteGenerations checkpointGoes walGoes next published, None)) in
      case fault of
        WalOpenFails e \<Rightarrow> (jn, Some e)
      | WalRemoveFails e \<Rightarrow> if exists then (jn, Some e) else complete True True
      | WalReopenFails e \<Rightarrow> if exists then (jn\<lparr>fj_wals := AList.delete next (fj_wals jn)\<rparr>, Some e) else complete True True
      | TemporaryFails e \<Rightarrow> (opened, Some e)
      | NoCheckpointFault checkpointGoes walGoes \<Rightarrow> complete checkpointGoes walGoes)"

section \<open>Replay on the streams as a map\<close>

definition by_key :: "HistoryStreamSnapshot list \<Rightarrow> (streamKey, HistoryStreamSnapshot) gomap" where
  "by_key vs = map (\<lambda>v. (item_key v, v)) vs"

lemma by_key_simps [simp]:
  "by_key [] = []" "by_key (v # vs) = (item_key v, v) # by_key vs" "by_key (vs @ ws) = by_key vs @ by_key ws"
  "length (by_key vs) = length vs"
  by (simp_all add: by_key_def)

lemma gokeys_by_key: "gokeys (by_key vs) = map item_key vs"
  by (simp add: by_key_def)

lemma by_key_filter: "by_key (filter (\<lambda>v. P (item_key v)) vs) = filter (\<lambda>(k, _). P k) (by_key vs)"
  by (induction vs) auto

lemma find_stream_None:
  "find_stream observer stream vs = None \<Longrightarrow> map_of (by_key vs) (observer, stream) = None
    \<and> (\<forall>v. item_key v = (observer, stream) \<longrightarrow> AList.update (observer, stream) v (by_key vs) = by_key (vs @ [v]))"
  by (induction vs) (auto simp: item_key_def split: if_splits)

lemma find_stream_Some:
  "find_stream observer stream vs = Some i \<Longrightarrow> i < length vs \<and> map_of (by_key vs) (observer, stream) = Some (vs ! i)
    \<and> (\<forall>v. item_key v = (observer, stream) \<longrightarrow> AList.update (observer, stream) v (by_key vs) = by_key (vs[i := v]))"
  by (induction vs arbitrary: i) (auto simp: item_key_def split: if_splits)

lemma find_stream_Some_key:
  "find_stream observer stream vs = Some i \<Longrightarrow> item_key (vs ! i) = (observer, stream)"
  by (induction vs arbitrary: i) (auto simp: item_key_def split: if_splits)

lemma remove_stream_delete:
  "distinct (map item_key vs) \<Longrightarrow> remove_stream observer stream vs = filter (\<lambda>v. item_key v \<noteq> (observer, stream)) vs"
proof (induction vs)
  case (Cons v vs)
  have "filter (\<lambda>w. item_key w \<noteq> item_key v) vs = vs" using Cons.prems by (force simp: filter_id_conv image_iff)
  with Cons show ?case
    by (auto simp: remove_stream_def remove_at_def item_key_def split: option.splits if_splits)
qed (simp add: remove_stream_def)

lemma remove_streams_delete:
  "distinct (map item_key vs) \<Longrightarrow> fold (\<lambda>(observer, stream). remove_stream observer stream) keys vs
    = filter (\<lambda>v. item_key v \<notin> set keys) vs"
proof (induction keys arbitrary: vs)
  case (Cons key keys)
  obtain observer stream where key: "key = (observer, stream)" by (rule prod.exhaust)
  have "distinct (map item_key (filter (\<lambda>v. item_key v \<noteq> key) vs))" using Cons.prems by (rule distinct_map_filter)
  from Cons.IH [OF this] Cons.prems show ?case
    by (simp add: key remove_stream_delete conj_commute cong: conj_cong)
qed simp

lemma replay_append_eq:
  assumes "key = (pk_Observer p, pk_Stream p)" "v = (case map_of (by_key (sp_Streams snap)) key of None \<Rightarrow> empty_stream (fst key) (snd key) | Some v \<Rightarrow> v)"
    "pk_Sequence p = hs_Latest v + 1"
  obtains streams where "replay_append snap p = Inr (snap\<lparr>sp_Streams := streams\<rparr>)"
    "by_key streams = AList.update key (v\<lparr>hs_Latest := pk_Sequence p, hs_Schema := pk_SchemaVersion p, hs_Packets := hs_Packets v @ [p]\<rparr>)
      (by_key (sp_Streams snap))"
proof (cases "find_stream (pk_Observer p) (pk_Stream p) (sp_Streams snap)")
  case None
  note f = find_stream_None [OF None]
  then have v: "v = empty_stream (pk_Observer p) (pk_Stream p)" using assms(1,2) by simp
  let ?v = "v\<lparr>hs_Latest := pk_Sequence p, hs_Schema := pk_SchemaVersion p, hs_Packets := hs_Packets v @ [p]\<rparr>"
  show thesis
  proof (rule that [of "sp_Streams snap @ [?v]"])
    show "replay_append snap p = Inr (snap\<lparr>sp_Streams := sp_Streams snap @ [?v]\<rparr>)"
      using None assms(3) v by (simp add: replay_append_def Let_def)
    show "by_key (sp_Streams snap @ [?v]) = AList.update key ?v (by_key (sp_Streams snap))"
      using f assms(1) v by (simp add: item_key_def empty_stream_def)
  qed
next
  case (Some i)
  note f = find_stream_Some [OF Some]
  then have v: "v = sp_Streams snap ! i" using assms(1,2) by simp
  let ?v = "v\<lparr>hs_Latest := pk_Sequence p, hs_Schema := pk_SchemaVersion p, hs_Packets := hs_Packets v @ [p]\<rparr>"
  show thesis
  proof (rule that [of "(sp_Streams snap)[i := ?v]"])
    show "replay_append snap p = Inr (snap\<lparr>sp_Streams := (sp_Streams snap)[i := ?v]\<rparr>)"
      using Some assms(3) v by (simp add: replay_append_def Let_def)
    have "item_key ?v = key" using find_stream_Some_key [OF Some] assms(1) v by (simp add: item_key_def)
    then show "by_key ((sp_Streams snap)[i := ?v]) = AList.update key ?v (by_key (sp_Streams snap))"
      using f assms(1) by simp
  qed
qed

lemma replay_acknowledge_eq:
  assumes "map_of (by_key (sp_Streams snap)) (mu_Observer m, mu_Stream m) = Some v"
    "mu_Sequence m \<le> hs_Latest v" "hs_Acked v < mu_Sequence m"
  defines "packets \<equiv> if mu_PruneAcknowledged m then dropWhile (\<lambda>p. pk_Sequence p \<le> mu_Sequence m) (hs_Packets v) else hs_Packets v"
  obtains streams pruned where "replay_acknowledge snap m = Inr (snap\<lparr>sp_Streams := streams\<rparr>)"
    "by_key streams = AList.update (mu_Observer m, mu_Stream m) (v\<lparr>hs_Acked := mu_Sequence m, hs_Packets := packets, hs_Pruned := pruned\<rparr>)
      (by_key (sp_Streams snap))"
proof -
  obtain i where i: "find_stream (mu_Observer m) (mu_Stream m) (sp_Streams snap) = Some i"
    using find_stream_None [of "mu_Observer m" "mu_Stream m" "sp_Streams snap"] assms(1) by (metis not_None_eq)
  note f = find_stream_Some [OF i]
  then have v: "v = sp_Streams snap ! i" using assms(1) by simp
  define pruned where "pruned = (if mu_PruneAcknowledged m then snd (prune (mu_Sequence m) (hs_Packets v) (hs_Pruned v)) else hs_Pruned v)"
  let ?v = "v\<lparr>hs_Acked := mu_Sequence m, hs_Packets := packets, hs_Pruned := pruned\<rparr>"
  have le: "\<not> hs_Latest v < mu_Sequence m" using assms(2) by simp
  show thesis
  proof (rule that [of "(sp_Streams snap)[i := ?v]" pruned])
    show "replay_acknowledge snap m = Inr (snap\<lparr>sp_Streams := (sp_Streams snap)[i := ?v]\<rparr>)"
      using i assms(3) le v by (simp add: replay_acknowledge_def Let_def prune_def packets_def pruned_def)
    have "item_key ?v = (mu_Observer m, mu_Stream m)" using find_stream_Some_key [OF i] v by (simp add: item_key_def)
    then show "by_key ((sp_Streams snap)[i := ?v]) = AList.update (mu_Observer m, mu_Stream m) ?v (by_key (sp_Streams snap))"
      using f by simp
  qed
qed

section \<open>A snapshot that stands for a history\<close>

text \<open>
  The replayed snapshot keeps every packet that was not pruned; the live history keeps the newest of
  them, up to its limit. \<open>all\<close> is the log of the stream.
\<close>

definition same_stream :: "int \<Rightarrow> Packet list \<Rightarrow> HistoryStreamSnapshot \<Rightarrow> streamState \<Rightarrow> bool" where
  "same_stream limit all v s \<longleftrightarrow> hs_Latest v = sm_latest s \<and> hs_Acked v = sm_acked s \<and> hs_Schema v = sm_schema s
     \<and> (\<exists>n \<le> length all. hs_Packets v = drop n all \<and> sm_items s = drop (max n (length all - nat limit)) all)"

definition same_entry :: "int \<Rightarrow> Packet list \<Rightarrow> HistoryStreamSnapshot option \<Rightarrow> streamState option \<Rightarrow> bool" where
  "same_entry limit all vo so \<longleftrightarrow> rel_option (same_stream limit all) vo so"

definition represents :: "(streamKey \<Rightarrow> Packet list) \<Rightarrow> HistorySnapshot \<Rightarrow> History \<Rightarrow> bool" where
  "represents log snap h \<longleftrightarrow> sp_Version snap = HistorySnapshotVersion \<and> sp_Epoch snap = hi_epoch h
     \<and> gomap_ok (by_key (sp_Streams snap))
     \<and> (\<forall>key. same_entry (ho_MaxPacketsPerStream (hi_options h)) (log key) (map_of (by_key (sp_Streams snap)) key) (map_of (hi_streams h) key))"

lemma representsD:
  assumes "represents log snap h"
  shows "same_entry (ho_MaxPacketsPerStream (hi_options h)) (log key) (map_of (by_key (sp_Streams snap)) key) (map_of (hi_streams h) key)"
    "sp_Version snap = HistorySnapshotVersion" "sp_Epoch snap = hi_epoch h" "gomap_ok (by_key (sp_Streams snap))"
  using assms unfolding represents_def by blast+

lemma representsI:
  assumes "sp_Version snap = HistorySnapshotVersion" "sp_Epoch snap = hi_epoch h" "gomap_ok (by_key (sp_Streams snap))"
    "\<And>key. same_entry (ho_MaxPacketsPerStream (hi_options h)) (log key) (map_of (by_key (sp_Streams snap)) key) (map_of (hi_streams h) key)"
  shows "represents log snap h"
  using assms unfolding represents_def by blast

lemma represents_update:
  assumes "represents log snap h" "by_key streams = AList.update key v (by_key (sp_Streams snap))"
    "same_stream (ho_MaxPacketsPerStream (hi_options h)) all v s"
  shows "represents (log(key := all)) (snap\<lparr>sp_Streams := streams\<rparr>) (h\<lparr>hi_streams := AList.update key s (hi_streams h)\<rparr>)"
proof (rule representsI)
  fix k
  show "same_entry (ho_MaxPacketsPerStream (hi_options (h\<lparr>hi_streams := AList.update key s (hi_streams h)\<rparr>))) ((log(key := all)) k)
     (map_of (by_key (sp_Streams (snap\<lparr>sp_Streams := streams\<rparr>))) k) (map_of (hi_streams (h\<lparr>hi_streams := AList.update key s (hi_streams h)\<rparr>)) k)"
    using representsD(1) [OF assms(1), of k] assms(3) by (cases "k = key") (simp_all add: assms(2) same_entry_def)
qed (use representsD(2-4) [OF assms(1)] assms(2) in simp_all)

lemma represents_forget:
  assumes "represents log snap h" "sp_Streams snap' = filter (\<lambda>v. \<not> gone (item_key v)) (sp_Streams snap)"
    "sp_Version snap' = sp_Version snap" "sp_Epoch snap' = sp_Epoch snap"
    "\<And>key. map_of streams key = (if gone key then None else map_of (hi_streams h) key)"
  shows "represents (forget gone log) snap' (h\<lparr>hi_streams := streams\<rparr>)"
proof (rule representsI)
  have b: "by_key (sp_Streams snap') = filter (\<lambda>(k, _). \<not> gone k) (by_key (sp_Streams snap))"
    unfolding assms(2) by (rule by_key_filter)
  show "gomap_ok (by_key (sp_Streams snap'))" unfolding b by (rule gomap_ok_filter [OF representsD(4) [OF assms(1)]])
  fix k
  show "same_entry (ho_MaxPacketsPerStream (hi_options (h\<lparr>hi_streams := streams\<rparr>))) (forget gone log k)
      (map_of (by_key (sp_Streams snap')) k) (map_of (hi_streams (h\<lparr>hi_streams := streams\<rparr>)) k)"
    using representsD(1) [OF assms(1), of k]
    by (simp add: b map_of_filter_key [where P = "\<lambda>k. \<not> gone k"] assms(5) forget_def same_entry_def)
qed (use representsD(2,3) [OF assms(1)] assms(3,4) in simp_all)

section \<open>Every mutation is replayed to what it did\<close>

lemma retain_exact:
  assumes "0 < c" "n \<le> length all"
  shows "fst (retain c (drop (max n (length all - nat c)) all @ [p]) d) = drop (max n (Suc (length all) - nat c)) (all @ [p])"
proof -
  let ?m = "max n (length all - nat c)"
  have le: "?m \<le> length all" using assms by simp
  then have *: "drop ?m all @ [p] = drop ?m (all @ [p])" by simp
  have "length (drop ?m all @ [p]) - nat c + ?m = max n (Suc (length all) - nat c)" 
    using le assms by (cases "nat c \<le> length all") (auto simp: max_def)
  then show ?thesis unfolding retain_items [OF assms(1)] by (simp only: * drop_drop)
qed

lemma Append_replayed:
  assumes "history_ok log h" "represents log snap h" "Append jr now h j packet = (h', j', Inr p)"
  shows "\<exists>snap'. replayHistoryMutation snap ((mutation HistoryMutationAppend (hi_epoch h))\<lparr>mu_Packet := p\<rparr>) = Inr snap'
    \<and> represents (log(packet_key packet := log (packet_key packet) @ [p])) snap' h'"
proof -
  define key where "key = (pk_Observer packet, pk_Stream packet)"
  define s where "s = (case map_of (hi_streams h) key of None \<Rightarrow> newStream | Some s \<Rightarrow> s)"
  define p0 where "p0 = (if pk_SchemaVersion packet = 0 then packet\<lparr>pk_SchemaVersion := ho_SchemaVersion (hi_options h)\<rparr> else packet)"
  note A = Append_Inr [OF assms(3), folded key_def, folded s_def p0_def]
  let ?c = "ho_MaxPacketsPerStream (hi_options h)"
  have c: "0 < ?c" "hi_epoch h \<noteq> 0" using assms(1) by (auto simp: history_ok_def options_ok_def)
  have k: "packet_key packet = key" "key = (pk_Observer p, pk_Stream p)"
    by (simp_all add: packet_key_def key_def A(1) stamp_def p0_def)
  define v where "v = (case map_of (by_key (sp_Streams snap)) key of None \<Rightarrow> empty_stream (fst key) (snd key) | Some v \<Rightarrow> v)"
  have none: "log key = []" if "map_of (hi_streams h) key = None"
    using history_okD(1) [OF assms(1), of key] that by (simp add: key_ok_def)
  have same: "same_stream ?c (log key) v s"
  proof (cases "map_of (hi_streams h) key")
    case None
    then have "map_of (by_key (sp_Streams snap)) key = None" using representsD(1) [OF assms(2), of key] by (simp add: same_entry_def)
    with None none show ?thesis by (simp add: v_def s_def same_stream_def newStream_def empty_stream_def)
  next
    case (Some s')
    then obtain v' where "map_of (by_key (sp_Streams snap)) key = Some v'" "same_stream ?c (log key) v' s'"
      using representsD(1) [OF assms(2), of key] by (auto simp: same_entry_def option_rel_Some2)
    with Some show ?thesis by (simp add: v_def s_def)
  qed
  then obtain n where n: "n \<le> length (log key)" "hs_Packets v = drop n (log key)"
    "sm_items s = drop (max n (length (log key) - nat ?c)) (log key)" by (auto simp: same_stream_def)
  have seq: "pk_Sequence p = hs_Latest v + 1" using same by (simp add: A(1) stamp_def same_stream_def)
  let ?v = "v\<lparr>hs_Latest := pk_Sequence p, hs_Schema := pk_SchemaVersion p, hs_Packets := hs_Packets v @ [p]\<rparr>"
  obtain streams where st: "replay_append snap p = Inr (snap\<lparr>sp_Streams := streams\<rparr>)"
    "by_key streams = AList.update key ?v (by_key (sp_Streams snap))"
    by (rule replay_append_eq [OF k(2) v_def seq])
  have new: "same_stream ?c (log key @ [p]) ?v (s\<lparr>sm_latest := pk_Sequence p, sm_schema := pk_SchemaVersion p, sm_activity := now,
      sm_items := fst (retain ?c (sm_items s @ [p]) (sm_dropped s)), sm_dropped := d\<rparr>)" for d
    using same n retain_exact [OF c(1) n(1), of p "sm_dropped s"] unfolding same_stream_def
    by (intro conjI exI [of _ n]) simp_all
  have "replayHistoryMutation snap ((mutation HistoryMutationAppend (hi_epoch h))\<lparr>mu_Packet := p\<rparr>) = replay_append snap p"
    using representsD(3) [OF assms(2)] c(2) by (simp add: replayHistoryMutation_def mutation_def HistoryMutationVersion_def)
  with st(1) represents_update [OF assms(2) st(2) new] show ?thesis unfolding A(6) k(1) by simp
qed

lemma Acknowledge_replayed:
  assumes "history_ok log h" "represents log snap h" "map_of (hi_streams h) (observer, stream) = Some s" "q \<le> sm_latest s" "sm_acked s < q"
    and "items = (if prune' then dropWhile (\<lambda>p. pk_Sequence p \<le> q) (sm_items s) else sm_items s)"
  shows "\<exists>snap'. replayHistoryMutation snap ((mutation HistoryMutationAcknowledge (hi_epoch h))\<lparr>mu_Observer := observer, mu_Stream := stream,
      mu_Sequence := q, mu_PruneAcknowledged := prune'\<rparr>) = Inr snap'
    \<and> represents log snap' (h\<lparr>hi_streams := AList.update (observer, stream)
         (s\<lparr>sm_acked := q, sm_items := items, sm_pruned := pruned, sm_activity := now\<rparr>) (hi_streams h)\<rparr>)"
proof -
  let ?key = "(observer, stream)" and ?c = "ho_MaxPacketsPerStream (hi_options h)"
  let ?m = "(mutation HistoryMutationAcknowledge (hi_epoch h))\<lparr>mu_Observer := observer, mu_Stream := stream,
      mu_Sequence := q, mu_PruneAcknowledged := prune'\<rparr>"
  have log: "log_ok (hi_options h) (hi_epoch h) ?key (log ?key)"
    using history_okD(2) [OF assms(1,3)] by (simp add: stream_ok_def)
  obtain v where v: "map_of (by_key (sp_Streams snap)) ?key = Some v" "same_stream ?c (log ?key) v s"
    using representsD(1) [OF assms(2), of ?key] assms(3) by (auto simp: same_entry_def option_rel_Some2)
  obtain n where n: "n \<le> length (log ?key)" "hs_Packets v = drop n (log ?key)"
    "sm_items s = drop (max n (length (log ?key) - nat ?c)) (log ?key)" using v(2) by (auto simp: same_stream_def)
  define packets where "packets = (if prune' then dropWhile (\<lambda>p. pk_Sequence p \<le> q) (hs_Packets v) else hs_Packets v)"
  have h: "map_of (by_key (sp_Streams snap)) (mu_Observer ?m, mu_Stream ?m) = Some v" "mu_Sequence ?m \<le> hs_Latest v"
    "hs_Acked v < mu_Sequence ?m" using v assms(4,5) by (simp_all add: same_stream_def)
  obtain streams pr where st0: "replay_acknowledge snap ?m = Inr (snap\<lparr>sp_Streams := streams\<rparr>)"
    "by_key streams = AList.update (mu_Observer ?m, mu_Stream ?m) (v\<lparr>hs_Acked := mu_Sequence ?m, hs_Packets :=
       (if mu_PruneAcknowledged ?m then dropWhile (\<lambda>p. pk_Sequence p \<le> mu_Sequence ?m) (hs_Packets v) else hs_Packets v), hs_Pruned := pr\<rparr>)
      (by_key (sp_Streams snap))" by (rule replay_acknowledge_eq [OF h])
  have st: "replay_acknowledge snap ?m = Inr (snap\<lparr>sp_Streams := streams\<rparr>)"
    "by_key streams = AList.update ?key (v\<lparr>hs_Acked := q, hs_Packets := packets, hs_Pruned := pr\<rparr>) (by_key (sp_Streams snap))"
    using st0 by (simp_all add: packets_def)
  have q: "unat q \<le> length (log ?key)"
    using assms(4) history_okD(2) [OF assms(1,3)] by (auto elim!: stream_okE simp: word_le_nat_alt)
  let ?n = "if prune' then max n (unat q) else n"
  have it: "packets = drop ?n (log ?key)" "items = drop (max ?n (length (log ?key) - nat ?c)) (log ?key)"
    using items_after [OF log, of _ q] n(1) unfolding packets_def assms(6) n(2,3) by (simp_all add: max.assoc max.commute max.left_commute)
  have new: "same_stream ?c (log ?key) (v\<lparr>hs_Acked := q, hs_Packets := packets, hs_Pruned := pr\<rparr>)
      (s\<lparr>sm_acked := q, sm_items := items, sm_pruned := pruned, sm_activity := now\<rparr>)"
    using v(2) n(1) q it unfolding same_stream_def by (intro conjI exI [of _ ?n]) simp_all
  have "replayHistoryMutation snap ?m = replay_acknowledge snap ?m"
    using representsD(3) [OF assms(2)] assms(1)
    by (simp add: replayHistoryMutation_def mutation_def HistoryMutationVersion_def history_ok_def)
  with st(1) represents_update [OF assms(2) st(2) new] show ?thesis by simp
qed

text \<open>The mutations that remove streams.\<close>

definition removal :: "HistoryMutation \<Rightarrow> streamKey \<Rightarrow> bool" where
  "removal m key \<longleftrightarrow> (case mu_Kind m of
       HistoryMutationDelete \<Rightarrow> key = (mu_Observer m, mu_Stream m)
     | HistoryMutationDeleteView \<Rightarrow> fst key = mu_Observer m
     | HistoryMutationSweep \<Rightarrow> key \<in> set (mu_Targets m)
     | _ \<Rightarrow> False)"

lemma removal_replayed:
  assumes "represents log snap h" "hi_epoch h \<noteq> 0" "mu_Version m = HistoryMutationVersion" "mu_Epoch m = hi_epoch h"
    "mu_Kind m \<in> {HistoryMutationDelete, HistoryMutationDeleteView, HistoryMutationSweep}"
    "\<And>key. map_of streams key = (if removal m key then None else map_of (hi_streams h) key)"
  shows "\<exists>snap'. replayHistoryMutation snap m = Inr snap' \<and> represents (forget (removal m) log) snap' (h\<lparr>hi_streams := streams\<rparr>)"
proof -
  have d: "distinct (map item_key (sp_Streams snap))"
    using representsD(4) [OF assms(1)] by (simp add: gomap_ok_def gokeys_by_key)
  let ?snap = "snap\<lparr>sp_Streams := filter (\<lambda>v. \<not> removal m (item_key v)) (sp_Streams snap)\<rparr>"
  have "replayHistoryMutation snap m = Inr ?snap"
    using assms(2-5) representsD(3) [OF assms(1)]
    by (auto simp: replayHistoryMutation_def removal_def remove_stream_delete [OF d] remove_streams_delete [OF d] item_key_def)
  moreover have "represents (forget (removal m) log) ?snap (h\<lparr>hi_streams := streams\<rparr>)"
    by (rule represents_forget [OF assms(1)]) (simp_all add: assms(6))
  ultimately show ?thesis by blast
qed

lemma rotate_replayed:
  assumes "represents log snap h"
  shows "\<exists>snap'. replayHistoryMutation snap (mutation HistoryMutationRotateEpoch epoch) = Inr snap'
    \<and> represents (forget (\<lambda>_. True) log) snap' (h\<lparr>hi_epoch := epoch, hi_streams := []\<rparr>)"
  using representsD(2) [OF assms]
  by (auto simp: replayHistoryMutation_def mutation_def HistoryMutationVersion_def represents_def same_entry_def)

section \<open>What a history relies on in its journal\<close>

text \<open>
  \<open>loads j snap\<close>: the journal \<open>j\<close> would load \<open>snap\<close>. A mutation that was recorded is replayed by the
  next load; one that was refused is not.
\<close>

locale journal_laws =
  fixes jrecord :: "'j recorder" and jload :: "'j \<Rightarrow> stream_error + HistorySnapshot" and loads :: "'j \<Rightarrow> HistorySnapshot \<Rightarrow> bool"
  assumes loads_load: "loads j snap \<Longrightarrow> jload j = Inr snap"
    and record_ok: "loads j snap \<Longrightarrow> jrecord m j = (j', None) \<Longrightarrow>
      mu_Kind m = HistoryMutationRotateEpoch \<or> mu_Epoch m = sp_Epoch snap \<Longrightarrow> replayHistoryMutation snap m = Inr snap' \<Longrightarrow> loads j' snap'"
    and record_fails: "loads j snap \<Longrightarrow> jrecord m j = (j', Some e) \<Longrightarrow> loads j' snap"

text \<open>A checkpoint replaces what is loaded by an equal snapshot, or fails and changes nothing. \<open>room\<close>: the number of generations is not exhausted.\<close>

locale checkpoint_laws = journal_laws +
  fixes jcheckpoint :: "HistorySnapshot \<Rightarrow> 'j \<Rightarrow> 'j \<times> stream_error option" and room :: "'j \<Rightarrow> bool"
  assumes checkpoint_ok: "loads j snap \<Longrightarrow> room j \<Longrightarrow> jcheckpoint snap' j = (j', None) \<Longrightarrow> loads j' snap'"
    and checkpoint_fails: "loads j snap \<Longrightarrow> room j \<Longrightarrow> jcheckpoint snap' j = (j', Some e) \<Longrightarrow> loads j' snap"

definition agrees :: "('j \<Rightarrow> HistorySnapshot \<Rightarrow> bool) \<Rightarrow> 'j stream_run \<Rightarrow> bool" where
  "agrees loads = (\<lambda>(h, j, log). history_ok log h \<and> (\<exists>snap. loads j snap \<and> represents log snap h))"

text \<open>The methods of a history that record a mutation, by what they record.\<close>

lemma Append_record:
  assumes "Append (Some rec) now h j packet = (h', j', res)"
  shows "(h' = h \<and> (j' = j \<or> (\<exists>m e. rec m j = (j', Some e))) \<and> (\<exists>e. res = Inl e))
    \<or> (\<exists>p. res = Inr p \<and> rec ((mutation HistoryMutationAppend (hi_epoch h))\<lparr>mu_Packet := p\<rparr>) j = (j', None))"
  using assms unfolding Append_def Let_def
  by (auto simp: journal_Record_def split: if_splits prod.splits option.splits)

lemma RotateEpoch_record:
  assumes "RotateEpoch (Some rec) fresh h j epoch = (h', j', res)"
  shows "(h' = h \<and> (j' = j \<or> (\<exists>m e. rec m j = (j', Some e))))
    \<or> (\<exists>ep. ep \<noteq> hi_epoch h \<and> rec (mutation HistoryMutationRotateEpoch ep) j = (j', None) \<and> h' = h\<lparr>hi_epoch := ep, hi_streams := []\<rparr>)"
  using assms by (auto simp: RotateEpoch_def Let_def journal_Record_def split: if_splits prod.splits option.splits)

text \<open>A removal that is recorded, or one that had nothing to remove.\<close>

definition removes :: "'j recorder \<Rightarrow> History \<Rightarrow> 'j \<Rightarrow> (streamKey \<Rightarrow> bool) \<Rightarrow> History \<Rightarrow> 'j \<Rightarrow> bool" where
  "removes rec h j gone h' j' \<longleftrightarrow>
     (\<exists>m streams. rec m j = (j', None) \<and> mu_Version m = HistoryMutationVersion \<and> mu_Epoch m = hi_epoch h
        \<and> mu_Kind m \<in> {HistoryMutationDelete, HistoryMutationDeleteView, HistoryMutationSweep} \<and> removal m = gone
        \<and> h' = h\<lparr>hi_streams := streams\<rparr> \<and> (\<forall>key. map_of streams key = (if gone key then None else map_of (hi_streams h) key)))
     \<or> (j' = j \<and> h' = h \<and> (\<forall>key. gone key \<longrightarrow> map_of (hi_streams h) key = None))"

lemma DeleteStream_record:
  assumes "DeleteStream (Some rec) h j observer stream = (h', j', res)"
  shows "res = Inr () \<Longrightarrow> removes rec h j (\<lambda>key. key = (observer, stream)) h' j'"
    "res = Inl e \<Longrightarrow> h' = h \<and> (\<exists>m. rec m j = (j', Some e))"
proof -
  let ?m = "(mutation HistoryMutationDelete (hi_epoch h))\<lparr>mu_Observer := observer, mu_Stream := stream\<rparr>"
  have m: "mu_Version ?m = HistoryMutationVersion" "mu_Epoch ?m = hi_epoch h" "mu_Kind ?m = HistoryMutationDelete"
    "removal ?m = (\<lambda>key. key = (observer, stream))" by (auto simp: mutation_def removal_def)
  show "res = Inl e \<Longrightarrow> h' = h \<and> (\<exists>m. rec m j = (j', Some e))"
    using assms by (auto simp: DeleteStream_def journal_Record_def split: if_splits prod.splits option.splits)
  show "removes rec h j (\<lambda>key. key = (observer, stream)) h' j'" if "res = Inr ()"
  proof (cases "map_of (hi_streams h) (observer, stream) = None")
    case True
    then show ?thesis using assms by (simp add: DeleteStream_def removes_def)
  next
    case False
    then have "rec ?m j = (j', None)" "h' = h\<lparr>hi_streams := AList.delete (observer, stream) (hi_streams h)\<rparr>"
      using assms that by (auto simp: DeleteStream_def journal_Record_def split: if_splits prod.splits option.splits)
    with m show ?thesis unfolding removes_def
      by (intro disjI1 exI [of _ ?m] exI [of _ "AList.delete (observer, stream) (hi_streams h)"]) simp
  qed
qed

lemma DeleteObserver_record:
  assumes "DeleteObserver (Some rec) h j observer = (h', j', res)"
  shows "res = Inr n \<Longrightarrow> removes rec h j (\<lambda>key. fst key = observer) h' j'"
    "res = Inl e \<Longrightarrow> h' = h \<and> (\<exists>m. rec m j = (j', Some e))"
proof -
  let ?m = "(mutation HistoryMutationDeleteView (hi_epoch h))\<lparr>mu_Observer := observer\<rparr>"
  let ?streams = "filter (\<lambda>(key, _). fst key \<noteq> observer) (hi_streams h)"
  have m: "mu_Version ?m = HistoryMutationVersion" "mu_Epoch ?m = hi_epoch h" "mu_Kind ?m = HistoryMutationDeleteView"
    "removal ?m = (\<lambda>key. fst key = observer)" by (auto simp: mutation_def removal_def)
  show "res = Inl e \<Longrightarrow> h' = h \<and> (\<exists>m. rec m j = (j', Some e))"
    using assms unfolding DeleteObserver_def Let_def by (auto simp: journal_Record_def split: if_splits prod.splits option.splits)
  show "removes rec h j (\<lambda>key. fst key = observer) h' j'" if "res = Inr n"
  proof (cases "length (filter (\<lambda>(key, _). fst key = observer) (hi_streams h)) = 0")
    case True
    then have "\<forall>x \<in> set (hi_streams h). fst (fst x) \<noteq> observer" by (auto simp: filter_empty_conv)
    then have "\<forall>key. fst key = observer \<longrightarrow> map_of (hi_streams h) key = None"
      by (auto simp: map_of_eq_None_iff)
    then show ?thesis using assms True unfolding DeleteObserver_def Let_def removes_def by (simp del: length_0_conv)
  next
    case False
    then have "rec ?m j = (j', None)" "h' = h\<lparr>hi_streams := ?streams\<rparr>"
      using assms that unfolding DeleteObserver_def Let_def
      by (auto simp: journal_Record_def simp del: length_0_conv split: if_splits prod.splits option.splits)
    with m show ?thesis unfolding removes_def
      by (intro disjI1 exI [of _ ?m] exI [of _ ?streams]) (simp add: map_of_filter_key [where P = "\<lambda>key. fst key \<noteq> observer"])
  qed
qed

lemma SweepIdle_record:
  assumes "SweepIdle (Some rec) now h j = (h', j', res)"
  shows "0 < ho_IdleTTL (hi_options h) \<Longrightarrow> res = Inr n \<Longrightarrow> removes rec h j (\<lambda>key. key \<in> set (sweep_keys now h)) h' j'"
    "res = Inl e \<Longrightarrow> h' = h \<and> (\<exists>m. rec m j = (j', Some e))"
proof -
  let ?keys = "sweep_keys now h"
  let ?m = "(mutation HistoryMutationSweep (hi_epoch h))\<lparr>mu_Targets := ?keys\<rparr>"
  have m: "mu_Version ?m = HistoryMutationVersion" "mu_Epoch ?m = hi_epoch h" "mu_Kind ?m = HistoryMutationSweep"
    "removal ?m = (\<lambda>key. key \<in> set ?keys)" by (auto simp: mutation_def removal_def)
  show "res = Inl e \<Longrightarrow> h' = h \<and> (\<exists>m. rec m j = (j', Some e))"
    using assms unfolding SweepIdle_def Let_def by (auto simp: journal_Record_def split: if_splits prod.splits option.splits)
  show "removes rec h j (\<lambda>key. key \<in> set ?keys) h' j'" if "0 < ho_IdleTTL (hi_options h)" "res = Inr n"
  proof (cases "?keys = []")
    case True
    then show ?thesis using assms that unfolding SweepIdle_def Let_def sweep_keys_def [symmetric] removes_def by simp
  next
    case False
    then have "rec ?m j = (j', None)" "h' = h\<lparr>hi_streams := fold AList.delete ?keys (hi_streams h)\<rparr>"
      using assms that unfolding SweepIdle_def Let_def sweep_keys_def [symmetric]
      by (auto simp: journal_Record_def split: if_splits prod.splits option.splits)
    with m show ?thesis unfolding removes_def
      by (intro disjI1 exI [of _ ?m] exI [of _ "fold AList.delete ?keys (hi_streams h)"])
        (simp add: fold_delete map_of_filter_key [where P = "\<lambda>k. k \<notin> set ?keys"])
  qed
qed

lemma forget_nothing:
  assumes "history_ok log h" "\<forall>key. gone key \<longrightarrow> map_of (hi_streams h) key = None"
  shows "forget gone log = log"
proof
  fix key
  show "forget gone log key = log key"
    using history_okD(1) [OF assms(1), of key] assms(2) [rule_format, of key] by (auto simp: forget_def key_ok_def)
qed

context journal_laws
begin

lemma agrees_refused:
  assumes "agrees loads (h, j, log)" "j' = j \<or> (\<exists>m e. jrecord m j = (j', Some e))"
  shows "agrees loads (h, j', log)"
  using assms unfolding agrees_def by (blast dest: record_fails)

lemma agrees_removed:
  assumes "agrees loads (h, j, log)" "removes jrecord h j gone h' j'" "history_ok (forget gone log) h'"
  shows "agrees loads (h', j', forget gone log)"
proof -
  obtain snap where l: "history_ok log h" "loads j snap" "represents log snap h" using assms(1) by (auto simp: agrees_def)
  have e: "hi_epoch h \<noteq> 0" "sp_Epoch snap = hi_epoch h" using l(1) representsD(3) [OF l(3)] by (simp_all add: history_ok_def)
  show ?thesis
    using assms(2) unfolding removes_def
  proof (elim disjE exE conjE)
    fix m streams
    assume m: "jrecord m j = (j', None)" "mu_Version m = HistoryMutationVersion" "mu_Epoch m = hi_epoch h"
      "mu_Kind m \<in> {HistoryMutationDelete, HistoryMutationDeleteView, HistoryMutationSweep}" "removal m = gone"
      and h': "h' = h\<lparr>hi_streams := streams\<rparr>" and st: "\<forall>key. map_of streams key = (if gone key then None else map_of (hi_streams h) key)"
    have st': "map_of streams key = (if removal m key then None else map_of (hi_streams h) key)" for key
      unfolding m(5) by (rule st [rule_format])
    from removal_replayed [OF l(3) e(1) m(2-4) st']
    obtain snap' where s: "replayHistoryMutation snap m = Inr snap'" "represents (forget gone log) snap' h'" unfolding m(5) h' by blast
    have "loads j' snap'" by (rule record_ok [OF l(2) m(1) _ s(1)]) (simp add: m(3) e(2))
    with s(2) assms(3) show ?thesis by (auto simp: agrees_def)
  next
    assume "j' = j" "h' = h" "\<forall>key. gone key \<longrightarrow> map_of (hi_streams h) key = None"
    with assms(1) forget_nothing [OF l(1)] show ?thesis by simp
  qed
qed

lemma agrees_append:
  assumes "agrees loads (h, j, log)" "Append (Some jrecord) now h j packet = (h', j', Inr p)"
    "history_ok (log(packet_key packet := log (packet_key packet) @ [p])) h'"
  shows "agrees loads (h', j', log(packet_key packet := log (packet_key packet) @ [p]))"
proof -
  obtain snap where l: "history_ok log h" "loads j snap" "represents log snap h" using assms(1) by (auto simp: agrees_def)
  let ?m = "(mutation HistoryMutationAppend (hi_epoch h))\<lparr>mu_Packet := p\<rparr>"
  have r: "jrecord ?m j = (j', None)" using Append_record [OF assms(2)] by simp
  obtain snap' where s: "replayHistoryMutation snap ?m = Inr snap'"
    "represents (log(packet_key packet := log (packet_key packet) @ [p])) snap' h'"
    using Append_replayed [OF l(1,3) assms(2)] by blast
  have "loads j' snap'" by (rule record_ok [OF l(2) r _ s(1)]) (simp add: mutation_def representsD(3) [OF l(3)])
  with s(2) assms(3) show ?thesis unfolding agrees_def by blast
qed

lemma agrees_acknowledge:
  assumes "agrees loads (h, j, log)" "AcknowledgeEpoch (Some jrecord) now h j observer stream epoch q = (h', j', res)"
  shows "agrees loads (h', j', log)"
proof -
  obtain snap where l: "history_ok log h" "loads j snap" "represents log snap h" using assms(1) by (auto simp: agrees_def)
  have ok: "history_ok log h'" by (rule AcknowledgeEpoch_ok [OF l(1) assms(2)])
  from assms(2) show ?thesis
  proof (cases rule: AcknowledgeEpoch_cases)
    case same
    then have "j' = j \<or> (\<exists>m e. jrecord m j = (j', Some e))" by (simp add: journal_Record_def)
    with same agrees_refused [OF assms(1)] show ?thesis by simp
  next
    case (progress s items pruned)
    let ?m = "(mutation HistoryMutationAcknowledge (hi_epoch h))\<lparr>mu_Observer := observer, mu_Stream := stream,
      mu_Sequence := q, mu_PruneAcknowledged := ho_PruneAcknowledged (hi_options h)\<rparr>"
    obtain snap' where s: "replayHistoryMutation snap ?m = Inr snap'" "represents log snap' h'"
      using Acknowledge_replayed [OF l(1,3) progress(1-4)] progress(7) by blast
    have r: "jrecord ?m j = (j', None)" using progress(9) by (simp add: journal_Record_def)
    have "loads j' snap'" by (rule record_ok [OF l(2) r _ s(1)]) (simp add: mutation_def representsD(3) [OF l(3)])
    with s(2) ok show ?thesis unfolding agrees_def by blast
  qed
qed

lemma agrees_rotate:
  assumes "agrees loads (h, j, log)" "RotateEpoch (Some jrecord) fresh h j epoch = (h', j', res)" "fresh \<noteq> 0"
  shows "agrees loads (h', j', if hi_epoch h' = hi_epoch h then log else forget (\<lambda>_. True) log)"
proof -
  obtain snap where l: "history_ok log h" "loads j snap" "represents log snap h" using assms(1) by (auto simp: agrees_def)
  note ok = RotateEpoch_ok [OF l(1) assms(2,3)]
  show ?thesis using RotateEpoch_record [OF assms(2)]
  proof (elim disjE conjE exE)
    fix ep
    assume e: "ep \<noteq> hi_epoch h" "jrecord (mutation HistoryMutationRotateEpoch ep) j = (j', None)" "h' = h\<lparr>hi_epoch := ep, hi_streams := []\<rparr>"
    obtain snap' where s: "replayHistoryMutation snap (mutation HistoryMutationRotateEpoch ep) = Inr snap'"
      "represents (forget (\<lambda>_. True) log) snap' h'" using rotate_replayed [OF l(3)] e(3) by blast
    have "loads j' snap'" by (rule record_ok [OF l(2) e(2) _ s(1)]) (simp add: mutation_def)
    with s(2) ok e(1,3) show ?thesis by (auto simp: agrees_def)
  qed (use agrees_refused [OF assms(1), of j'] in auto)
qed

lemma agrees_step:
  assumes "stream_step (Some jrecord) (h, j, log) (h', j', log')" "agrees loads (h, j, log)"
  shows "agrees loads (h', j', log')"
proof -
  have ok: "history_ok log' h'" by (rule stream_step_ok [OF assms(1)]) (use assms(2) in \<open>simp add: agrees_def\<close>)
  have refused: "agrees loads (h', j', log)" if "h' = h \<and> (\<exists>m. jrecord m j = (j', Some e))" for e
    using that agrees_refused [OF assms(2), of j'] by auto
  from assms(1) show ?thesis
  proof (cases rule: stream_step.cases)
    case (append now packet p)
    show ?thesis using agrees_append [OF assms(2) append(2)] ok append(1) by simp
  next
    case (append_fails now packet e)
    have "h' = h \<and> (j' = j \<or> (\<exists>m e. jrecord m j = (j', Some e)))" using Append_record [OF append_fails(2)] by auto
    then show ?thesis using agrees_refused [OF assms(2), of j'] append_fails(1) by simp
  next
    case (acknowledge now observer stream epoch q res)
    show ?thesis using agrees_acknowledge [OF assms(2) acknowledge(2)] acknowledge(1) by simp
  next
    case (rotate fresh epoch res)
    show ?thesis unfolding rotate(1) by (rule agrees_rotate [OF assms(2) rotate(2,3)])
  next
    case (delete observer stream)
    show ?thesis using agrees_removed [OF assms(2) DeleteStream_record(1) [OF delete(2) refl]] ok delete(1) by simp
  next
    case (delete_fails observer stream e)
    show ?thesis unfolding delete_fails(1) by (rule refused [OF DeleteStream_record(2) [OF delete_fails(2) refl]])
  next
    case (delete_observer observer n)
    show ?thesis using agrees_removed [OF assms(2) DeleteObserver_record(1) [OF delete_observer(2) refl]] ok delete_observer(1) by simp
  next
    case (delete_observer_fails observer e)
    show ?thesis unfolding delete_observer_fails(1) by (rule refused [OF DeleteObserver_record(2) [OF delete_observer_fails(2) refl]])
  next
    case (sweep now n)
    show ?thesis using agrees_removed [OF assms(2) SweepIdle_record(1) [OF sweep(2,3) refl]] ok sweep(1) by simp
  next
    case (sweep_fails now e)
    show ?thesis unfolding sweep_fails(1) by (rule refused [OF SweepIdle_record(2) [OF sweep_fails(2) refl]])
  qed
qed

end

section \<open>Recovery from a snapshot that stands for a history\<close>

lemma map_of_by_key: "map_of (map (\<lambda>v. (item_key v, f v)) vs) key = map_option f (map_of (by_key vs) key)"
  by (induction vs) auto

definition recovered :: "streamState \<Rightarrow> streamState \<Rightarrow> bool" where
  "recovered s' s \<longleftrightarrow> sm_latest s' = sm_latest s \<and> sm_acked s' = sm_acked s \<and> sm_schema s' = sm_schema s \<and> sm_items s' = sm_items s"

lemma log_ok_options: "ho_MaxPayloadBytes opts' = ho_MaxPayloadBytes opts \<Longrightarrow> log_ok opts epoch key all = log_ok opts' epoch key all"
  by (simp add: log_ok_def entry_ok_def)

lemma import_represented:
  assumes "stream_ok opts epoch key all s" "same_stream (ho_MaxPacketsPerStream opts) all v s" "item_key v = key"
    and "0 < ho_MaxPacketsPerStream opts" "ho_MaxPacketsPerStream opts' = ho_MaxPacketsPerStream opts" "ho_MaxPayloadBytes opts' = ho_MaxPayloadBytes opts"
  obtains s' where "import_stream opts' now epoch v = Inr s'" "recovered s' s"
  using assms(1)
proof (rule stream_okE)
  fix k
  assume s: "log_ok opts epoch key all" "all \<noteq> []" "sm_latest s = of_nat (length all)"
    "sm_schema s = pk_SchemaVersion (last all)" "sm_acked s \<le> sm_latest s"
    and k: "k \<le> length all" "sm_items s = drop k all" "k = length all \<Longrightarrow> sm_acked s = sm_latest s"
  let ?c = "ho_MaxPacketsPerStream opts"
  obtain n where n: "n \<le> length all" "hs_Packets v = drop n all" "sm_items s = drop (max n (length all - nat ?c)) all"
    and v: "hs_Latest v = sm_latest s" "hs_Acked v = sm_acked s" "hs_Schema v = sm_schema s" using assms(2) by (auto simp: same_stream_def)
  have pk: "import_packets opts' epoch v None (drop n all) = Inr (drop n all)"
    by (rule import_packets_log [OF s(1) [unfolded log_ok_options [OF assms(6)]]]) (simp_all add: assms(3) [symmetric] item_key_def)
  let ?kept = "drop (max n (length all - nat ?c)) all"
  have keep: "fst (retain ?c (drop n all) d) = ?kept" for d
    unfolding retain_items [OF assms(4)] using n(1) by (simp add: max_def) (metis add.commute diff_commute le_add_diff_inverse nat_le_linear drop_drop diff_diff_left diff_is_0_eq)
  have last: "pk_Sequence (last all) = sm_latest s" "pk_SchemaVersion (last all) \<noteq> 0"
    using log_ok_entry [OF s(1), of "length all - 1"] s(2,3) by (simp_all add: entry_ok_def last_conv_nth del: of_nat_Suc)
  have sc: "(if length ?kept > 0 then pk_SchemaVersion (last ?kept) else sm_schema s) = sm_schema s"
    using s(4) by (simp add: last_drop)
  have none: "sm_acked s = sm_latest s" if "length (drop n all) = 0"
    using that n k by (metis (no_types) drop_eq_Nil2 le_antisym length_0_conv max.coboundedI1)
  have c1: "\<not> (sm_acked s > sm_latest s \<or> (sm_latest s > 0 \<and> length (drop n all) = 0 \<and> sm_acked s \<noteq> sm_latest s))"
    using s(5) none by auto
  have c2: "\<not> (length (drop n all) > 0 \<and> pk_Sequence (last (drop n all)) \<noteq> sm_latest s)"
    using last by (simp add: last_drop)
  have c3: "\<not> (sm_latest s > 0 \<and> sm_schema s = 0)" using last(2) s(4) by simp
  obtain d where d: "retain ?c (drop n all) (hs_Dropped v) = (?kept, d)" using keep by (metis prod.collapse)
  have "import_stream opts' now epoch v = Inr \<lparr>sm_latest = sm_latest s, sm_acked = sm_acked s, sm_dropped = d, sm_pruned = hs_Pruned v,
      sm_schema = sm_schema s, sm_activity = (if hs_LastActivity v = 0 then now else hs_LastActivity v), sm_items = ?kept\<rparr>"
    unfolding import_stream_def v Let_def n(2) if_not_P [OF c1] pk try_bind_simps if_not_P [OF c2] assms(5) d prod.case sc if_not_P [OF c3]
    by (rule refl)
  then show thesis by (rule that) (simp add: recovered_def n(3))
qed

lemma represents_length:
  assumes "represents log snap h" "history_ok log h"
  shows "length (sp_Streams snap) = length (hi_streams h)"
proof -
  have "dom (map_of (by_key (sp_Streams snap))) = dom (map_of (hi_streams h))"
  proof (rule set_eqI)
    fix k
    show "k \<in> dom (map_of (by_key (sp_Streams snap))) \<longleftrightarrow> k \<in> dom (map_of (hi_streams h))"
      using representsD(1) [OF assms(1), of k] by (auto simp: same_entry_def domIff option.rel_sel)
  qed
  then show ?thesis
    using gomap_card [OF representsD(4) [OF assms(1)]] gomap_card [of "hi_streams h"] assms(2) by (simp add: history_ok_def)
qed

lemma Import_represents:
  assumes "history_ok log h" "represents log snap h" "ho_MaxPacketsPerStream (hi_options h0) = ho_MaxPacketsPerStream (hi_options h)"
    "ho_MaxPayloadBytes (hi_options h0) = ho_MaxPayloadBytes (hi_options h)" "ho_MaxStreams (hi_options h0) = ho_MaxStreams (hi_options h)"
  shows "\<exists>h'. Import now h0 snap = Inr h' \<and> hi_epoch h' = hi_epoch h \<and> hi_options h' = hi_options h0
    \<and> gomap_ok (hi_streams h') \<and> length (hi_streams h') = length (hi_streams h)
    \<and> (\<forall>key. rel_option recovered (map_of (hi_streams h') key) (map_of (hi_streams h) key))"
proof -
  let ?imp = "import_stream (hi_options h0) now (hi_epoch h)"
  have c: "0 < ho_MaxPacketsPerStream (hi_options h)" using assms(1) by (simp add: history_ok_def options_ok_def)
  have d: "distinct (map item_key (sp_Streams snap))" using representsD(4) [OF assms(2)] by (simp add: gomap_ok_def gokeys_by_key)
  have each: "\<exists>s s'. map_of (hi_streams h) (item_key v) = Some s \<and> ?imp v = Inr s' \<and> recovered s' s \<and> st_Topic (hs_Stream v) \<noteq> []"
    if "v \<in> set (sp_Streams snap)" for v
  proof -
    have "map_of (by_key (sp_Streams snap)) (item_key v) = Some v"
      using that representsD(4) [OF assms(2)] by (intro map_of_is_SomeI) (auto simp: gomap_ok_def by_key_def)
    then obtain s where s: "map_of (hi_streams h) (item_key v) = Some s"
      "same_stream (ho_MaxPacketsPerStream (hi_options h)) (log (item_key v)) v s"
      using representsD(1) [OF assms(2), of "item_key v"] by (auto simp: same_entry_def option_rel_Some1)
    have ok: "stream_ok (hi_options h) (hi_epoch h) (item_key v) (log (item_key v)) s" by (rule history_okD(2) [OF assms(1) s(1)])
    then have "st_Topic (hs_Stream v) \<noteq> []" by (simp add: stream_ok_def log_ok_def item_key_def)
    moreover obtain s' where "?imp v = Inr s'" "recovered s' s"
      by (rule import_represented [OF ok s(2) refl c assms(3,4)])
    ultimately show ?thesis using s(1) by blast
  qed
  define f where "f v = projr (?imp v)" for v
  have imp: "import_streams (hi_options h0) now (hi_epoch h) [] (sp_Streams snap) = Inr ([] @ map (\<lambda>v. (item_key v, f v)) (sp_Streams snap))"
    by (rule import_streams_items) (use d each in \<open>auto simp: f_def\<close>, use each in fastforce)
  have look: "map_of (map (\<lambda>v. (item_key v, f v)) (sp_Streams snap)) key = map_option f (map_of (by_key (sp_Streams snap)) key)" for key
    by (rule map_of_by_key)
  have "rel_option recovered (map_of (map (\<lambda>v. (item_key v, f v)) (sp_Streams snap)) key) (map_of (hi_streams h) key)" for key
  proof (cases "map_of (by_key (sp_Streams snap)) key")
    case None
    with representsD(1) [OF assms(2), of key] show ?thesis by (simp add: look same_entry_def)
  next
    case (Some v)
    then have "v \<in> set (sp_Streams snap)" "item_key v = key" by (auto dest!: map_of_SomeD simp: by_key_def)
    with each [of v] show ?thesis unfolding look Some by (auto simp: f_def)
  qed
  moreover have "Import now h0 snap = Inr (h0\<lparr>hi_streams := map (\<lambda>v. (item_key v, f v)) (sp_Streams snap), hi_epoch := hi_epoch h\<rparr>)"
    using imp representsD(2,3) [OF assms(2)] assms(1,5) represents_length [OF assms(2,1)] by (auto simp: Import_def history_ok_def)
  moreover have "gomap_ok (map (\<lambda>v. (item_key v, f v)) (sp_Streams snap))" using d by (simp add: gomap_ok_def comp_def)
  ultimately show ?thesis using represents_length [OF assms(2,1)]
    by (intro exI [where x = "h0\<lparr>hi_streams := map (\<lambda>v. (item_key v, f v)) (sp_Streams snap), hi_epoch := hi_epoch h\<rparr>"] conjI allI) simp_all
qed


lemma stream_ok_epoch: "stream_ok (opts\<lparr>ho_Epoch := e\<rparr>) epoch key all s = stream_ok opts epoch key all s"
  by (simp add: stream_ok_def log_ok_def entry_ok_def)

lemma stream_ok_recovered: "recovered s' s \<Longrightarrow> stream_ok opts epoch key all s' = stream_ok opts epoch key all s"
  by (simp add: stream_ok_def recovered_def)

lemma recovered_agrees:
  assumes "history_ok log h" "represents log snap h" "\<And>key. rel_option recovered (map_of (hi_streams h') key) (map_of (hi_streams h) key)"
    "hi_options h' = (hi_options h)\<lparr>ho_Epoch := e\<rparr>" "hi_epoch h' = hi_epoch h" "gomap_ok (hi_streams h')" "length (hi_streams h') = length (hi_streams h)"
  shows "history_ok log h'" "represents log snap h'"
proof -
  have key: "key_ok (hi_options h') (hi_epoch h') key (log key) (map_of (hi_streams h') key)" for key
  proof -
    have "key_ok (hi_options h) (hi_epoch h) key (log key) (map_of (hi_streams h) key)" using assms(1) unfolding history_ok_def by blast
    with assms(3) [of key] show ?thesis
      by (cases "map_of (hi_streams h) key") (auto simp: key_ok_def stream_ok_epoch stream_ok_recovered assms(4,5) option_rel_Some2)
  qed
  moreover have "options_ok (hi_options h') = options_ok (hi_options h)" by (simp add: options_ok_def assms(4))
  ultimately show "history_ok log h'" using assms(1,4-7) unfolding history_ok_def by simp
  show "represents log snap h'"
  proof (rule representsI)
    fix key
    show "same_entry (ho_MaxPacketsPerStream (hi_options h')) (log key) (map_of (by_key (sp_Streams snap)) key) (map_of (hi_streams h') key)"
      using representsD(1) [OF assms(2), of key] assms(3) [of key]
      by (cases "map_of (hi_streams h) key") (auto simp: same_entry_def same_stream_def recovered_def assms(4) option_rel_Some2)
  qed (use representsD(2-4) [OF assms(2)] assms(5) in simp_all)
qed

section \<open>A history with its journal\<close>

inductive journaled ::
  "'j recorder \<Rightarrow> (HistorySnapshot \<Rightarrow> 'j \<Rightarrow> 'j \<times> stream_error option) \<Rightarrow> ('j \<Rightarrow> bool) \<Rightarrow> 'j stream_run \<Rightarrow> 'j stream_run \<Rightarrow> bool"
  for jrec cp room where
  a_method: "stream_step (Some jrec) r r' \<Longrightarrow> journaled jrec cp room r r'"
| a_checkpoint: "room j \<Longrightarrow> history_Checkpoint (Some cp) h j = (j', err) \<Longrightarrow> journaled jrec cp room (h, j, log) (h, j', log)"

lemma map_of_keyed: "map_of (map (\<lambda>(k, s). (k, g k s)) m) key = map_option (g key) (map_of m key)"
  by (induction m) auto

lemma represents_export:
  assumes "history_ok log h"
  shows "represents log (exportLocked h) h"
proof (rule representsI)
  let ?kvs = "sort_key (\<lambda>kv. export_key (export_stream kv)) (hi_streams h)"
  have g: "distinct (map fst (hi_streams h))" using assms by (simp add: history_ok_def gomap_ok_def)
  have k: "item_key (export_stream kv) = fst kv" for kv by (cases kv) (auto simp: export_stream_def item_key_def split_def)
  have vs: "sp_Streams (exportLocked h) = map export_stream ?kvs" by (simp add: exportLocked_def sort_key_map)
  then have b: "by_key (sp_Streams (exportLocked h)) = map (\<lambda>(key, s). (key, export_stream (key, s))) ?kvs"
    by (simp add: by_key_def k split_def)
  show "gomap_ok (by_key (sp_Streams (exportLocked h)))" using g by (simp add: b gomap_ok_def distinct_map comp_def split_def inj_on_def)
  have "map_of ?kvs = map_of (hi_streams h)" using g by (subst map_of_inject_set) (simp_all add: distinct_map)
  then have look: "map_of (by_key (sp_Streams (exportLocked h))) key = map_option (\<lambda>s. export_stream (key, s)) (map_of (hi_streams h) key)" for key
    unfolding b by (simp add: map_of_keyed [where g = "\<lambda>k s. export_stream (k, s)"])
  fix key
  show "same_entry (ho_MaxPacketsPerStream (hi_options h)) (log key) (map_of (by_key (sp_Streams (exportLocked h))) key) (map_of (hi_streams h) key)"
  proof (cases "map_of (hi_streams h) key")
    case None
    then show ?thesis by (simp add: look same_entry_def)
  next
    case (Some s)
    have "same_stream (ho_MaxPacketsPerStream (hi_options h)) (log key) (export_stream (key, s)) s"
      using history_okD(2) [OF assms Some]
    proof (rule stream_okE)
      fix n
      assume n: "n \<le> length (log key)" "sm_items s = drop n (log key)" "int (length (log key)) - int n \<le> ho_MaxPacketsPerStream (hi_options h)"
      have "max n (length (log key) - nat (ho_MaxPacketsPerStream (hi_options h))) = n" using n(3) by simp
      with n(1,2) show ?thesis
        by (auto simp: same_stream_def export_stream_def split_def map_idI intro!: exI [of _ n])
    qed
    with Some show ?thesis by (simp add: look same_entry_def)
  qed
qed (simp_all add: exportLocked_def)

lemma stream_step_options:
  assumes "stream_step jr (h, j, log) (h', j', log')"
  shows "hi_options h' = hi_options h"
  using assms
proof (cases rule: stream_step.cases)
  case (append now packet p)
  then show ?thesis using Append_Inr(6) [of jr now h j packet h' j' p] by simp
next
  case (append_fails now packet e)
  then show ?thesis by (auto dest: Append_Inl)
next
  case (acknowledge now observer stream epoch q res)
  from acknowledge(2) show ?thesis by (cases rule: AcknowledgeEpoch_cases) simp_all
qed (auto simp: RotateEpoch_def DeleteStream_def DeleteObserver_def SweepIdle_def Let_def split: if_splits prod.splits option.splits)

context checkpoint_laws
begin

lemma agrees_run:
  assumes "(journaled jrecord jcheckpoint room)\<^sup>*\<^sup>* r r'" "agrees loads r"
  shows "agrees loads r' \<and> hi_options (fst r') = hi_options (fst r)"
  using assms
proof (induction rule: rtranclp_induct)
  case (step y z)
  note ok = step.IH [OF step.prems]
  from step.hyps(2) show ?case
  proof (cases rule: journaled.cases)
    case a_method
    obtain h j log h' j' log' where yz: "y = (h, j, log)" "z = (h', j', log')" by (metis prod.exhaust)
    show ?thesis
      using ok agrees_step [of h j log h' j' log'] stream_step_options [of "Some jrecord" h j log h' j' log'] a_method yz by simp
  next
    case (a_checkpoint j h j' err log)
    then obtain snap where l: "history_ok log h" "loads j snap" "represents log snap h" using ok by (auto simp: agrees_def)
    have cp: "jcheckpoint (exportLocked h) j = (j', err)" using a_checkpoint by (simp add: history_Checkpoint_def)
    have "\<exists>snap. loads j' snap \<and> represents log snap h"
      using checkpoint_ok [OF l(2) a_checkpoint(3)] checkpoint_fails [OF l(2) a_checkpoint(3)] cp represents_export [OF l(1)] l(3)
      by (cases err) blast+
    with l(1) ok a_checkpoint show ?thesis by (auto simp: agrees_def)
  qed
qed simp

lemma starts:
  assumes "loads j snap" "sp_Version snap = HistorySnapshotVersion" "sp_Epoch snap \<noteq> 0" "sp_Streams snap = []"
    "NewHistoryWithJournal options fresh now (Some jload) j = Inr h"
  shows "agrees loads (h, j, \<lambda>_. [])" "hi_options h = hi_options (NewHistory options fresh)"
proof -
  have h: "h = (NewHistory options fresh)\<lparr>hi_streams := [], hi_epoch := sp_Epoch snap\<rparr>"
    using assms loads_load [OF assms(1)] by (auto simp: NewHistoryWithJournal_def Import_def split: if_splits)
  then show "hi_options h = hi_options (NewHistory options fresh)" by simp
  have "history_ok (\<lambda>_. []) h" unfolding h using assms(3)
    by (intro history_okI) (auto simp: NewHistory_def Let_def options_ok_def key_ok_def)
  moreover have "represents (\<lambda>_. []) snap h" unfolding h using assms(2,4) by (intro representsI) (simp_all add: same_entry_def)
  ultimately show "agrees loads (h, j, \<lambda>_. [])" using assms(1) by (auto simp: agrees_def)
qed

end

section \<open>The file journal keeps the laws\<close>

lemma sorted_rev_hd:
  fixes xs :: "u64 list"
  assumes "rev (sort xs) = g # gs"
  shows "g \<in> set xs" "\<forall>x \<in> set xs. x \<le> g"
proof -
  have s: "sort xs = rev gs @ [g]" using assms by (metis rev.simps(2) rev_rev_ident)
  have "set (sort xs) = set xs" by simp
  then show "g \<in> set xs" unfolding s by auto
  have "sorted (rev gs @ [g])" using sorted_sort [of xs] s by simp
  then have "\<forall>x \<in> set (rev gs @ [g]). x \<le> g" by (auto simp: sorted_append)
  then show "\<forall>x \<in> set xs. x \<le> g" using \<open>set (sort xs) = set xs\<close> unfolding s by blast
qed

lemma generations_Nil: "checkpointGenerations jn = [] \<longleftrightarrow> (\<forall>g \<in> set (gokeys (fj_checkpoints jn)). g = 0)"
  by (auto simp: checkpointGenerations_def filter_empty_conv word_gt_0 simp flip: set_empty)

lemma generations_Cons:
  assumes "checkpointGenerations jn = g # gs"
  shows "g > 0" "g \<in> set (gokeys (fj_checkpoints jn))" "\<forall>k \<in> set (gokeys (fj_checkpoints jn)). k \<le> g"
  using sorted_rev_hd [OF assms [unfolded checkpointGenerations_def]] by (auto simp: word_gt_0)

lemma generations_intro:
  assumes "g > 0" "g \<in> set (gokeys (fj_checkpoints jn))" "\<forall>k \<in> set (gokeys (fj_checkpoints jn)). k \<le> g"
  obtains gs where "checkpointGenerations jn = g # gs"
proof (cases "checkpointGenerations jn")
  case Nil
  then show thesis using generations_Nil assms(1,2) by auto
next
  case (Cons g' gs)
  note c = generations_Cons [OF Cons]
  have "g' = g" using c(2,3) assms(2,3) by (metis order.antisym)
  with Cons that show thesis by simp
qed

lemma replay_lines_append:
  "replay_lines (ls @ [Entry m]) snap = try_bind (replay_lines ls snap) (\<lambda>s. replayHistoryMutation s m)"
proof (induction ls arbitrary: snap)
  case (Cons l ls)
  then show ?case by (cases l; cases "replayHistoryMutation snap (case l of Entry m \<Rightarrow> m | Torn \<Rightarrow> undefined)") auto
qed (auto simp: try_bind_def split: sum.splits)

text \<open>The journal at rest: it would load \<open>snap\<close>, and its log ends with a complete line.\<close>

definition settled :: "FileHistoryJournal \<Rightarrow> HistorySnapshot \<Rightarrow> bool" where
  "settled jn snap \<longleftrightarrow> Load None jn = (jn, Inr snap) \<and> \<not> wl_tail (open_wal (map_of (fj_wals jn) (fj_generation jn)))"

definition initial_snapshot :: "u64 \<Rightarrow> HistorySnapshot" where
  "initial_snapshot epoch = \<lparr>sp_Version = HistorySnapshotVersion, sp_Epoch = epoch, sp_Streams = []\<rparr>"

text \<open>The snapshot a load starts from, and the lines it replays.\<close>

definition load_base :: "FileHistoryJournal \<Rightarrow> wal_line list \<Rightarrow> HistorySnapshot option" where
  "load_base jn ls = (case checkpointGenerations jn of
       [] \<Rightarrow> Some (initial_snapshot (if ls = [] then fj_initialEpoch jn else 0))
     | g # _ \<Rightarrow> (case map_of (fj_checkpoints jn) g of None \<Rightarrow> None | Some c \<Rightarrow> if fc_Generation c = g then Some (fc_Snapshot c) else None))"

definition newest :: "FileHistoryJournal \<Rightarrow> bool" where
  "newest jn \<longleftrightarrow> (case checkpointGenerations jn of [] \<Rightarrow> fj_generation jn = 1
     | g # _ \<Rightarrow> fj_generation jn = g \<and> map_of (fj_wals jn) g \<noteq> None)"

lemma settled_iff:
  "settled jn snap \<longleftrightarrow> newest jn \<and> \<not> wl_tail (open_wal (map_of (fj_wals jn) (fj_generation jn)))
    \<and> (\<exists>base. load_base jn (wl_lines (open_wal (map_of (fj_wals jn) (fj_generation jn)))) = Some base
        \<and> replay_lines (wl_lines (open_wal (map_of (fj_wals jn) (fj_generation jn)))) base = Inr snap)"
proof (cases "checkpointGenerations jn")
  case Nil
  have g: "jn\<lparr>fj_generation := 1\<rparr> = jn \<longleftrightarrow> fj_generation jn = 1" by (metis FileHistoryJournal.select_convs(4) FileHistoryJournal.surjective FileHistoryJournal.update_convs(4))
  show ?thesis
    unfolding settled_def newest_def load_base_def Load_def Nil list.case Let_def
    using g by (cases "map_of (fj_wals jn) 1") (auto simp: open_wal_def replayWAL_def initial_snapshot_def)
next
  case (Cons h gs)
  have g: "jn\<lparr>fj_generation := h\<rparr> = jn \<longleftrightarrow> fj_generation jn = h" by (metis FileHistoryJournal.select_convs(4) FileHistoryJournal.surjective FileHistoryJournal.update_convs(4))
  show ?thesis
    unfolding settled_def newest_def load_base_def Load_def Cons list.case
    using g by (auto simp: open_wal_def replayWAL_def loadGeneration_def split: option.splits sum.splits if_splits)
qed

lemma replay_from_zero:
  assumes "mu_Kind m = HistoryMutationRotateEpoch \<or> mu_Epoch m = epoch"
  shows "replayHistoryMutation (initial_snapshot 0) m = replayHistoryMutation (initial_snapshot epoch) m"
  using assms by (cases "epoch = 0") (auto simp: replayHistoryMutation_def initial_snapshot_def Let_def)

definition put_wal :: "FileHistoryJournal \<Rightarrow> wal_file \<Rightarrow> FileHistoryJournal" where
  "put_wal jn f = jn\<lparr>fj_wals := AList.update (fj_generation jn) f (fj_wals jn)\<rparr>"

lemma put_wal_simps [simp]:
  "fj_generation (put_wal jn f) = fj_generation jn" "map_of (fj_wals (put_wal jn f)) = (map_of (fj_wals jn))(fj_generation jn \<mapsto> f)"
  "checkpointGenerations (put_wal jn f) = checkpointGenerations jn" "load_base (put_wal jn f) ls = load_base jn ls"
  "newest jn \<Longrightarrow> newest (put_wal jn f)"
  by (auto simp: put_wal_def checkpointGenerations_def load_base_def newest_def split: list.splits)

lemma open_wal_Some [simp]: "open_wal (Some f) = f"
  by (simp add: open_wal_def)

lemma settled_written:
  assumes "settled jn snap" "mu_Kind m = HistoryMutationRotateEpoch \<or> mu_Epoch m = sp_Epoch snap" "replayHistoryMutation snap m = Inr snap'"
  shows "settled (put_wal jn (write_line m (open_wal (map_of (fj_wals jn) (fj_generation jn))))) snap'"
proof -
  let ?f = "open_wal (map_of (fj_wals jn) (fj_generation jn))"
  obtain base where b: "newest jn" "\<not> wl_tail ?f" "load_base jn (wl_lines ?f) = Some base" "replay_lines (wl_lines ?f) base = Inr snap"
    using assms(1) unfolding settled_iff by blast
  have lines: "wl_lines (write_line m ?f) = wl_lines ?f @ [Entry m]" "\<not> wl_tail (write_line m ?f)" using b(2) by (simp_all add: write_line_def)
  have "\<exists>base'. load_base jn (wl_lines ?f @ [Entry m]) = Some base' \<and> replay_lines (wl_lines ?f @ [Entry m]) base' = Inr snap'"
  proof (cases "checkpointGenerations jn = [] \<and> wl_lines ?f = []")
    case True
    then have "snap = initial_snapshot (fj_initialEpoch jn)" using b(3,4) by (simp add: load_base_def)
    then have "replayHistoryMutation (initial_snapshot 0) m = Inr snap'"
      using replay_from_zero assms(2,3) by (simp add: initial_snapshot_def)
    with True show ?thesis by (simp add: load_base_def)
  next
    case False
    then have "load_base jn (wl_lines ?f @ [Entry m]) = Some base" using b(3) by (auto simp: load_base_def split: list.splits)
    with b(4) assms(3) show ?thesis by (simp add: replay_lines_append)
  qed
  with b(1) lines show ?thesis unfolding settled_iff by simp
qed

lemma settled_touched:
  "settled jn snap \<Longrightarrow> settled (put_wal jn (open_wal (map_of (fj_wals jn) (fj_generation jn)))) snap"
  unfolding settled_iff by simp

text \<open>A checkpoint that fails anywhere, and one that is published.\<close>

lemma next_generation:
  assumes "fj_generation jn < -1"
  shows "fj_generation jn < fj_generation jn + 1" "0 < fj_generation jn + 1"
proof -
  have "unat (fj_generation jn) < unat (-1 :: u64)" using assms by (simp add: word_less_nat_alt)
  then have "unat (fj_generation jn + 1) = unat (fj_generation jn) + 1" by (simp add: unat_word_ariths unsigned_minus_1_eq_mask mask_eq_exp_minus_1)
  then show "fj_generation jn < fj_generation jn + 1" "0 < fj_generation jn + 1" by (simp_all add: word_less_nat_alt)
qed

lemma settled_other_wal:
  assumes "settled jn snap" "fj_checkpoints jn' = fj_checkpoints jn" "fj_initialEpoch jn' = fj_initialEpoch jn" "fj_generation jn' = fj_generation jn"
    "map_of (fj_wals jn') (fj_generation jn) = map_of (fj_wals jn) (fj_generation jn)"
  shows "settled jn' snap"
proof -
  have "checkpointGenerations jn' = checkpointGenerations jn" "load_base jn' ls = load_base jn ls" for ls
    by (simp_all only: checkpointGenerations_def load_base_def assms(2,3))
  moreover have "newest jn' = newest jn" 
    using assms(4,5) calculation(1) by (cases "checkpointGenerations jn") (simp_all add: newest_def, metis)
  ultimately show ?thesis using assms(1,4,5) unfolding settled_iff by simp
qed

lemma newest_bound:
  assumes "newest jn"
  shows "\<forall>k \<in> set (gokeys (fj_checkpoints jn)). k \<le> fj_generation jn"
proof (cases "checkpointGenerations jn")
  case Nil
  then show ?thesis using generations_Nil [of jn] by auto
next
  case (Cons g gs)
  then show ?thesis using generations_Cons(3) [OF Cons] assms by (simp add: newest_def)
qed

lemma gokeys_delete_subset: "set (gokeys (AList.delete k m)) \<subseteq> set (gokeys m)"
  by (auto simp: delete_keys)

lemma settled_published:
  fixes snap' :: HistorySnapshot
  assumes "settled jn snap" "fj_generation jn < -1"
  defines "next \<equiv> fj_generation jn + 1"
  defines "published \<equiv> jn\<lparr>fj_wals := AList.update next \<lparr>wl_lines = [], wl_tail = False\<rparr> (fj_wals jn),
    fj_checkpoints := AList.update next \<lparr>fc_Generation = next, fc_Snapshot = snap'\<rparr> (fj_checkpoints jn), fj_generation := next\<rparr>"
  shows "settled (removeObsoleteGenerations cg wg next published) snap'"
proof -
  let ?jn = "removeObsoleteGenerations cg wg next published"
  have n: "fj_generation jn < next" "0 < next" unfolding next_def by (rule next_generation [OF assms(2)])+
  have obs: "next - 2 \<noteq> next" by simp
  have look: "fj_generation ?jn = next" "map_of (fj_checkpoints ?jn) next = Some \<lparr>fc_Generation = next, fc_Snapshot = snap'\<rparr>"
    "map_of (fj_wals ?jn) next = Some \<lparr>wl_lines = [], wl_tail = False\<rparr>"
    using obs by (auto simp: removeObsoleteGenerations_def published_def Let_def)
  have "set (gokeys (fj_checkpoints ?jn)) \<subseteq> set (gokeys (fj_checkpoints published))"
    using gokeys_delete_subset [of "next - 2" "fj_checkpoints published"] by (simp add: removeObsoleteGenerations_def Let_def)
  also have "set (gokeys (fj_checkpoints published)) = insert next (set (gokeys (fj_checkpoints jn)))"
    by (simp add: published_def dom_update)
  finally have "\<forall>k \<in> set (gokeys (fj_checkpoints ?jn)). k \<le> next"
    using newest_bound assms(1) n(1) unfolding settled_iff by force
  moreover have "next \<in> set (gokeys (fj_checkpoints ?jn))" using look(2) by (auto dest: map_of_SomeD intro: rev_image_eqI)
  ultimately obtain gs where "checkpointGenerations ?jn = next # gs" using generations_intro [OF n(2)] by blast
  then show ?thesis using look unfolding settled_iff by (simp add: newest_def load_base_def)
qed

lemma Checkpoint_cases:
  assumes "Checkpoint fault snap' jn = (jn', err)" "settled jn snap" "fj_generation jn < -1"
  shows "err = None \<Longrightarrow> settled jn' snap'" "err = Some e \<Longrightarrow> settled jn' snap"
proof -
  have ne: "fj_generation jn \<noteq> fj_generation jn + 1" using next_generation(1) [OF assms(3)] by auto
  note pub = settled_published [OF assms(2,3)]
  note other = settled_other_wal [OF assms(2)]
  show "err = None \<Longrightarrow> settled jn' snap'"
    using assms(1) pub by (cases fault) (auto simp: Checkpoint_def Let_def split: if_splits)
  show "err = Some e \<Longrightarrow> settled jn' snap"
    using assms(1,2) other [of jn'] ne by (cases fault) (auto simp: Checkpoint_def Let_def split: if_splits)
qed

text \<open>The journal with the faults its file operations will have.\<close>

type_synonym file_state = "write_fault list \<times> checkpoint_fault list \<times> FileHistoryJournal"

definition file_Record :: "file_state recorder" where
  "file_Record m = (\<lambda>(faults, cfaults, jn).
     let (jn', err) = journal_Write (case faults of [] \<Rightarrow> NoFault | f # _ \<Rightarrow> f) m jn in ((tl faults, cfaults, jn'), err))"

definition file_Checkpoint :: "HistorySnapshot \<Rightarrow> file_state \<Rightarrow> file_state \<times> stream_error option" where
  "file_Checkpoint snap = (\<lambda>(faults, cfaults, jn).
     let (jn', err) = Checkpoint (case cfaults of [] \<Rightarrow> NoCheckpointFault True True | f # _ \<Rightarrow> f) snap jn in ((faults, tl cfaults, jn'), err))"

definition file_Load :: "file_state \<Rightarrow> stream_error + HistorySnapshot" where
  "file_Load = (\<lambda>(faults, cfaults, jn). snd (Load None jn))"

text \<open>A fault that leaves nothing of a refused record in the log.\<close>

definition clean_fault :: "write_fault \<Rightarrow> bool" where
  "clean_fault f \<longleftrightarrow> (case f of NoFault \<Rightarrow> True | OpenFails _ \<Rightarrow> True | WriteFails _ some \<Rightarrow> \<not> some | _ \<Rightarrow> False)"

definition file_loads :: "u64 \<Rightarrow> file_state \<Rightarrow> HistorySnapshot \<Rightarrow> bool" where
  "file_loads epoch = (\<lambda>(faults, cfaults, jn) snap. list_all clean_fault faults \<and> fj_initialEpoch jn = epoch \<and> settled jn snap)"

definition file_room :: "file_state \<Rightarrow> bool" where
  "file_room = (\<lambda>(faults, cfaults, jn). fj_generation jn < -1)"

lemma journal_Write_epoch: "fj_initialEpoch (fst (journal_Write fault m jn)) = fj_initialEpoch jn"
  by (cases fault) (simp_all add: journal_Write_def Let_def)

lemma Checkpoint_epoch: "fj_initialEpoch (fst (Checkpoint fault snap jn)) = fj_initialEpoch jn"
  by (cases fault) (simp_all add: Checkpoint_def removeObsoleteGenerations_def Let_def)

lemma Checkpoint_epoch_eq: "Checkpoint fault snap jn = (jn', err) \<Longrightarrow> fj_initialEpoch jn' = fj_initialEpoch jn"
  using Checkpoint_epoch [of fault snap jn] by simp

lemma journal_Write_cases:
  assumes "journal_Write fault m jn = (jn', err)" "clean_fault fault" "settled jn snap"
  shows "err = None \<Longrightarrow> jn' = put_wal jn (write_line m (open_wal (map_of (fj_wals jn) (fj_generation jn))))"
    "err = Some e \<Longrightarrow> settled jn' snap"
  using assms settled_touched [OF assms(3)]
  by (cases fault; auto simp: journal_Write_def clean_fault_def put_wal_def Let_def split: if_splits)+

interpretation file_journal: checkpoint_laws file_Record file_Load "file_loads epoch" file_Checkpoint file_room for epoch
proof unfold_locales
  fix j snap
  assume "file_loads epoch j snap"
  then show "file_Load j = Inr snap" by (auto simp: file_loads_def file_Load_def settled_def)
next
  fix j snap m j' snap'
  assume a: "file_loads epoch j snap" "file_Record m j = (j', None)" "mu_Kind m = HistoryMutationRotateEpoch \<or> mu_Epoch m = sp_Epoch snap"
    "replayHistoryMutation snap m = Inr snap'"
  obtain fs cs jn where j: "j = (fs, cs, jn)" by (rule prod_cases3)
  have l: "list_all clean_fault fs" "settled jn snap" "fj_initialEpoch jn = epoch" using a(1) by (simp_all add: j file_loads_def)
  let ?f = "case fs of [] \<Rightarrow> NoFault | f # _ \<Rightarrow> f"
  have f: "clean_fault ?f" "list_all clean_fault (tl fs)" using l(1) by (cases fs; simp add: clean_fault_def)+
  obtain jn' where w: "journal_Write ?f m jn = (jn', None)" "j' = (tl fs, cs, jn')"
    using a(2) by (auto simp: j file_Record_def split: prod.splits)
  show "file_loads epoch j' snap'"
    using settled_written [OF l(2) a(3,4)] journal_Write_cases(1) [OF w(1) f(1) l(2)] f(2) l(3) journal_Write_epoch [of ?f m jn] w by (simp add: file_loads_def)
next
  fix j snap m j' e
  assume a: "file_loads epoch j snap" "file_Record m j = (j', Some e)"
  obtain fs cs jn where j: "j = (fs, cs, jn)" by (rule prod_cases3)
  have l: "list_all clean_fault fs" "settled jn snap" "fj_initialEpoch jn = epoch" using a(1) by (simp_all add: j file_loads_def)
  let ?f = "case fs of [] \<Rightarrow> NoFault | f # _ \<Rightarrow> f"
  have f: "clean_fault ?f" "list_all clean_fault (tl fs)" using l(1) by (cases fs; simp add: clean_fault_def)+
  obtain jn' where w: "journal_Write ?f m jn = (jn', Some e)" "j' = (tl fs, cs, jn')"
    using a(2) by (auto simp: j file_Record_def split: prod.splits)
  show "file_loads epoch j' snap"
    using journal_Write_cases(2) [OF w(1) f(1) l(2)] f(2) l(3) journal_Write_epoch [of ?f m jn] w by (simp add: file_loads_def)
next
  fix j snap snap' j'
  assume a: "file_loads epoch j snap" "file_room j" "file_Checkpoint snap' j = (j', None)"
  then show "file_loads epoch j' snap'"
    by (cases j) (auto simp: file_loads_def file_room_def file_Checkpoint_def Checkpoint_epoch split: prod.splits dest: Checkpoint_epoch_eq dest: Checkpoint_cases(1) [OF _ _ _ refl])
next
  fix j snap snap' j' e
  assume a: "file_loads epoch j snap" "file_room j" "file_Checkpoint snap' j = (j', Some e)"
  then show "file_loads epoch j' snap"
    by (cases j) (auto simp: file_loads_def file_room_def file_Checkpoint_def Checkpoint_epoch split: prod.splits dest: Checkpoint_epoch_eq dest: Checkpoint_cases(2) [OF _ _ _ refl])
qed

lemma settled_new: "settled \<lparr>fj_checkpoints = [], fj_wals = [], fj_initialEpoch = epoch, fj_generation = 1\<rparr> (initial_snapshot epoch)"
  by (simp add: settled_def Load_def checkpointGenerations_def initial_snapshot_def open_wal_def)

text \<open>Whether anything is on disk. Before the first record the epoch of a journal exists in memory only.\<close>

definition recorded :: "FileHistoryJournal \<Rightarrow> bool" where
  "recorded jn \<longleftrightarrow> checkpointGenerations jn \<noteq> [] \<or> wl_lines (open_wal (map_of (fj_wals jn) (fj_generation jn))) \<noteq> []"

lemma settled_unrecorded: "settled jn snap \<Longrightarrow> \<not> recorded jn \<Longrightarrow> snap = initial_snapshot (fj_initialEpoch jn)"
  by (auto simp: settled_iff recorded_def load_base_def)

text \<open>A process that opens the directory of a journal at rest, with any epoch.\<close>

lemma settled_reopened:
  assumes "settled jn snap" "fj_checkpoints jn1 = fj_checkpoints jn" "fj_wals jn1 = fj_wals jn" "Load None jn1 = (jn2, res)"
  shows "res = Inr (if recorded jn then snap else initial_snapshot (fj_initialEpoch jn1))"
    "settled jn2 (if recorded jn then snap else initial_snapshot (fj_initialEpoch jn1))"
    "jn2 = jn1\<lparr>fj_generation := fj_generation jn\<rparr>"
proof -
  let ?f = "open_wal (map_of (fj_wals jn) (fj_generation jn))" and ?jn = "jn1\<lparr>fj_generation := fj_generation jn\<rparr>"
  let ?snap = "if recorded jn then snap else initial_snapshot (fj_initialEpoch jn1)"
  obtain base where b: "newest jn" "\<not> wl_tail ?f" "load_base jn (wl_lines ?f) = Some base" "replay_lines (wl_lines ?f) base = Inr snap"
    using assms(1) unfolding settled_iff by blast
  have g: "checkpointGenerations jn1 = checkpointGenerations jn" "checkpointGenerations ?jn = checkpointGenerations jn"
    by (simp_all add: checkpointGenerations_def assms(2))
  have n: "newest ?jn" using b(1) g(2) assms(3) by (auto simp: newest_def split: list.splits)
  have "\<exists>base'. load_base ?jn (wl_lines ?f) = Some base' \<and> replay_lines (wl_lines ?f) base' = Inr ?snap"
  proof (cases "recorded jn")
    case True
    then have "load_base ?jn (wl_lines ?f) = load_base jn (wl_lines ?f)"
      using g assms(2) by (auto simp: load_base_def recorded_def split: list.splits)
    with True b(3,4) show ?thesis by simp
  next
    case False
    then show ?thesis using g by (simp add: load_base_def recorded_def)
  qed
  then have s: "settled ?jn ?snap" using n b(2) assms(3) unfolding settled_iff by simp
  have "Load None jn1 = Load None ?jn"
  proof (cases "checkpointGenerations jn")
    case Nil
    then show ?thesis using g by (simp add: Load_def)
  next
    case (Cons k ks)
    have "loadGeneration ?jn k = loadGeneration jn1 k" by (simp add: loadGeneration_def split: option.splits)
    moreover have "\<exists>snap. loadGeneration jn1 k = Inr snap"
      using s Cons g(2) calculation by (auto simp: settled_def Load_def split: sum.splits)
    ultimately show ?thesis using Cons g by (auto simp: Load_def)
  qed
  with s assms(4) show "res = Inr ?snap" "jn2 = ?jn" by (simp_all add: settled_def)
  with s show "settled jn2 ?snap" by simp
qed

text \<open>
  A history over the file journal in a directory that is empty at first: methods, checkpoints, and
  restarts, in which a new process opens the directory, loads it and goes on.
\<close>

inductive journal_run :: "HistoryOptions \<Rightarrow> string \<Rightarrow> file_state stream_run \<Rightarrow> bool" for options dir where
  start: "NewFileHistoryJournal dir [] [] fresh epoch None = Inr jn \<Longrightarrow> fresh \<noteq> 0 \<Longrightarrow> list_all clean_fault faults \<Longrightarrow>
     NewHistoryWithJournal options fresh' now (Some file_Load) (faults, cfaults, jn) = Inr h \<Longrightarrow>
     journal_run options dir (h, (faults, cfaults, jn), \<lambda>_. [])"
| step: "journal_run options dir r \<Longrightarrow> journaled file_Record file_Checkpoint file_room r r' \<Longrightarrow> journal_run options dir r'"
| restart: "journal_run options dir (h, (faults, cfaults, jn), log) \<Longrightarrow>
     NewFileHistoryJournal dir (fj_checkpoints jn) (fj_wals jn) fresh epoch None = Inr jn1 \<Longrightarrow> fresh \<noteq> 0 \<Longrightarrow> list_all clean_fault faults' \<Longrightarrow>
     NewHistoryWithJournal options fresh' now (Some file_Load) (faults', cfaults', jn1) = Inr h' \<Longrightarrow> Load None jn1 = (jn2, res) \<Longrightarrow>
     journal_run options dir (h', (faults', cfaults', jn2), log)"

definition run_ok :: "HistoryOptions \<Rightarrow> file_state stream_run \<Rightarrow> bool" where
  "run_ok options = (\<lambda>(h, (faults, cfaults, jn), log). history_ok log h \<and> (hi_options h)\<lparr>ho_Epoch := 0\<rparr> = (hi_options (NewHistory options 0))\<lparr>ho_Epoch := 0\<rparr>
     \<and> list_all clean_fault faults \<and> fj_initialEpoch jn \<noteq> 0 \<and> (\<exists>snap. settled jn snap \<and> represents log snap h))"

text \<open>Only the epoch a history was created with tells its options from those of another process.\<close>

lemma NewHistory_options: "hi_options (NewHistory options fresh) = (hi_options (NewHistory options 0))\<lparr>ho_Epoch := ho_Epoch (hi_options (NewHistory options fresh))\<rparr>"
  by (simp add: NewHistory_def Let_def)

lemma NewHistory_options0: "(hi_options (NewHistory options fresh))\<lparr>ho_Epoch := 0\<rparr> = (hi_options (NewHistory options 0))\<lparr>ho_Epoch := 0\<rparr>"
  by (simp add: NewHistory_def Let_def)

lemma NewFileHistoryJournal_Inr:
  assumes "NewFileHistoryJournal dir cps wals fresh epoch None = Inr jn" "fresh \<noteq> 0"
  shows "fj_checkpoints jn = cps" "fj_wals jn = wals" "fj_initialEpoch jn \<noteq> 0" "fj_generation jn = 1"
  using assms by (auto simp: NewFileHistoryJournal_def split: if_splits)

lemma represents_initial: "represents log (initial_snapshot epoch) h \<Longrightarrow> history_ok log h \<Longrightarrow> hi_streams h = [] \<and> log = (\<lambda>_. [])"
proof -
  assume a: "represents log (initial_snapshot epoch) h" "history_ok log h"
  have none: "map_of (hi_streams h) key = None" for key
    using representsD(1) [OF a(1), of key] by (simp add: initial_snapshot_def same_entry_def)
  then have "hi_streams h = []" using none [of "fst (hd (hi_streams h))"] by (cases "hi_streams h") simp_all
  moreover have "log key = []" for key using a(2) none [of key] unfolding history_ok_def key_ok_def by (metis option.case(1))
  ultimately show ?thesis by auto
qed

text \<open>What a new process finds.\<close>

lemma run_reopened:
  assumes "run_ok options (h, (faults, cfaults, jn), log)" "fj_checkpoints jn1 = fj_checkpoints jn" "fj_wals jn1 = fj_wals jn" "fj_initialEpoch jn1 \<noteq> 0"
  obtains h' snap where "NewHistoryWithJournal options fresh now (Some file_Load) (faults', cfaults', jn1) = Inr h'"
    "settled (fst (Load None jn1)) snap" "represents log snap h'" "history_ok log h'" "(hi_options h')\<lparr>ho_Epoch := 0\<rparr> = (hi_options (NewHistory options 0))\<lparr>ho_Epoch := 0\<rparr>"
    "\<And>key. rel_option recovered (map_of (hi_streams h') key) (map_of (hi_streams h) key)"
    "hi_epoch h' = (if recorded jn then hi_epoch h else fj_initialEpoch jn1)" "recorded jn \<or> hi_streams h = []"
proof -
  let ?h0 = "NewHistory options fresh"
  obtain snap where s: "history_ok log h" "(hi_options h)\<lparr>ho_Epoch := 0\<rparr> = (hi_options (NewHistory options 0))\<lparr>ho_Epoch := 0\<rparr>" "settled jn snap" "represents log snap h"
    using assms(1) by (auto simp: run_ok_def)
  obtain jn2 res where l: "Load None jn1 = (jn2, res)" by (rule prod.exhaust)
  note r = settled_reopened [OF s(3) assms(2,3) l]
  have fl: "file_Load (faults', cfaults', jn1) = res" by (simp add: file_Load_def l)
  show thesis
  proof (cases "recorded jn")
    case True
    have "hi_options ?h0 = ((hi_options h)\<lparr>ho_Epoch := 0\<rparr>)\<lparr>ho_Epoch := ho_Epoch (hi_options ?h0)\<rparr>"
      unfolding s(2) by (simp add: NewHistory_options [symmetric])
    then have o: "hi_options ?h0 = (hi_options h)\<lparr>ho_Epoch := ho_Epoch (hi_options ?h0)\<rparr>" by simp
    have lim: "ho_MaxPacketsPerStream (hi_options ?h0) = ho_MaxPacketsPerStream (hi_options h)" "ho_MaxPayloadBytes (hi_options ?h0) = ho_MaxPayloadBytes (hi_options h)"
      "ho_MaxStreams (hi_options ?h0) = ho_MaxStreams (hi_options h)" by (subst o, simp)+
    obtain h' where h': "Import now ?h0 snap = Inr h'" "hi_epoch h' = hi_epoch h" "hi_options h' = hi_options ?h0" "gomap_ok (hi_streams h')"
      "length (hi_streams h') = length (hi_streams h)" "\<forall>key. rel_option recovered (map_of (hi_streams h') key) (map_of (hi_streams h) key)"
      using Import_represents [OF s(1,4) lim, of now] by blast
    note ag = recovered_agrees [OF s(1,4) h'(6) [rule_format] trans [OF h'(3) o] h'(2,4,5)]
    show thesis
    proof (rule that [of h' snap])
      show "NewHistoryWithJournal options fresh now (Some file_Load) (faults', cfaults', jn1) = Inr h'"
        using True r(1) h'(1) fl by (simp add: NewHistoryWithJournal_def)
      show "(hi_options h')\<lparr>ho_Epoch := 0\<rparr> = (hi_options (NewHistory options 0))\<lparr>ho_Epoch := 0\<rparr>" using s(2) trans [OF h'(3) o] by simp
      show "rel_option recovered (map_of (hi_streams h') key) (map_of (hi_streams h) key)" for key using h'(6) by blast
    qed (use True r(2) h' ag l in simp_all)
  next
    case False
    have e: "hi_streams h = []" "log = (\<lambda>_. [])" using represents_initial s settled_unrecorded [OF s(3) False] by blast+
    let ?h' = "?h0\<lparr>hi_streams := [], hi_epoch := fj_initialEpoch jn1\<rparr>"
    have i: "Import now ?h0 (initial_snapshot (fj_initialEpoch jn1)) = Inr ?h'"
      using assms(4) by (simp add: Import_def initial_snapshot_def)
    have "history_ok (\<lambda>_. []) ?h'" using assms(4) by (intro history_okI) (auto simp: NewHistory_def Let_def options_ok_def key_ok_def)
    moreover have "represents (\<lambda>_. []) (initial_snapshot (fj_initialEpoch jn1)) ?h'"
      by (intro representsI) (simp_all add: same_entry_def initial_snapshot_def)
    ultimately show thesis
      by (intro that [of ?h' "initial_snapshot (fj_initialEpoch jn1)"])
        (use False r e i fl l NewHistory_options0 [of options fresh] in \<open>simp_all add: NewHistoryWithJournal_def\<close>)
  qed
qed

lemma journal_run_ok: "journal_run options dir r \<Longrightarrow> run_ok options r"
proof (induction rule: journal_run.induct)
  case (start fresh epoch jn faults fresh' now cfaults h)
  note jn = NewFileHistoryJournal_Inr [OF start(1,2)]
  have j: "jn = \<lparr>fj_checkpoints = [], fj_wals = [], fj_initialEpoch = fj_initialEpoch jn, fj_generation = 1\<rparr>" using jn by simp
  have l: "file_loads (fj_initialEpoch jn) (faults, cfaults, jn) (initial_snapshot (fj_initialEpoch jn))"
    using settled_new [of "fj_initialEpoch jn"] start(3) j by (simp add: file_loads_def)
  note st = file_journal.starts [OF l _ _ _ start(4)]
  have "agrees (file_loads (fj_initialEpoch jn)) (h, (faults, cfaults, jn), \<lambda>_. [])" "hi_options h = hi_options (NewHistory options fresh')"
    using st jn(3) by (simp_all add: initial_snapshot_def)
  then show ?case using start(3) jn(3) NewHistory_options0 [of options fresh'] by (auto simp: run_ok_def agrees_def file_loads_def)
next
  case (step r r')
  obtain h faults cfaults jn log where r: "r = (h, (faults, cfaults, jn), log)" by (metis prod_cases3)
  obtain h' faults' cfaults' jn' log' where r': "r' = (h', (faults', cfaults', jn'), log')" by (metis prod_cases3)
  have run: "(journaled file_Record file_Checkpoint file_room)\<^sup>*\<^sup>* r r'" using step.hyps(2) by (rule r_into_rtranclp)
  have "agrees (file_loads (fj_initialEpoch jn)) r" using step.IH by (auto simp: run_ok_def agrees_def file_loads_def r)
  then have "agrees (file_loads (fj_initialEpoch jn)) r' \<and> hi_options (fst r') = hi_options (fst r)"
    by (rule file_journal.agrees_run [OF run])
  then show ?case using step.IH by (auto simp: run_ok_def agrees_def file_loads_def r r')
next
  case (restart h faults cfaults jn log fresh epoch jn1 faults' fresh' now cfaults' h' jn2 res)
  note jn1 = NewFileHistoryJournal_Inr [OF restart(2,3)]
  obtain snap where s: "settled jn2 snap" "represents log snap h'" "history_ok log h'"
    "(hi_options h')\<lparr>ho_Epoch := 0\<rparr> = (hi_options (NewHistory options 0))\<lparr>ho_Epoch := 0\<rparr>"
    using run_reopened [OF restart(7) jn1(1-3), of fresh' now faults' cfaults'] restart(5,6) by (metis fst_conv sum.inject(2))
  obtain snap0 where "settled jn snap0" using restart(7) by (auto simp: run_ok_def)
  then have "fj_initialEpoch jn2 \<noteq> 0" using settled_reopened(3) [OF _ jn1(1,2) restart(6)] jn1(3) by simp
  with s restart(4) show ?case by (auto simp: run_ok_def)
qed

text \<open>
  C6. What is recovered after a crash is the live history. A history runs over the file journal, in a
  directory that was empty at first, with any sequence of appends, acknowledgements, deletions, sweeps,
  changes of epoch, checkpoints and restarts with the same options, in which file operations may fail at
  any point of a checkpoint and before anything of a record reaches the log. A new process that opens the
  directory at any moment, with whatever epoch, gets a history that has, under every key, a stream with
  the same sequence numbers, acknowledgement, schema and retained packets. It has the epoch of the live
  history as soon as anything is on disk; before, the live history is empty and the new process starts
  with its own epoch. \<open>Import\<close> and \<open>Restore\<close> on a history with a journal are not among the steps: they
  record nothing (see \<open>import_breaks_log\<close>).
\<close>

theorem journal_recovers:
  assumes "journal_run options dir (h, (faults, cfaults, jn), log)"
    and "NewFileHistoryJournal dir (fj_checkpoints jn) (fj_wals jn) fresh epoch None = Inr jn'" "fresh \<noteq> 0"
  shows "\<exists>h'. NewHistoryWithJournal options fresh' now (Some file_Load) (faults', cfaults', jn') = Inr h'
    \<and> (\<forall>key. rel_option recovered (map_of (hi_streams h') key) (map_of (hi_streams h) key))
    \<and> (if recorded jn then hi_epoch h' = hi_epoch h else hi_epoch h' = fj_initialEpoch jn' \<and> hi_streams h = [])"
  using run_reopened [OF journal_run_ok [OF assms(1)] NewFileHistoryJournal_Inr(1-3) [OF assms(2,3)], of fresh' now faults' cfaults']
  by metis

text \<open>
  C15. A checkpoint is atomic. Whatever operation of a checkpoint fails, and so whenever the process dies
  during it, the next load gives what it gave before; once the checkpoint is published the next
  load gives its snapshot, whether or not the obsolete files could be removed.
\<close>

theorem checkpoint_atomic:
  assumes "settled jn snap" "fj_generation jn < -1" "Checkpoint fault snap' jn = (jn', err)"
  shows "Load None jn' = (jn', Inr (if err = None then snap' else snap))"
  using Checkpoint_cases [OF assms(3,1,2)] by (cases err) (auto simp: settled_def)

text \<open>What an accepted append asks of the journal does not depend on the journal.\<close>

lemma Append_journal:
  assumes "Append jr now h j packet = (h', j', Inr p)"
  shows "Append (Some jrec) now h j2 packet = (case jrec ((mutation HistoryMutationAppend (hi_epoch h))\<lparr>mu_Packet := p\<rparr>) j2 of
     (j3, Some e) \<Rightarrow> (h, j3, Inl e) | (j3, None) \<Rightarrow> (h', j3, Inr p))"
proof -
  define key where "key = (pk_Observer packet, pk_Stream packet)"
  define s where "s = (case map_of (hi_streams h) key of None \<Rightarrow> newStream | Some s \<Rightarrow> s)"
  define p0 where "p0 = (if pk_SchemaVersion packet = 0 then packet\<lparr>pk_SchemaVersion := ho_SchemaVersion (hi_options h)\<rparr> else packet)"
  note A = Append_Inr [OF assms, folded key_def, folded s_def p0_def]
  have c: "\<not> (ho_MaxPayloadBytes (hi_options h) > 0 \<and> int (length (pk_Payload packet)) > ho_MaxPayloadBytes (hi_options h))"
    "\<not> (map_of (hi_streams h) key = None \<and> ho_MaxStreams (hi_options h) > 0 \<and> int (length (hi_streams h)) \<ge> ho_MaxStreams (hi_options h))"
    "\<not> (sm_latest s > 0 \<and> pk_SchemaVersion p0 \<noteq> sm_schema s \<and> \<not> pk_Full p0)"
    using A(3-5) by force+
  show ?thesis
    unfolding Append_def Let_def key_def [symmetric] s_def [symmetric] p0_def [symmetric] if_not_P [OF A(2)] if_not_P [OF c(1)]
      if_not_P [OF c(2)] if_not_P [OF c(3)] Packet_Clone_id A(1) [symmetric]
    by (auto simp: journal_Record_def A(6) split: prod.splits option.splits)
qed

lemma Load_result:
  assumes "newest jn" "map_of (fj_wals jn) (fj_generation jn) = Some f" "wl_lines f \<noteq> []" "load_base jn (wl_lines f) = Some base"
  shows "snd (Load None jn) = replay_lines (wl_lines f) base"
proof (cases "checkpointGenerations jn")
  case Nil
  then have "fj_generation jn = 1" using assms(1) by (simp add: newest_def)
  with Nil assms(2-4) show ?thesis by (simp add: Load_def load_base_def replayWAL_def initial_snapshot_def)
next
  case (Cons g gs)
  then have "fj_generation jn = g" using assms(1) by (simp add: newest_def)
  with Cons assms(2-4) show ?thesis
    by (auto simp: Load_def load_base_def replayWAL_def loadGeneration_def split: option.splits sum.splits if_splits)
qed

text \<open>A packet cannot be replayed twice.\<close>

lemma replay_append_twice:
  assumes "replay_append snap p = Inr snap'"
  shows "replay_append snap' p = Inl ErrInvalidSnapshot"
proof -
  define key where "key = (pk_Observer p, pk_Stream p)"
  define v where "v = (case map_of (by_key (sp_Streams snap)) key of None \<Rightarrow> empty_stream (fst key) (snd key) | Some v \<Rightarrow> v)"
  have seq: "pk_Sequence p = hs_Latest v + 1"
  proof (cases "find_stream (pk_Observer p) (pk_Stream p) (sp_Streams snap)")
    case None
    with assms find_stream_None [OF None] show ?thesis by (simp add: replay_append_def v_def key_def Let_def split: if_splits)
  next
    case (Some i)
    with assms find_stream_Some [OF Some] show ?thesis by (simp add: replay_append_def v_def key_def Let_def split: if_splits)
  qed
  obtain streams where st: "replay_append snap p = Inr (snap\<lparr>sp_Streams := streams\<rparr>)"
    "by_key streams = AList.update key (v\<lparr>hs_Latest := pk_Sequence p, hs_Schema := pk_SchemaVersion p, hs_Packets := hs_Packets v @ [p]\<rparr>)
      (by_key (sp_Streams snap))" by (rule replay_append_eq [OF key_def v_def seq])
  have streams: "sp_Streams snap' = streams" using assms st(1) by auto
  have "find_stream (pk_Observer p) (pk_Stream p) streams \<noteq> None"
    using find_stream_None [of "pk_Observer p" "pk_Stream p" streams] st(2) by (auto simp: key_def)
  then obtain i where i: "find_stream (pk_Observer p) (pk_Stream p) streams = Some i" by blast
  have "streams ! i = v\<lparr>hs_Latest := pk_Sequence p, hs_Schema := pk_SchemaVersion p, hs_Packets := hs_Packets v @ [p]\<rparr>"
    using find_stream_Some [OF i] st(2) by (simp add: key_def)
  then have "hs_Latest (streams ! i) = pk_Sequence p" by simp
  with i show ?thesis by (simp add: replay_append_def streams Let_def)
qed

lemma file_Record_written:
  assumes "file_Record m (faults, cfaults, jn) = ((faults', cfaults', jn'), err)" "faults = [] \<and> err = None \<or> faults = [SyncFails e] \<and> err = Some e"
    "mu_Version m = HistoryMutationVersion"
  shows "jn' = put_wal jn (write_line m (open_wal (map_of (fj_wals jn) (fj_generation jn))))" "faults' = []"
  using assms by (auto simp: file_Record_def journal_Write_def put_wal_def Let_def split: prod.splits)

text \<open>
  C21. A record that was written but whose sync failed stays in the log although the history refused the
  mutation. When the caller repeats the append and it succeeds, the log holds two records with the same
  sequence number, and it can no longer be loaded.
\<close>

theorem unsynced_record_breaks_log:
  assumes "history_ok log h" "settled jn snap" "represents log snap h"
    and "Append (Some file_Record) now h ([SyncFails e], cfaults, jn) packet = (h1, (faults1, cfaults1, jn1), Inl e)"
    and "Append (Some file_Record) now h1 (faults1, cfaults1, jn1) packet = (h2, (faults2, cfaults2, jn2), Inr p)"
  shows "h1 = h \<and> snd (Load None jn2) = Inl ErrInvalidSnapshot"
proof -
  have h1: "h1 = h" by (rule Append_Inl [OF assms(4)])
  let ?m = "(mutation HistoryMutationAppend (hi_epoch h))\<lparr>mu_Packet := p\<rparr>"
  have m: "mu_Version ?m = HistoryMutationVersion" "mu_Epoch ?m = hi_epoch h" "mu_Kind ?m = HistoryMutationAppend" by (simp_all add: mutation_def)
  have r1: "file_Record ?m ([SyncFails e], cfaults, jn) = ((faults1, cfaults1, jn1), Some e)"
    using Append_journal [OF assms(5) [unfolded h1], of file_Record "([SyncFails e], cfaults, jn)"] assms(4)
    by (auto split: prod.splits option.splits)
  note w1 = file_Record_written [OF r1 _ m(1), of e, simplified]
  have r2: "file_Record ?m (faults1, cfaults1, jn1) = ((faults2, cfaults2, jn2), None)"
    using Append_record [OF assms(5)] h1 by simp
  note w2 = file_Record_written [OF r2 _ m(1), of e, unfolded w1(2), simplified]
  obtain snap1 where s: "replayHistoryMutation snap ?m = Inr snap1"
    using Append_replayed [OF assms(1,3) assms(5) [unfolded h1]] by blast
  have ap: "replayHistoryMutation s ?m = replay_append s p" if "sp_Epoch s = hi_epoch h" "hi_epoch h \<noteq> 0" for s
    using that m by (simp add: replayHistoryMutation_def mutation_def)
  have e0: "hi_epoch h \<noteq> 0" "sp_Epoch snap = hi_epoch h" using assms(1) representsD(3) [OF assms(3)] by (simp_all add: history_ok_def)
  have a1: "replay_append snap p = Inr snap1" using s ap [OF e0(2,1)] by simp
  then have e1: "sp_Epoch snap1 = hi_epoch h" using e0(2) by (auto simp: replay_append_def Let_def split: option.splits if_splits)
  have st: "settled jn1 snap1" unfolding w1(1) by (rule settled_written [OF assms(2) _ s]) (use m e0 in simp)
  let ?f = "open_wal (map_of (fj_wals jn1) (fj_generation jn1))"
  obtain base where b: "newest jn1" "\<not> wl_tail ?f" "load_base jn1 (wl_lines ?f) = Some base" "replay_lines (wl_lines ?f) base = Inr snap1"
    using st unfolding settled_iff by blast
  have lines: "wl_lines (write_line ?m ?f) = wl_lines ?f @ [Entry ?m]" using b(2) by (simp add: write_line_def)
  have "wl_lines ?f \<noteq> []" unfolding w1(1) by (simp add: write_line_def)
  then have "load_base jn1 (wl_lines ?f @ [Entry ?m]) = Some base" using b(3) by (simp add: load_base_def split: list.splits)
  then have "snd (Load None jn2) = replay_lines (wl_lines ?f @ [Entry ?m]) base"
    using Load_result [of jn2 "write_line ?m ?f" base] b(1) unfolding w2(1) by (simp add: lines)
  also have "\<dots> = Inl ErrInvalidSnapshot"
    using b(4) ap [OF e1 e0(1)] replay_append_twice [OF a1] by (simp add: replay_lines_append)
  finally show ?thesis using h1 by simp
qed

lemma replay_lines_torn: "\<exists>e. replay_lines (ls @ [Torn]) snap = Inl e"
proof (induction ls arbitrary: snap)
  case (Cons l ls)
  show ?case
  proof (cases l)
    case (Entry m)
    then show ?thesis using Cons.IH by (cases "replayHistoryMutation snap m") simp_all
  qed simp
qed simp

text \<open>
  C22. A write that stops in the middle of a record leaves an unterminated tail. The tail itself is passed
  over by the next load, when the directory has a checkpoint or an earlier record; but nothing
  removes it, so the next record that is accepted ends up on the same line and the log can no
  longer be loaded. When the tail is the first record of a new directory, already the next load gives
  a snapshot without an epoch, which no history imports.
\<close>

theorem torn_tail_breaks_log:
  assumes "settled jn snap" "mu_Version m = HistoryMutationVersion" "mu_Version m' = HistoryMutationVersion"
    and "journal_Write (WriteFails e True) m jn = (jn1, err1)" "journal_Write NoFault m' jn1 = (jn2, err2)"
  shows "err2 = None \<and> (\<exists>e'. snd (Load None jn2) = Inl e')
    \<and> (if checkpointGenerations jn = [] \<and> wl_lines (open_wal (map_of (fj_wals jn) (fj_generation jn))) = []
       then NewHistoryWithJournal options fresh now (Some (\<lambda>j. snd (Load None j))) jn1 = Inl ErrInvalidSnapshot
       else snd (Load None jn1) = Inr snap)"
proof -
  let ?f = "open_wal (map_of (fj_wals jn) (fj_generation jn))"
  obtain base where b: "newest jn" "\<not> wl_tail ?f" "load_base jn (wl_lines ?f) = Some base" "replay_lines (wl_lines ?f) base = Inr snap"
    using assms(1) unfolding settled_iff by blast
  have jn1: "jn1 = put_wal jn (?f\<lparr>wl_tail := True\<rparr>)" using assms(2,4) by (simp add: journal_Write_def put_wal_def Let_def)
  have jn2: "jn2 = put_wal jn1 \<lparr>wl_lines = wl_lines ?f @ [Torn], wl_tail = False\<rparr>" "err2 = None"
    using assms(3,5) jn1 by (simp_all add: journal_Write_def put_wal_def write_line_def Let_def)
  have n1: "newest jn1" using b(1) jn1 by simp
  obtain base2 where b2: "load_base jn (wl_lines ?f @ [Torn]) = Some base2" using b(3) by (auto simp: load_base_def split: list.splits)
  have "snd (Load None jn2) = replay_lines (wl_lines ?f @ [Torn]) base2"
    using Load_result [of jn2 "\<lparr>wl_lines = wl_lines ?f @ [Torn], wl_tail = False\<rparr>" base2] n1 b2 unfolding jn2(1) jn1 by simp
  then have bad: "\<exists>e'. snd (Load None jn2) = Inl e'" using replay_lines_torn by simp
  show ?thesis
  proof (cases "checkpointGenerations jn = [] \<and> wl_lines ?f = []")
    case True
    have gen: "fj_generation jn = 1" using True b(1) by (simp add: newest_def)
    have "snd (Load None jn1) = Inr (initial_snapshot 0)"
      using True gen put_wal_simps(2) [of jn "?f\<lparr>wl_tail := True\<rparr>"] unfolding jn1
      by (simp add: Load_def replayWAL_def initial_snapshot_def Let_def)
    then have "NewHistoryWithJournal options fresh now (Some (\<lambda>j. snd (Load None j))) jn1 = Inl ErrInvalidSnapshot"
      by (simp add: NewHistoryWithJournal_def Import_def initial_snapshot_def)
    with True bad jn2(2) show ?thesis by simp
  next
    case False
    have "snd (Load None jn1) = Inr snap"
    proof (cases "wl_lines ?f = []")
      case True
      then obtain g gs where "checkpointGenerations jn = g # gs" using False by (cases "checkpointGenerations jn") auto
      with b True show ?thesis unfolding jn1
        by (auto simp: Load_def load_base_def loadGeneration_def replayWAL_def newest_def put_wal_def checkpointGenerations_def split: option.splits if_splits)
    next
      case nonempty: False
      then show ?thesis using Load_result [of jn1 "?f\<lparr>wl_tail := True\<rparr>" base] n1 b unfolding jn1 by simp
    qed
    with False bad jn2(2) show ?thesis by auto
  qed
qed

text \<open>An example: one append, a checkpoint, and the directory that is left.\<close>

definition ex_journal :: FileHistoryJournal where
  "ex_journal = \<lparr>fj_checkpoints = [], fj_wals = [], fj_initialEpoch = 9, fj_generation = 1\<rparr>"

lemma ex_new_journal: "NewFileHistoryJournal ''dir'' [] [] 4 9 None = Inr ex_journal"
  by (simp add: NewFileHistoryJournal_def ex_journal_def)

lemma ex_journal_settled: "settled ex_journal (initial_snapshot 9)"
  unfolding ex_journal_def by (rule settled_new)

theorem checkpoint_atomic_witness:
  "Load None (fst (Checkpoint (TemporaryFails ErrAckAhead) (initial_snapshot 5) ex_journal))
    = (fst (Checkpoint (TemporaryFails ErrAckAhead) (initial_snapshot 5) ex_journal), Inr (initial_snapshot 9))"
proof -
  obtain jn' err where c: "Checkpoint (TemporaryFails ErrAckAhead) (initial_snapshot 5) ex_journal = (jn', err)" by (rule prod.exhaust)
  moreover have "err = Some ErrAckAhead" using c by (simp add: Checkpoint_def Let_def)
  moreover have "fj_generation ex_journal < -1" 
    by (simp add: ex_journal_def word_less_nat_alt unsigned_minus_1_eq_mask mask_eq_exp_minus_1)
  ultimately show ?thesis using checkpoint_atomic [OF ex_journal_settled _ c] by simp
qed

theorem torn_tail_breaks_log_witness:
  "NewHistoryWithJournal ex_options 5 100 (Some (\<lambda>j. snd (Load None j)))
     (fst (journal_Write (WriteFails ErrAckAhead True) (mutation HistoryMutationRotateEpoch 3) ex_journal)) = Inl ErrInvalidSnapshot"
proof -
  let ?m = "mutation HistoryMutationRotateEpoch 3"
  have v: "mu_Version ?m = HistoryMutationVersion" by (simp add: mutation_def)
  obtain jn1 e1 where w1: "journal_Write (WriteFails ErrAckAhead True) ?m ex_journal = (jn1, e1)" by (rule prod.exhaust)
  obtain jn2 e2 where w2: "journal_Write NoFault ?m jn1 = (jn2, e2)" by (rule prod.exhaust)
  show ?thesis
    using torn_tail_breaks_log [OF ex_journal_settled v v w1 w2, of ex_options 5 100] w1
    by (simp add: ex_journal_def checkpointGenerations_def open_wal_def)
qed

lemma ex_open: "NewHistoryWithJournal ex_options 5 100 (Some file_Load) (fs, cs, ex_journal) = Inr (ex_history 0)"
proof -
  have "file_Load (fs, cs, ex_journal) = Inr (initial_snapshot 9)" using ex_journal_settled by (simp add: file_Load_def settled_def)
  then show ?thesis
    by (simp add: NewHistoryWithJournal_def Import_def initial_snapshot_def HistorySnapshotVersion_def NewHistory_def ex_history_def ex_options_def)
qed

definition ex_record :: HistoryMutation where
  "ex_record = (mutation HistoryMutationAppend 9)\<lparr>mu_Packet := ex_log ! 0\<rparr>"

definition ex_journal1 :: FileHistoryJournal where
  "ex_journal1 = \<lparr>fj_checkpoints = [], fj_wals = [(1, \<lparr>wl_lines = [Entry ex_record], wl_tail = False\<rparr>)], fj_initialEpoch = 9, fj_generation = 1\<rparr>"

definition ex_journal2 :: FileHistoryJournal where
  "ex_journal2 = \<lparr>fj_checkpoints = [], fj_wals = [(1, \<lparr>wl_lines = [Entry ex_record, Entry ex_record], wl_tail = False\<rparr>)], fj_initialEpoch = 9,
     fj_generation = 1\<rparr>"

lemma ex_written:
  "file_Record ex_record ([], [], ex_journal) = (([], [], ex_journal1), None)"
  "file_Record ex_record ([SyncFails ErrAckAhead], [], ex_journal) = (([], [], ex_journal1), Some ErrAckAhead)"
  "file_Record ex_record ([], [], ex_journal1) = (([], [], ex_journal2), None)"
  by (simp_all add: file_Record_def journal_Write_def ex_journal_def ex_journal1_def ex_journal2_def ex_record_def mutation_def open_wal_def write_line_def)

lemma ex_append_record:
  "Append (Some file_Record) 100 (ex_history 0) j (ex_packet True 10) = (case file_Record ex_record j of
     (j3, Some e) \<Rightarrow> (ex_history 0, j3, Inl e) | (j3, None) \<Rightarrow> (ex_history 1, j3, Inr (ex_log ! 0)))"
  using Append_journal [OF ex_appends(1), of file_Record j] by (simp add: ex_record_def ex_history_def)

lemma ex_appended:
  "Append (Some file_Record) 100 (ex_history 0) ([], [], ex_journal) (ex_packet True 10) = (ex_history 1, ([], [], ex_journal1), Inr (ex_log ! 0))"
  "Append (Some file_Record) 100 (ex_history 0) ([SyncFails ErrAckAhead], [], ex_journal) (ex_packet True 10)
    = (ex_history 0, ([], [], ex_journal1), Inl ErrAckAhead)"
  "Append (Some file_Record) 100 (ex_history 0) ([], [], ex_journal1) (ex_packet True 10) = (ex_history 1, ([], [], ex_journal2), Inr (ex_log ! 0))"
  by (simp_all add: ex_append_record ex_written)

lemma ex_journal_run: "\<exists>log. journal_run ex_options ''dir'' (ex_history 1, ([], [], ex_journal1), log)"
proof -
  have "journal_run ex_options ''dir'' (ex_history 0, ([], [], ex_journal), \<lambda>_. [])"
    by (rule journal_run.start [OF ex_new_journal _ _ ex_open]) simp_all
  moreover obtain log where "stream_step (Some file_Record) (ex_history 0, ([], [], ex_journal), \<lambda>_. []) (ex_history 1, ([], [], ex_journal1), log)"
    using stream_step.append [OF ex_appended(1), of "\<lambda>_. []"] by auto
  ultimately show ?thesis using journal_run.step journaled.a_method by metis
qed

text \<open>The new process draws the epoch 3, and finds the epoch 9 in the log.\<close>

theorem journal_recovers_witness:
  "\<exists>h'. NewHistoryWithJournal ex_options 6 200 (Some file_Load) ([], [], ex_journal1\<lparr>fj_initialEpoch := 3\<rparr>) = Inr h' \<and> hi_epoch h' = 9
    \<and> rel_option recovered (map_of (hi_streams h') ex_key) (Some (ex_stream 1))"
proof -
  obtain log where run: "journal_run ex_options ''dir'' (ex_history 1, ([], [], ex_journal1), log)" using ex_journal_run by blast
  have re: "NewFileHistoryJournal ''dir'' (fj_checkpoints ex_journal1) (fj_wals ex_journal1) 3 0 None = Inr (ex_journal1\<lparr>fj_initialEpoch := 3\<rparr>)"
    by (simp add: NewFileHistoryJournal_def ex_journal1_def)
  have "recorded ex_journal1" by (simp add: recorded_def ex_journal1_def)
  then obtain h' where h': "NewHistoryWithJournal ex_options 6 200 (Some file_Load) ([], [], ex_journal1\<lparr>fj_initialEpoch := 3\<rparr>) = Inr h'"
    "\<forall>key. rel_option recovered (map_of (hi_streams h') key) (map_of (hi_streams (ex_history 1)) key)" "hi_epoch h' = hi_epoch (ex_history 1)"
    using journal_recovers [OF run re, of 6 200 "[]" "[]"] by auto
  have "rel_option recovered (map_of (hi_streams h') ex_key) (map_of (hi_streams (ex_history 1)) ex_key)" using h'(2) by blast
  moreover have "hi_epoch (ex_history 1) = 9" "map_of (hi_streams (ex_history 1)) ex_key = Some (ex_stream 1)" by (simp_all add: ex_history_def)
  ultimately show ?thesis using h'(1,3) by metis
qed

text \<open>The append is refused, its repetition accepted, and the log cannot be loaded.\<close>

theorem unsynced_record_breaks_log_witness:
  "Append (Some file_Record) 100 (ex_history 0) ([SyncFails ErrAckAhead], [], ex_journal) (ex_packet True 10)
     = (ex_history 0, ([], [], ex_journal1), Inl ErrAckAhead)
   \<and> Append (Some file_Record) 100 (ex_history 0) ([], [], ex_journal1) (ex_packet True 10)
     = (ex_history 1, ([], [], ex_journal2), Inr (ex_log ! 0))
   \<and> snd (Load None ex_journal2) = Inl ErrInvalidSnapshot"
proof -
  have "history_ok (\<lambda>_. []) (ex_history 0)" "represents (\<lambda>_. []) (initial_snapshot 9) (ex_history 0)"
    by (auto intro!: history_okI representsI simp: ex_history_def ex_options_def options_ok_def key_ok_def same_entry_def initial_snapshot_def)
  with unsynced_record_breaks_log [OF _ ex_journal_settled _ ex_appended(2,3)] ex_appended(2,3) show ?thesis by blast
qed

text \<open>
  C24. A history with a journal can be imported into, but nothing records it. When something is on disk
  and the imported snapshot has another epoch, the next append that is accepted puts a record of the new
  epoch into the log of the old one, and the log can no longer be loaded.
\<close>

theorem import_breaks_log:
  assumes "settled jn snap" "recorded jn" "sp_Epoch snap \<noteq> 0" "sp_Epoch snapshot \<noteq> sp_Epoch snap"
    and "Import now h snapshot = Inr h1"
    and "Append (Some file_Record) now' h1 ([], cfaults, jn) packet = (h2, (faults2, cfaults2, jn2), Inr p)"
  shows "snd (Load None jn2) = Inl ErrInvalidSnapshot"
proof -
  let ?m = "(mutation HistoryMutationAppend (hi_epoch h1))\<lparr>mu_Packet := p\<rparr>" and ?f = "open_wal (map_of (fj_wals jn) (fj_generation jn))"
  have e: "hi_epoch h1 = sp_Epoch snapshot" using assms(5) by (auto simp: Import_def try_bind_Inr_iff split: if_splits)
  have m: "mu_Version ?m = HistoryMutationVersion" by (simp add: mutation_def)
  have "file_Record ?m ([], cfaults, jn) = ((faults2, cfaults2, jn2), None)" using Append_record [OF assms(6)] by simp
  from file_Record_written(1) [OF this _ m] have jn2: "jn2 = put_wal jn (write_line ?m ?f)" by simp
  obtain base where b: "newest jn" "\<not> wl_tail ?f" "load_base jn (wl_lines ?f) = Some base" "replay_lines (wl_lines ?f) base = Inr snap"
    using assms(1) unfolding settled_iff by blast
  have lines: "wl_lines (write_line ?m ?f) = wl_lines ?f @ [Entry ?m]" using b(2) by (simp add: write_line_def)
  have "load_base jn (wl_lines ?f @ [Entry ?m]) = Some base" using b(3) assms(2) by (auto simp: load_base_def recorded_def split: list.splits)
  then have "snd (Load None jn2) = replay_lines (wl_lines ?f @ [Entry ?m]) base"
    using Load_result [of jn2 "write_line ?m ?f" base] b(1) unfolding jn2 by (simp add: lines)
  also have "\<dots> = Inl ErrInvalidSnapshot"
    using b(4) e assms(3,4) by (simp add: replay_lines_append replayHistoryMutation_def mutation_def HistoryMutationVersion_def)
  finally show ?thesis .
qed

theorem import_breaks_log_witness:
  "\<exists>h1 h2 jn2 p. Import 200 (ex_history 1) (initial_snapshot 5) = Inr h1
    \<and> Append (Some file_Record) 300 h1 ([], [], ex_journal1) (ex_packet True 10) = (h2, ([], [], jn2), Inr p)
    \<and> snd (Load None jn2) = Inl ErrInvalidSnapshot"
proof -
  obtain log where "journal_run ex_options ''dir'' (ex_history 1, ([], [], ex_journal1), log)" using ex_journal_run by blast
  from journal_run_ok [OF this] obtain snap where s: "settled ex_journal1 snap" "represents log snap (ex_history 1)"
    unfolding run_ok_def prod.case by blast
  have e: "sp_Epoch snap = 9" using representsD(3) [OF s(2)] by (simp add: ex_history_def)
  have r: "recorded ex_journal1" by (simp add: recorded_def ex_journal1_def)
  let ?h1 = "(ex_history 0)\<lparr>hi_epoch := 5\<rparr>" and ?p = "(ex_log ! 0)\<lparr>pk_Epoch := 5\<rparr>"
  have h1: "Import 200 (ex_history 1) (initial_snapshot 5) = Inr ?h1"
    by (simp add: Import_def initial_snapshot_def HistorySnapshotVersion_def ex_history_def ex_options_def)
  have "Append None 300 ?h1 () (ex_packet True 10)
      = (?h1\<lparr>hi_streams := [(ex_key, (ex_stream 1)\<lparr>sm_activity := 300, sm_items := [?p]\<rparr>)]\<rparr>, (), Inr ?p)" by code_simp
  from Append_journal [OF this, of file_Record "([], [], ex_journal1)"]
  obtain h2 jn2 where a: "Append (Some file_Record) 300 ?h1 ([], [], ex_journal1) (ex_packet True 10) = (h2, ([], [], jn2), Inr ?p)"
    by (simp add: file_Record_def journal_Write_def mutation_def Let_def)
  have "sp_Epoch snap \<noteq> 0" "sp_Epoch (initial_snapshot 5) \<noteq> sp_Epoch snap" using e by (simp_all add: initial_snapshot_def)
  from import_breaks_log [OF s(1) r this h1 a] h1 a show ?thesis by blast
qed

end
