(* ===== verification/Subject_Sync.thy ===== *)
theory Subject_Sync
  imports Prelude "HOL-Library.Char_ord" "HOL-Library.List_Lexorder" "HOL-Library.Product_Lexorder"
begin

text \<open>
  The content of an entity as it is sent to subscribers (\<open>src/entity/subject_sync.go\<close>): which fields are
  dirty, the version, and the two-phase update \<open>Prepare\<close>, then \<open>Commit\<close> or \<open>Abort\<close>.

  The packer is code of the application: functions of a profile and of the content \<open>'c\<close> of the entity,
  which they read under the lock of the entity. The dirty notifier is a callback on the state \<open>'w\<close> of
  the rest of the program; a panic in it is recovered and ignored. \<open>lockFails\<close> is the error of the
  function that takes the lock of the entity, if it fails. Every method that holds the mutexes is one
  step; the answers of a nil receiver are not modelled. Errors that are wrapped with more
  text are modelled by the error they wrap.
\<close>

section \<open>Data\<close>

datatype sync_error =
    ErrSubjectSyncClosed | ErrSubjectSyncNotDirty | ErrSubjectSyncInFlight | ErrSubjectSyncPacker
  | ErrSubjectSyncStalePrepare | ErrSubjectSyncFinished
  | ErrSubscriberInvalid | ErrSubscriptionSubject | ErrEnvelopeSinkRequired | ErrEnvelopeAdmission "sync_error option"
  | ErrSubscriptionNotFound | ErrSubscriptionState | ErrPreparedProfilesMissing
  | ErrSyncExternal nat

definition SyncFullReasonNone :: u32 where
  "SyncFullReasonNone = 0"

definition SyncFullReasonDirty :: u32 where
  "SyncFullReasonDirty = 1"

definition SyncFullReasonResync :: u32 where
  "SyncFullReasonResync = 2"

record SyncProfile =
  sf_Key :: string
  sf_LOD :: u8
  sf_SchemaVersion :: u32

definition profile_Normalize :: "SyncProfile \<Rightarrow> SyncProfile" where
  "profile_Normalize p = (if sf_Key p = [] then p\<lparr>sf_Key := ''default''\<rparr> else p)"

record FrozenSyncPayload =
  fz_codec :: u16
  fz_data :: bytes

definition CopyFrozenSyncPayload :: "u16 \<Rightarrow> bytes \<Rightarrow> FrozenSyncPayload" where
  "CopyFrozenSyncPayload codec data = \<lparr>fz_codec = codec, fz_data = data\<rparr>"

definition payload_Equal :: "FrozenSyncPayload \<Rightarrow> FrozenSyncPayload \<Rightarrow> bool" where
  "payload_Equal p other = (fz_codec p = fz_codec other \<and> fz_data p = fz_data other)"

record 'c SubjectSyncPacker =
  pa_Snapshot :: "SyncProfile \<Rightarrow> 'c \<Rightarrow> sync_error + FrozenSyncPayload"
  pa_Delta :: "SyncProfile \<Rightarrow> u64 \<Rightarrow> 'c \<Rightarrow> sync_error + FrozenSyncPayload"

definition PackSubjectSnapshot ::
  "(SyncProfile \<Rightarrow> 'c \<Rightarrow> sync_error + FrozenSyncPayload) option \<Rightarrow> SyncProfile \<Rightarrow> 'c \<Rightarrow> sync_error + FrozenSyncPayload" where
  "PackSubjectSnapshot f profile c =
     (case f of None \<Rightarrow> Inr \<lparr>fz_codec = 0, fz_data = []\<rparr> | Some snapshot \<Rightarrow> snapshot (profile_Normalize profile) c)"

definition PackSubjectDelta ::
  "(SyncProfile \<Rightarrow> u64 \<Rightarrow> 'c \<Rightarrow> sync_error + FrozenSyncPayload) option \<Rightarrow> SyncProfile \<Rightarrow> u64 \<Rightarrow> 'c \<Rightarrow> sync_error + FrozenSyncPayload" where
  "PackSubjectDelta f profile bits c =
     (case f of None \<Rightarrow> Inr \<lparr>fz_codec = 0, fz_data = []\<rparr> | Some delta \<Rightarrow> delta (profile_Normalize profile) bits c)"

record 'c SubjectSyncCreateParam =
  cp_Enabled :: bool
  cp_SubjectID :: int
  cp_Namespace :: string
  cp_SubjectKind :: u32
  cp_Packer :: "'c SubjectSyncPacker option"

record SubjectSyncUpdate =
  up_SubjectID :: int
  up_Namespace :: string
  up_SubjectKind :: u32
  up_Profile :: SyncProfile
  up_Version :: u64
  up_BaseVersion :: u64
  up_Mask :: u64
  up_Full :: bool
  up_Reason :: u32
  up_Payload :: FrozenSyncPayload

record ('c, 'w) SubjectSyncState =
  sj_enabled :: bool
  sj_subjectID :: int
  sj_namespace :: string
  sj_subjectKind :: u32
  sj_version :: u64
  sj_dirtyMask :: u64
  sj_fullDirty :: bool
  sj_fullReason :: u32
  sj_dirtyGeneration :: u64
  sj_packer :: "'c SubjectSyncPacker option"
  sj_dirtyNotifier :: "('w \<Rightarrow> 'w) option"
  sj_nextToken :: u64
  sj_inflightToken :: u64
  sj_lastError :: "sync_error option"

record PreparedSubjectSync =
  pp_token :: u64
  pp_generation :: u64
  pp_baseVersion :: u64
  pp_version :: u64
  pp_updates :: "SubjectSyncUpdate list"
  pp_finished :: bool

definition NewSubjectSyncState :: "'c SubjectSyncCreateParam \<Rightarrow> ('c, 'w) SubjectSyncState option" where
  "NewSubjectSyncState param =
     (if \<not> cp_Enabled param then None
      else Some \<lparr>sj_enabled = True, sj_subjectID = cp_SubjectID param, sj_namespace = cp_Namespace param,
        sj_subjectKind = cp_SubjectKind param, sj_version = 0, sj_dirtyMask = 0, sj_fullDirty = False, sj_fullReason = 0,
        sj_dirtyGeneration = 0, sj_packer = cp_Packer param, sj_dirtyNotifier = None, sj_nextToken = 0, sj_inflightToken = 0,
        sj_lastError = None\<rparr>)"

section \<open>Dirty marks\<close>

definition PendingDirty :: "('c, 'w) SubjectSyncState \<Rightarrow> bool" where
  "PendingDirty s = (sj_dirtyMask s \<noteq> 0 \<or> sj_fullDirty s)"

definition SetPacker :: "('c, 'w) SubjectSyncState \<Rightarrow> 'c SubjectSyncPacker option \<Rightarrow> ('c, 'w) SubjectSyncState" where
  "SetPacker s packer = s\<lparr>sj_packer := packer\<rparr>"

definition notifySubjectSyncDirty :: "('w \<Rightarrow> 'w) option \<Rightarrow> 'w \<Rightarrow> 'w" where
  "notifySubjectSyncDirty notifier w = (case notifier of None \<Rightarrow> w | Some f \<Rightarrow> f w)"

definition SetDirtyNotifier :: "('c, 'w) SubjectSyncState \<Rightarrow> ('w \<Rightarrow> 'w) option \<Rightarrow> 'w \<Rightarrow> ('c, 'w) SubjectSyncState \<times> 'w" where
  "SetDirtyNotifier s notifier w =
     (let s1 = (if sj_enabled s then s\<lparr>sj_dirtyNotifier := notifier\<rparr> else s);
          pending = (sj_enabled s1 \<and> (sj_dirtyMask s1 \<noteq> 0 \<or> sj_fullDirty s1)) in
      (s1, if pending then notifySubjectSyncDirty notifier w else w))"

unbundle bit_operations_syntax

definition MarkDirty :: "('c, 'w) SubjectSyncState \<Rightarrow> u64 \<Rightarrow> 'w \<Rightarrow> ('c, 'w) SubjectSyncState \<times> 'w" where
  "MarkDirty s bits w =
     (if bits = 0 then (s, w)
      else if sj_enabled s then
        (s\<lparr>sj_dirtyMask := sj_dirtyMask s OR bits, sj_dirtyGeneration := sj_dirtyGeneration s + 1\<rparr>,
         notifySubjectSyncDirty (sj_dirtyNotifier s) w)
      else (s, w))"

definition MarkFullDirty :: "('c, 'w) SubjectSyncState \<Rightarrow> u32 \<Rightarrow> 'w \<Rightarrow> ('c, 'w) SubjectSyncState \<times> 'w" where
  "MarkFullDirty s reason0 w =
     (let reason = (if reason0 = SyncFullReasonNone then SyncFullReasonDirty else reason0) in
      if sj_enabled s then
        (s\<lparr>sj_fullDirty := True, sj_fullReason := reason, sj_dirtyMask := 0, sj_dirtyGeneration := sj_dirtyGeneration s + 1\<rparr>,
         notifySubjectSyncDirty (sj_dirtyNotifier s) w)
      else (s, w))"

section \<open>Preparing, committing, aborting\<close>

definition profile_key :: "SyncProfile \<Rightarrow> string \<times> u8 \<times> u32" where
  "profile_key p = (sf_Key p, sf_LOD p, sf_SchemaVersion p)"

definition normalizeSyncProfiles :: "SyncProfile list \<Rightarrow> SyncProfile list" where
  "normalizeSyncProfiles profiles0 =
     (let profiles = (if profiles0 = [] then [\<lparr>sf_Key = ''default'', sf_LOD = 0, sf_SchemaVersion = 0\<rparr>] else profiles0) in
      sort_key profile_key (remdups (map profile_Normalize profiles)))"

text \<open>The loop over the profiles: the first error of the packer ends it.\<close>

fun pack_all :: "(SyncProfile \<Rightarrow> sync_error + FrozenSyncPayload) \<Rightarrow> SubjectSyncUpdate \<Rightarrow> SyncProfile list \<Rightarrow> sync_error + SubjectSyncUpdate list" where
  "pack_all pack template [] = Inr []"
| "pack_all pack template (profile # profiles) =
     try_bind (pack profile) (\<lambda>payload.
     try_bind (pack_all pack template profiles) (\<lambda>updates.
       Inr (template\<lparr>up_Profile := profile, up_Payload := payload\<rparr> # updates)))"

definition failPrepare :: "('c, 'w) SubjectSyncState \<Rightarrow> u64 \<Rightarrow> sync_error \<Rightarrow> ('c, 'w) SubjectSyncState" where
  "failPrepare s token err =
     (if sj_inflightToken s = token then s\<lparr>sj_inflightToken := 0\<rparr> else s)\<lparr>sj_lastError := Some err\<rparr>"

definition no_profile :: SyncProfile where
  "no_profile = \<lparr>sf_Key = [], sf_LOD = 0, sf_SchemaVersion = 0\<rparr>"

definition prepareLocked ::
  "('c, 'w) SubjectSyncState \<Rightarrow> 'c \<Rightarrow> SyncProfile list \<Rightarrow> ('c, 'w) SubjectSyncState \<times> (sync_error + PreparedSubjectSync)" where
  "prepareLocked s c profiles =
     (if \<not> sj_enabled s then (s, Inl ErrSubjectSyncClosed)
      else if sj_inflightToken s \<noteq> 0 then (s, Inl ErrSubjectSyncInFlight)
      else if sj_dirtyMask s = 0 \<and> \<not> sj_fullDirty s then (s, Inl ErrSubjectSyncNotDirty)
      else case sj_packer s of
        None \<Rightarrow> (s\<lparr>sj_lastError := Some ErrSubjectSyncPacker\<rparr>, Inl ErrSubjectSyncPacker)
      | Some packer \<Rightarrow>
          let token = sj_nextToken s + 1;
              s1 = s\<lparr>sj_nextToken := token, sj_inflightToken := token\<rparr>;
              full = sj_fullDirty s;
              reason = (if full \<and> sj_fullReason s = SyncFullReasonNone then SyncFullReasonDirty else sj_fullReason s);
              template = \<lparr>up_SubjectID = sj_subjectID s, up_Namespace = sj_namespace s, up_SubjectKind = sj_subjectKind s,
                up_Profile = no_profile, up_Version = sj_version s + 1, up_BaseVersion = sj_version s, up_Mask = sj_dirtyMask s,
                up_Full = full, up_Reason = reason, up_Payload = \<lparr>fz_codec = 0, fz_data = []\<rparr>\<rparr>;
              pack = (\<lambda>profile. if full then pa_Snapshot packer profile c else pa_Delta packer profile (sj_dirtyMask s) c) in
          case pack_all pack template profiles of
            Inl e \<Rightarrow> (failPrepare s1 token e, Inl e)
          | Inr updates \<Rightarrow>
              (s1, Inr \<lparr>pp_token = token, pp_generation = sj_dirtyGeneration s, pp_baseVersion = sj_version s,
                 pp_version = sj_version s + 1, pp_updates = updates, pp_finished = False\<rparr>))"

definition Prepare ::
  "('c, 'w) SubjectSyncState \<Rightarrow> sync_error option \<Rightarrow> 'c \<Rightarrow> SyncProfile list
    \<Rightarrow> ('c, 'w) SubjectSyncState \<times> (sync_error + PreparedSubjectSync)" where
  "Prepare s lockFails c profiles =
     (case lockFails of Some e \<Rightarrow> (s, Inl e) | None \<Rightarrow> prepareLocked s c (normalizeSyncProfiles profiles))"

definition capture_updates ::
  "('c, 'w) SubjectSyncState \<Rightarrow> sync_error option \<Rightarrow> 'c \<Rightarrow> SyncProfile list \<Rightarrow> u32 \<Rightarrow> sync_error + SubjectSyncUpdate list" where
  "capture_updates s lockFails c profiles reason =
     (case lockFails of
        Some e \<Rightarrow> Inl e
      | None \<Rightarrow>
          if \<not> sj_enabled s then Inl ErrSubjectSyncClosed
          else case sj_packer s of
            None \<Rightarrow> Inl ErrSubjectSyncPacker
          | Some packer \<Rightarrow>
              pack_all (\<lambda>profile. pa_Snapshot packer profile c)
                \<lparr>up_SubjectID = sj_subjectID s, up_Namespace = sj_namespace s, up_SubjectKind = sj_subjectKind s,
                 up_Profile = no_profile, up_Version = sj_version s, up_BaseVersion = sj_version s, up_Mask = 0, up_Full = True,
                 up_Reason = reason, up_Payload = \<lparr>fz_codec = 0, fz_data = []\<rparr>\<rparr> profiles)"

definition CaptureSnapshot ::
  "('c, 'w) SubjectSyncState \<Rightarrow> sync_error option \<Rightarrow> 'c \<Rightarrow> SyncProfile list \<Rightarrow> u32
    \<Rightarrow> ('c, 'w) SubjectSyncState \<times> (sync_error + SubjectSyncUpdate list)" where
  "CaptureSnapshot s lockFails c profiles reason =
     (case capture_updates s lockFails c (normalizeSyncProfiles profiles)
             (if reason = SyncFullReasonNone then SyncFullReasonResync else reason) of
        Inl e \<Rightarrow> (s\<lparr>sj_lastError := Some e\<rparr>, Inl e)
      | Inr updates \<Rightarrow> (s\<lparr>sj_lastError := None\<rparr>, Inr updates))"

definition subject_Close :: "('c, 'w) SubjectSyncState \<Rightarrow> ('c, 'w) SubjectSyncState" where
  "subject_Close s = s\<lparr>sj_enabled := False, sj_dirtyMask := 0, sj_fullDirty := False, sj_fullReason := SyncFullReasonNone,
     sj_inflightToken := 0, sj_packer := None, sj_dirtyNotifier := None\<rparr>"

definition prepared_Commit ::
  "PreparedSubjectSync \<Rightarrow> ('c, 'w) SubjectSyncState \<Rightarrow> PreparedSubjectSync \<times> ('c, 'w) SubjectSyncState \<times> sync_error option" where
  "prepared_Commit p s =
     (if pp_finished p then (p, s, Some ErrSubjectSyncFinished)
      else
        let p1 = p\<lparr>pp_finished := True\<rparr> in
        if \<not> sj_enabled s \<or> sj_inflightToken s \<noteq> pp_token p \<or> sj_version s \<noteq> pp_baseVersion p then
          (p1, if sj_inflightToken s = pp_token p then s\<lparr>sj_inflightToken := 0\<rparr> else s, Some ErrSubjectSyncStalePrepare)
        else
          let s1 = s\<lparr>sj_version := pp_version p\<rparr>;
              s2 = (if sj_dirtyGeneration s1 = pp_generation p
                    then s1\<lparr>sj_dirtyMask := 0, sj_fullDirty := False, sj_fullReason := SyncFullReasonNone\<rparr> else s1) in
          (p1, s2\<lparr>sj_inflightToken := 0, sj_lastError := None\<rparr>, None))"

definition AbortWithError ::
  "PreparedSubjectSync \<Rightarrow> ('c, 'w) SubjectSyncState \<Rightarrow> sync_error option
    \<Rightarrow> PreparedSubjectSync \<times> ('c, 'w) SubjectSyncState \<times> sync_error option" where
  "AbortWithError p s cause =
     (if pp_finished p then (p, s, Some ErrSubjectSyncFinished)
      else
        let p1 = p\<lparr>pp_finished := True\<rparr> in
        if sj_inflightToken s \<noteq> pp_token p then (p1, s, Some ErrSubjectSyncStalePrepare)
        else (p1, s\<lparr>sj_inflightToken := 0, sj_lastError := cause\<rparr>, None))"

definition prepared_Abort ::
  "PreparedSubjectSync \<Rightarrow> ('c, 'w) SubjectSyncState \<Rightarrow> PreparedSubjectSync \<times> ('c, 'w) SubjectSyncState \<times> sync_error option" where
  "prepared_Abort p s = AbortWithError p s None"

end
