(* ===== verification/Subscription.thy ===== *)
theory Subscription
  imports Subject_Sync
begin

text \<open>
  Who receives the content of an entity (\<open>src/entitysync/subscription.go\<close>): subscriptions, the snapshot a
  new subscriber gets, and the transactional distribution of a prepared update.

  The sink is code of the application: a function of a batch of envelopes and of the state \<open>'w\<close> of the
  rest of the program, which admits the batch, refuses it, or panics. \<open>ctxErr\<close> is the error of the
  context of the caller. The methods for one subject exclude each other (\<open>subjectOps\<close>), so each of them
  is one step; what other subjects do in between touches other keys. An entity may change its content
  and mark it dirty at any time, also during a method; a method reads the content only when it captures
  or prepares, so such a change is a step before or after it.
\<close>

section \<open>Data\<close>

record SubscriberRef =
  sr_Kind :: u8
  sr_ID :: int
  sr_Sid :: int
  sr_Key :: string

definition SubscriberKindNone :: u8 where
  "SubscriberKindNone = 0"

definition SubscriberKindPlayer :: u8 where
  "SubscriberKindPlayer = 1"

definition subscriber_Normalize :: "SubscriberRef \<Rightarrow> SubscriberRef" where
  "subscriber_Normalize r = (if sr_Kind r = SubscriberKindNone \<and> sr_ID r \<noteq> 0 then r\<lparr>sr_Kind := SubscriberKindPlayer\<rparr> else r)"

definition subscriber_Empty :: "SubscriberRef \<Rightarrow> bool" where
  "subscriber_Empty r0 =
     (let r = subscriber_Normalize r0 in
      sr_Kind r = SubscriberKindNone \<or> (sr_ID r = 0 \<and> sr_Sid r = 0 \<and> sr_Key r = []))"

datatype SubscriptionState = SubscriptionPending | SubscriptionActive | SubscriptionClosing

record Subscription =
  sb_Subscriber :: SubscriberRef
  sb_SubjectID :: int
  sb_Namespace :: string
  sb_SubjectKind :: u32
  sb_Profile :: SyncProfile
  sb_State :: SubscriptionState
  sb_ContentVersion :: u64
  sb_Revision :: u64

datatype EnvelopeKind = EnvelopeSnapshot | EnvelopeDelta | EnvelopeLeave

record DeliveryEnvelope =
  de_Subscriber :: SubscriberRef
  de_Kind :: EnvelopeKind
  de_Update :: SubjectSyncUpdate

datatype sink_outcome = Admitted | Refused sync_error | Panicked

type_synonym 'w ReliableEnvelopeSink = "DeliveryEnvelope list \<Rightarrow> 'w \<Rightarrow> 'w \<times> sink_outcome"

type_synonym subscriptionKey = "SubscriberRef \<times> int"

record 'w SubscriptionCoordinator =
  sc_sink :: "'w ReliableEnvelopeSink option"
  sc_subscriptions :: "(subscriptionKey, Subscription) gomap"
  sc_revision :: u64

definition NewSubscriptionCoordinator :: "'w ReliableEnvelopeSink option \<Rightarrow> 'w SubscriptionCoordinator" where
  "NewSubscriptionCoordinator sink = \<lparr>sc_sink = sink, sc_subscriptions = [], sc_revision = 0\<rparr>"

definition SetSink :: "'w SubscriptionCoordinator \<Rightarrow> 'w ReliableEnvelopeSink option \<Rightarrow> 'w SubscriptionCoordinator" where
  "SetSink co sink = co\<lparr>sc_sink := sink\<rparr>"

unbundle bit_operations_syntax

definition subjectOp :: "int \<Rightarrow> u64" where
  "subjectOp subjectID =
     (let idx = word_of_int subjectID;
          idx = idx XOR drop_bit 33 idx;
          idx = idx * 0xff51afd7ed558ccd;
          idx = idx XOR drop_bit 33 idx in
      idx mod 64)"

definition nextRevisionLocked :: "'w SubscriptionCoordinator \<Rightarrow> 'w SubscriptionCoordinator \<times> u64" where
  "nextRevisionLocked co = (let revision = sc_revision co + 1 in (co\<lparr>sc_revision := revision\<rparr>, revision))"

definition put_subscription :: "'w SubscriptionCoordinator \<Rightarrow> subscriptionKey \<Rightarrow> Subscription \<Rightarrow> 'w SubscriptionCoordinator" where
  "put_subscription co key sb = co\<lparr>sc_subscriptions := AList.update key sb (sc_subscriptions co)\<rparr>"

definition rollbackSubscription ::
  "'w SubscriptionCoordinator \<Rightarrow> subscriptionKey \<Rightarrow> Subscription option \<Rightarrow> 'w SubscriptionCoordinator" where
  "rollbackSubscription co key previous =
     (case previous of
        Some sb \<Rightarrow> put_subscription co key sb
      | None \<Rightarrow> co\<lparr>sc_subscriptions := AList.delete key (sc_subscriptions co)\<rparr>)"

definition restoreActive :: "'w SubscriptionCoordinator \<Rightarrow> subscriptionKey \<Rightarrow> Subscription \<Rightarrow> 'w SubscriptionCoordinator" where
  "restoreActive co key sb = put_subscription co key (sb\<lparr>sb_State := SubscriptionActive\<rparr>)"

definition admitEnvelopes ::
  "sync_error option \<Rightarrow> 'w ReliableEnvelopeSink option \<Rightarrow> DeliveryEnvelope list \<Rightarrow> 'w \<Rightarrow> 'w \<times> sync_error option" where
  "admitEnvelopes ctxErr sink envelopes w =
     (case sink of
        None \<Rightarrow> (w, Some ErrEnvelopeSinkRequired)
      | Some admit \<Rightarrow>
          (case ctxErr of
             Some e \<Rightarrow> (w, Some e)
           | None \<Rightarrow>
               (case admit envelopes w of
                  (w1, Admitted) \<Rightarrow> (w1, None)
                | (w1, Refused e) \<Rightarrow> (w1, Some e)
                | (w1, Panicked) \<Rightarrow> (w1, Some (ErrEnvelopeAdmission None)))))"

section \<open>Subscribing\<close>

definition Subscribe ::
  "'w SubscriptionCoordinator \<Rightarrow> ('c, 'w) SubjectSyncState \<Rightarrow> sync_error option \<Rightarrow> sync_error option \<Rightarrow> 'c \<Rightarrow> 'w
    \<Rightarrow> SubscriberRef \<Rightarrow> SyncProfile \<Rightarrow> 'w SubscriptionCoordinator \<times> ('c, 'w) SubjectSyncState \<times> 'w \<times> (sync_error + Subscription)" where
  "Subscribe co s lockFails ctxErr c w subscriber0 profile0 =
     (let subscriber = subscriber_Normalize subscriber0 in
      if subscriber_Empty subscriber then (co, s, w, Inl ErrSubscriberInvalid)
      else if sj_subjectID s = 0 then (co, s, w, Inl ErrSubscriptionSubject)
      else
        let profile = profile_Normalize profile0;
            key = (subscriber, sj_subjectID s);
            existing = map_of (sc_subscriptions co) key in
        case (case existing of Some sb \<Rightarrow> if sb_State sb = SubscriptionActive \<and> sb_Profile sb = profile then Some sb else None
              | None \<Rightarrow> None) of
          Some sb \<Rightarrow> (co, s, w, Inr sb)
        | None \<Rightarrow>
            let (co1, revision) = nextRevisionLocked co;
                pending = \<lparr>sb_Subscriber = subscriber, sb_SubjectID = sj_subjectID s, sb_Namespace = sj_namespace s,
                  sb_SubjectKind = sj_subjectKind s, sb_Profile = profile, sb_State = SubscriptionPending, sb_ContentVersion = 0,
                  sb_Revision = revision\<rparr>;
                co2 = put_subscription co1 key pending in
            if Option.is_none (sc_sink co2) then (rollbackSubscription co2 key existing, s, w, Inl ErrEnvelopeSinkRequired)
            else case CaptureSnapshot s lockFails c [profile] SyncFullReasonResync of
              (s1, Inl e) \<Rightarrow> (rollbackSubscription co2 key existing, s1, w, Inl e)
            | (s1, Inr snapshots) \<Rightarrow>
                if length snapshots \<noteq> 1 then (rollbackSubscription co2 key existing, s1, w, Inl ErrPreparedProfilesMissing)
                else
                  let snapshot = snapshots ! 0 in
                  case admitEnvelopes ctxErr (sc_sink co2)
                         [\<lparr>de_Subscriber = subscriber, de_Kind = EnvelopeSnapshot, de_Update = snapshot\<rparr>] w of
                    (w1, Some e) \<Rightarrow> (rollbackSubscription co2 key existing, s1, w1, Inl (ErrEnvelopeAdmission (Some e)))
                  | (w1, None) \<Rightarrow>
                      let active = pending\<lparr>sb_State := SubscriptionActive, sb_ContentVersion := up_Version snapshot\<rparr> in
                      (case map_of (sc_subscriptions co2) key of
                         None \<Rightarrow> (co2, s1, w1, Inl ErrSubscriptionState)
                       | Some current \<Rightarrow>
                           if sb_Revision current \<noteq> sb_Revision active \<or> sb_State current \<noteq> SubscriptionPending
                           then (co2, s1, w1, Inl ErrSubscriptionState)
                           else (put_subscription co2 key active, s1, w1, Inr active)))"

definition Unsubscribe ::
  "'w SubscriptionCoordinator \<Rightarrow> sync_error option \<Rightarrow> 'w \<Rightarrow> SubscriberRef \<Rightarrow> int
    \<Rightarrow> 'w SubscriptionCoordinator \<times> 'w \<times> (sync_error + unit)" where
  "Unsubscribe co ctxErr w subscriber0 subjectID =
     (let subscriber = subscriber_Normalize subscriber0 in
      if subscriber_Empty subscriber then (co, w, Inl ErrSubscriberInvalid)
      else if subjectID = 0 then (co, w, Inl ErrSubscriptionSubject)
      else
        let key = (subscriber, subjectID) in
        case map_of (sc_subscriptions co) key of
          None \<Rightarrow> (co, w, Inl ErrSubscriptionNotFound)
        | Some found \<Rightarrow>
            if sb_State found \<noteq> SubscriptionActive then (co, w, Inl ErrSubscriptionState)
            else
              let (co1, revision) = nextRevisionLocked co;
                  current = found\<lparr>sb_State := SubscriptionClosing, sb_Revision := revision\<rparr>;
                  co2 = put_subscription co1 key current in
              if Option.is_none (sc_sink co2) then (restoreActive co2 key current, w, Inl ErrEnvelopeSinkRequired)
              else
                let leave = \<lparr>de_Subscriber = subscriber, de_Kind = EnvelopeLeave, de_Update = \<lparr>up_SubjectID = subjectID,
                      up_Namespace = sb_Namespace current, up_SubjectKind = sb_SubjectKind current, up_Profile = sb_Profile current,
                      up_Version = sb_ContentVersion current, up_BaseVersion = sb_ContentVersion current, up_Mask = 0,
                      up_Full = False, up_Reason = 0, up_Payload = \<lparr>fz_codec = 0, fz_data = []\<rparr>\<rparr>\<rparr> in
                case admitEnvelopes ctxErr (sc_sink co2) [leave] w of
                  (w1, Some e) \<Rightarrow> (restoreActive co2 key current, w1, Inl (ErrEnvelopeAdmission (Some e)))
                | (w1, None) \<Rightarrow>
                    (case map_of (sc_subscriptions co2) key of
                       Some latest \<Rightarrow>
                         if sb_Revision latest = sb_Revision current \<and> sb_State latest = SubscriptionClosing
                         then (co2\<lparr>sc_subscriptions := AList.delete key (sc_subscriptions co2)\<rparr>, w1, Inr ())
                         else (co2, w1, Inr ())
                     | None \<Rightarrow> (co2, w1, Inr ())))"

section \<open>Distributing\<close>

definition subscriber_key :: "SubscriberRef \<Rightarrow> u8 \<times> int \<times> int \<times> string" where
  "subscriber_key r = (sr_Kind r, sr_ID r, sr_Sid r, sr_Key r)"

definition sortSubscriptions :: "Subscription list \<Rightarrow> Subscription list" where
  "sortSubscriptions = sort_key (\<lambda>sb. subscriber_key (subscriber_Normalize (sb_Subscriber sb)))"

definition active_subscriptions :: "'w SubscriptionCoordinator \<Rightarrow> int \<Rightarrow> Subscription list" where
  "active_subscriptions co subjectID =
     filter (\<lambda>sb. sb_SubjectID sb = subjectID \<and> sb_State sb = SubscriptionActive) (govalues (sc_subscriptions co))"

definition Subscribers :: "'w SubscriptionCoordinator \<Rightarrow> int \<Rightarrow> Subscription list" where
  "Subscribers co subjectID = (if subjectID = 0 then [] else sortSubscriptions (active_subscriptions co subjectID))"

definition sub_Get :: "'w SubscriptionCoordinator \<Rightarrow> SubscriberRef \<Rightarrow> int \<Rightarrow> Subscription option" where
  "sub_Get co subscriber subjectID = map_of (sc_subscriptions co) (subscriber_Normalize subscriber, subjectID)"

definition Profiles :: "'w SubscriptionCoordinator \<Rightarrow> int \<Rightarrow> SyncProfile list" where
  "Profiles co subjectID =
     sort_key profile_key (remdups (map (\<lambda>sb. profile_Normalize (sb_Profile sb)) (Subscribers co subjectID)))"

text \<open>\<open>byProfile\<close>: a later update for the same profile replaces an earlier one.\<close>

definition by_profile :: "SubjectSyncUpdate list \<Rightarrow> (SyncProfile, SubjectSyncUpdate) gomap" where
  "by_profile updates = fold (\<lambda>u. AList.update (profile_Normalize (up_Profile u)) u) updates []"

fun envelopes_for :: "(SyncProfile, SubjectSyncUpdate) gomap \<Rightarrow> Subscription list \<Rightarrow> DeliveryEnvelope list option" where
  "envelopes_for byProfile [] = Some []"
| "envelopes_for byProfile (sb # sbs) =
     (case map_of byProfile (profile_Normalize (sb_Profile sb)) of
        None \<Rightarrow> None
      | Some update \<Rightarrow>
          map_option (\<lambda>es. \<lparr>de_Subscriber = sb_Subscriber sb, de_Kind = (if up_Full update then EnvelopeSnapshot else EnvelopeDelta),
            de_Update = update\<rparr> # es) (envelopes_for byProfile sbs))"

definition advance_subscription :: "u64 \<Rightarrow> int \<Rightarrow> Subscription \<Rightarrow> 'w SubscriptionCoordinator \<Rightarrow> 'w SubscriptionCoordinator" where
  "advance_subscription version subjectID sb co =
     (let key = (sb_Subscriber sb, subjectID) in
      case map_of (sc_subscriptions co) key of
        Some current \<Rightarrow>
          if sb_State current = SubscriptionActive \<and> sb_Revision current = sb_Revision sb
          then put_subscription co key (current\<lparr>sb_ContentVersion := version\<rparr>) else co
      | None \<Rightarrow> co)"

definition aborted ::
  "PreparedSubjectSync \<Rightarrow> ('c, 'w) SubjectSyncState \<Rightarrow> sync_error \<Rightarrow> PreparedSubjectSync \<times> ('c, 'w) SubjectSyncState" where
  "aborted p s cause = (let (p1, s1, _) = AbortWithError p s (Some cause) in (p1, s1))"

definition Distribute ::
  "'w SubscriptionCoordinator \<Rightarrow> ('c, 'w) SubjectSyncState \<Rightarrow> sync_error option \<Rightarrow> 'w \<Rightarrow> PreparedSubjectSync
    \<Rightarrow> 'w SubscriptionCoordinator \<times> ('c, 'w) SubjectSyncState \<times> PreparedSubjectSync \<times> 'w \<times> sync_error option" where
  "Distribute co s ctxErr w p =
     (let updates = pp_updates p;
          refuse = (\<lambda>w cause err. let (p1, s1) = aborted p s cause in (co, s1, p1, w, Some err)) in
      if updates = [] \<or> up_SubjectID (updates ! 0) = 0 then refuse w ErrSubscriptionSubject ErrSubscriptionSubject
      else
        let subjectID = up_SubjectID (updates ! 0) in
        if list_ex (\<lambda>u. up_SubjectID u \<noteq> subjectID) updates then refuse w ErrSubscriptionSubject ErrSubscriptionSubject
        else
          let sbs = sortSubscriptions (active_subscriptions co subjectID) in
          if sbs \<noteq> [] \<and> Option.is_none (sc_sink co) then refuse w ErrEnvelopeSinkRequired ErrEnvelopeSinkRequired
          else case envelopes_for (by_profile updates) sbs of
            None \<Rightarrow> refuse w ErrPreparedProfilesMissing ErrPreparedProfilesMissing
          | Some envelopes \<Rightarrow>
              (case (if envelopes = [] then (w, None) else admitEnvelopes ctxErr (sc_sink co) envelopes w) of
                 (w1, Some e) \<Rightarrow> refuse w1 e (ErrEnvelopeAdmission (Some e))
               | (w1, None) \<Rightarrow>
                   (case prepared_Commit p s of
                      (p1, s1, Some e) \<Rightarrow> (co, s1, p1, w1, Some e)
                    | (p1, s1, None) \<Rightarrow> (fold (advance_subscription (pp_version p) subjectID) sbs co, s1, p1, w1, None))))"

definition FlushSubject ::
  "'w SubscriptionCoordinator \<Rightarrow> ('c, 'w) SubjectSyncState \<Rightarrow> sync_error option \<Rightarrow> sync_error option \<Rightarrow> 'c \<Rightarrow> 'w
    \<Rightarrow> 'w SubscriptionCoordinator \<times> ('c, 'w) SubjectSyncState \<times> 'w \<times> sync_error option" where
  "FlushSubject co s lockFails ctxErr c w =
     (if sj_subjectID s = 0 then (co, s, w, Some ErrSubscriptionSubject)
      else case Prepare s lockFails c (Profiles co (sj_subjectID s)) of
        (s1, Inl e) \<Rightarrow> (co, s1, w, if e = ErrSubjectSyncNotDirty then None else Some e)
      | (s1, Inr p) \<Rightarrow> (case Distribute co s1 ctxErr w p of (co1, s2, p1, w1, err) \<Rightarrow> (co1, s2, w1, err)))"

end
