(* ===== verification/Subscription_Converge.thy ===== *)
theory Subscription_Converge
  imports Subscription
begin

text \<open>
  What the subscribers of a subject hold: the envelopes admitted for a subscriber, applied in order, give it a
  view of the content of the entity that is behind only where a dirty mark says so. The steps are the
  methods of \<open>src/entity/subject_sync.go\<close> and \<open>src/entitysync/subscription.go\<close> with every failure they handle.
\<close>

section \<open>What subscribers make of the envelopes\<close>

text \<open>
  The content of an entity has a field per bit of the dirty mask. A subscriber with a profile holds a
  view of it: a snapshot sets the view, a delta changes it, a leave drops it. The application gives the
  view of a content and the two effects of a payload; \<open>packer_ok\<close> says that the packer serves them: a
  snapshot is the view of the content, and a delta for a mask replaces the fields in the mask.
\<close>

type_synonym 'f content = "nat \<Rightarrow> 'f"

record ('f, 'v) reading =
  rd_view :: "SyncProfile \<Rightarrow> 'f content \<Rightarrow> 'v"
  rd_set :: "FrozenSyncPayload \<Rightarrow> 'v"
  rd_change :: "FrozenSyncPayload \<Rightarrow> 'v \<Rightarrow> 'v"

definition overlay :: "u64 \<Rightarrow> 'f content \<Rightarrow> 'f content \<Rightarrow> 'f content" where
  "overlay bits new old = (\<lambda>i. if bit bits i then new i else old i)"

definition packer_ok :: "('f, 'v) reading \<Rightarrow> 'f content SubjectSyncPacker \<Rightarrow> bool" where
  "packer_ok rd pk \<longleftrightarrow>
     (\<forall>p c payload. pa_Snapshot pk p c = Inr payload \<longrightarrow> rd_set rd payload = rd_view rd p c)
     \<and> (\<forall>p bits c payload. pa_Delta pk p bits c = Inr payload \<longrightarrow>
          (\<forall>old. rd_change rd payload (rd_view rd p old) = rd_view rd p (overlay bits c old)))"

definition receive :: "('f, 'v) reading \<Rightarrow> DeliveryEnvelope \<Rightarrow> (SubscriberRef \<Rightarrow> 'v option) \<Rightarrow> SubscriberRef \<Rightarrow> 'v option" where
  "receive rd e views = views(de_Subscriber e := (case de_Kind e of
       EnvelopeSnapshot \<Rightarrow> Some (rd_set rd (up_Payload (de_Update e)))
     | EnvelopeDelta \<Rightarrow> map_option (rd_change rd (up_Payload (de_Update e))) (views (de_Subscriber e))
     | EnvelopeLeave \<Rightarrow> None))"

text \<open>The contract of a sink: it admits the complete batch, or nothing of it.\<close>

definition sink_ok :: "('w \<Rightarrow> DeliveryEnvelope list) \<Rightarrow> 'w ReliableEnvelopeSink \<Rightarrow> bool" where
  "sink_ok admitted sink \<longleftrightarrow>
     (\<forall>es w w' outcome. sink es w = (w', outcome) \<longrightarrow> admitted w' = admitted w @ (if outcome = Admitted then es else []))"

definition views :: "('f, 'v) reading \<Rightarrow> ('w \<Rightarrow> DeliveryEnvelope list) \<Rightarrow> 'w \<Rightarrow> SubscriberRef \<Rightarrow> 'v option" where
  "views rd admitted w = fold (receive rd) (admitted w) (\<lambda>_. None)"

type_synonym ('f, 'w) subject_system =
  "'w SubscriptionCoordinator \<times> ('f content, 'w) SubjectSyncState \<times> 'f content \<times> 'w \<times> PreparedSubjectSync option"

text \<open>
  The steps of a subject with its subscribers; the last component is the update that is prepared and
  neither distributed nor aborted. An entity changes its content and marks the change under its own
  lock, in one step. The bounds keep the 64-bit counters of marks and tokens from wrapping.
\<close>

inductive subject_step :: "('f, 'v) reading \<Rightarrow> ('w \<Rightarrow> DeliveryEnvelope list) \<Rightarrow> ('f, 'w) subject_system \<Rightarrow> ('f, 'w) subject_system \<Rightarrow> bool"
  for rd admitted where
  change: "\<forall>i. c' i \<noteq> c i \<longrightarrow> bit bits i \<Longrightarrow> sj_dirtyGeneration s < -1 \<Longrightarrow> MarkDirty s bits w = (s', w') \<Longrightarrow>
     subject_step rd admitted (co, s, c, w, fl) (co, s', c', w', fl)"
| change_all: "sj_dirtyGeneration s < -1 \<Longrightarrow> MarkFullDirty s reason w = (s', w') \<Longrightarrow>
     subject_step rd admitted (co, s, c, w, fl) (co, s', c', w', fl)"
| notifier: "\<forall>f. n = Some f \<longrightarrow> (\<forall>w. admitted (f w) = admitted w) \<Longrightarrow> SetDirtyNotifier s n w = (s', w') \<Longrightarrow>
     subject_step rd admitted (co, s, c, w, fl) (co, s', c, w', fl)"
| sink: "\<forall>f. sink = Some f \<longrightarrow> sink_ok admitted f \<Longrightarrow> subject_step rd admitted (co, s, c, w, fl) (SetSink co sink, s, c, w, fl)"
| packer: "\<forall>pk. packer = Some pk \<longrightarrow> packer_ok rd pk \<Longrightarrow> subject_step rd admitted (co, s, c, w, fl) (co, SetPacker s packer, c, w, fl)"
| subscribe: "Subscribe co s lockFails ctxErr c w r p = (co', s', w', res) \<Longrightarrow>
     subject_step rd admitted (co, s, c, w, fl) (co', s', c, w', fl)"
| unsubscribe: "Unsubscribe co ctxErr w r (sj_subjectID s) = (co', w', res) \<Longrightarrow>
     subject_step rd admitted (co, s, c, w, fl) (co', s, c, w', fl)"
| prepare: "sj_nextToken s < -1 \<Longrightarrow> Prepare s lockFails c profiles = (s', Inr p) \<Longrightarrow>
     subject_step rd admitted (co, s, c, w, fl) (co, s', c, w, Some p)"
| prepare_fails: "sj_nextToken s < -1 \<Longrightarrow> Prepare s lockFails c profiles = (s', Inl e) \<Longrightarrow>
     subject_step rd admitted (co, s, c, w, fl) (co, s', c, w, fl)"
| distribute: "Distribute co s ctxErr w p = (co', s', p', w', err) \<Longrightarrow>
     subject_step rd admitted (co, s, c, w, Some p) (co', s', c, w', None)"
| abort: "AbortWithError p s cause = (p', s', err) \<Longrightarrow> subject_step rd admitted (co, s, c, w, Some p) (co, s', c, w, None)"
| flush: "sj_nextToken s < -1 \<Longrightarrow> FlushSubject co s lockFails ctxErr c w = (co', s', w', err) \<Longrightarrow>
     subject_step rd admitted (co, s, c, w, fl) (co', s', c, w', fl)"
| close: "subject_step rd admitted (co, s, c, w, fl) (co, subject_Close s, c, w, fl)"

section \<open>The invariant\<close>

text \<open>What may differ between a view and the content is marked dirty.\<close>

definition covered :: "('f content, 'w) SubjectSyncState \<Rightarrow> 'f content \<Rightarrow> 'f content \<Rightarrow> bool" where
  "covered s c old \<longleftrightarrow> sj_fullDirty s \<or> (\<forall>i. old i \<noteq> c i \<longrightarrow> bit (sj_dirtyMask s) i)"

definition subscription_ok :: "('f, 'v) reading \<Rightarrow> (SubscriberRef \<Rightarrow> 'v option) \<Rightarrow> ('f content, 'w) SubjectSyncState \<Rightarrow> 'f content
    \<Rightarrow> subscriptionKey \<Rightarrow> Subscription \<Rightarrow> bool" where
  "subscription_ok rd vs s c key sb \<longleftrightarrow> key = (sb_Subscriber sb, sb_SubjectID sb) \<and> sb_SubjectID sb = sj_subjectID s
     \<and> sb_State sb = SubscriptionActive \<and> profile_Normalize (sb_Profile sb) = sb_Profile sb
     \<and> (sj_enabled s \<longrightarrow> sb_ContentVersion sb = sj_version s
          \<and> (\<exists>old. vs (sb_Subscriber sb) = Some (rd_view rd (sb_Profile sb) old) \<and> covered s c old))"

definition update_ok :: "('f, 'v) reading \<Rightarrow> ('f content, 'w) SubjectSyncState \<Rightarrow> PreparedSubjectSync \<Rightarrow> bool \<Rightarrow> u64 \<Rightarrow> 'f content
    \<Rightarrow> SubjectSyncUpdate \<Rightarrow> bool" where
  "update_ok rd s p full bits new u \<longleftrightarrow> up_SubjectID u = sj_subjectID s \<and> up_Full u = full
     \<and> up_Version u = pp_version p \<and> up_BaseVersion u = pp_baseVersion p \<and> profile_Normalize (up_Profile u) = up_Profile u
     \<and> (if full then rd_set rd (up_Payload u) = rd_view rd (up_Profile u) new
        else \<forall>old. rd_change rd (up_Payload u) (rd_view rd (up_Profile u) old) = rd_view rd (up_Profile u) (overlay bits new old))"

text \<open>The prepared content is the current one as long as nothing was marked since, and else what changed since is marked.\<close>

definition prepared_current :: "('f content, 'w) SubjectSyncState \<Rightarrow> 'f content \<Rightarrow> PreparedSubjectSync \<Rightarrow> bool \<Rightarrow> u64 \<Rightarrow> 'f content \<Rightarrow> bool" where
  "prepared_current s c p full bits new \<longleftrightarrow>
     (if sj_dirtyGeneration s = pp_generation p
      then new = c \<and> full = sj_fullDirty s \<and> bits = sj_dirtyMask s
      else pp_generation p < sj_dirtyGeneration s \<and>
        (sj_fullDirty s \<or> (\<not> full \<and> (\<forall>i. bit bits i \<longrightarrow> bit (sj_dirtyMask s) i) \<and> (\<forall>i. new i \<noteq> c i \<longrightarrow> bit (sj_dirtyMask s) i))))"

definition flight_ok :: "('f, 'v) reading \<Rightarrow> ('f content, 'w) SubjectSyncState \<Rightarrow> 'f content \<Rightarrow> PreparedSubjectSync option \<Rightarrow> bool" where
  "flight_ok rd s c fl \<longleftrightarrow> (case fl of
       None \<Rightarrow> sj_inflightToken s = 0
     | Some p \<Rightarrow> sj_inflightToken s = pp_token p \<and> pp_token p \<noteq> 0 \<and> \<not> pp_finished p \<and> pp_baseVersion p = sj_version s
         \<and> pp_version p = sj_version s + 1
         \<and> (\<exists>full bits new. list_all (update_ok rd s p full bits new) (pp_updates p) \<and> prepared_current s c p full bits new))"

definition each_entry :: "('k \<Rightarrow> 'v \<Rightarrow> bool) \<Rightarrow> ('k, 'v) gomap \<Rightarrow> bool" where
  "each_entry P m \<longleftrightarrow> (\<forall>key v. map_of m key = Some v \<longrightarrow> P key v)"

lemma each_entryI: "(\<And>key v. map_of m key = Some v \<Longrightarrow> P key v) \<Longrightarrow> each_entry P m"
  by (simp add: each_entry_def)

lemma each_entryD: "each_entry P m \<Longrightarrow> map_of m key = Some v \<Longrightarrow> P key v"
  by (simp add: each_entry_def)

lemma each_entry_update: "each_entry P m \<Longrightarrow> P key v \<Longrightarrow> each_entry P (AList.update key v m)"
  by (auto simp: each_entry_def)

lemma each_entry_delete: "each_entry P m \<Longrightarrow> each_entry P (AList.delete key m)"
  by (auto simp: each_entry_def)

lemma each_entry_mono: "each_entry P m \<Longrightarrow> (\<And>key v. map_of m key = Some v \<Longrightarrow> P key v \<Longrightarrow> Q key v) \<Longrightarrow> each_entry Q m"
  by (simp add: each_entry_def)

definition subject_ok :: "('f, 'v) reading \<Rightarrow> ('w \<Rightarrow> DeliveryEnvelope list) \<Rightarrow> ('f, 'w) subject_system \<Rightarrow> bool" where
  "subject_ok rd admitted = (\<lambda>(co, s, c, w, fl).
     gomap_ok (sc_subscriptions co)
     \<and> each_entry (subscription_ok rd (views rd admitted w) s c) (sc_subscriptions co)
     \<and> (\<forall>f. sc_sink co = Some f \<longrightarrow> sink_ok admitted f)
     \<and> (\<forall>f. sj_dirtyNotifier s = Some f \<longrightarrow> (\<forall>w. admitted (f w) = admitted w))
     \<and> (\<forall>pk. sj_packer s = Some pk \<longrightarrow> packer_ok rd pk)
     \<and> (sj_enabled s \<longrightarrow> flight_ok rd s c fl))"

lemma profile_Normalize_idem [simp]: "profile_Normalize (profile_Normalize p) = profile_Normalize p"
  by (simp add: profile_Normalize_def)

lemma views_admit:
  assumes "admitEnvelopes ctxErr sink es w = (w', err)" "\<forall>f. sink = Some f \<longrightarrow> sink_ok admitted f"
  shows "views rd admitted w' = (if err = None then fold (receive rd) es (views rd admitted w) else views rd admitted w)"
proof (cases sink)
  case None
  with assms(1) show ?thesis by (auto simp: admitEnvelopes_def)
next
  case (Some f)
  obtain w1 outcome where f: "f es w = (w1, outcome)" by (rule prod.exhaust)
  have "admitted w1 = admitted w @ (if outcome = Admitted then es else [])" using assms(2) Some f unfolding sink_ok_def by blast
  with assms(1) Some f show ?thesis
    by (cases ctxErr; cases outcome) (auto simp: admitEnvelopes_def views_def)
qed

lemma receive_other: "de_Subscriber e \<noteq> r \<Longrightarrow> receive rd e vs r = vs r"
  by (simp add: receive_def)

lemma fold_receive_other: "r \<notin> de_Subscriber ` set es \<Longrightarrow> fold (receive rd) es vs r = vs r"
  by (induction es arbitrary: vs) (auto simp: receive_def)

lemma envelopes_for_subscribers: "envelopes_for bp sbs = Some es \<Longrightarrow> map de_Subscriber es = map sb_Subscriber sbs"
  by (induction sbs arbitrary: es) (auto split: option.splits)

lemma envelopes_for_effect:
  assumes "envelopes_for bp sbs = Some es" "distinct (map sb_Subscriber sbs)" "sb \<in> set sbs"
  shows "\<exists>u. map_of bp (profile_Normalize (sb_Profile sb)) = Some u
    \<and> fold (receive rd) es vs (sb_Subscriber sb) = (if up_Full u then Some (rd_set rd (up_Payload u))
       else map_option (rd_change rd (up_Payload u)) (vs (sb_Subscriber sb)))"
  using assms
proof (induction sbs arbitrary: es vs)
  case (Cons x sbs)
  obtain u es' where u: "map_of bp (profile_Normalize (sb_Profile x)) = Some u" "envelopes_for bp sbs = Some es'"
    "es = \<lparr>de_Subscriber = sb_Subscriber x, de_Kind = (if up_Full u then EnvelopeSnapshot else EnvelopeDelta), de_Update = u\<rparr> # es'"
    using Cons.prems(1) by (auto split: option.splits)
  let ?vs = "receive rd (hd es) vs"
  have here: "?vs (sb_Subscriber x) = (if up_Full u then Some (rd_set rd (up_Payload u))
      else map_option (rd_change rd (up_Payload u)) (vs (sb_Subscriber x)))" using u(3) by (simp add: receive_def)
  have rest: "fold (receive rd) es vs = fold (receive rd) es' ?vs" using u(3) by simp
  show ?case
  proof (cases "sb = x")
    case True
    have "sb_Subscriber x \<notin> de_Subscriber ` set es'"
      using Cons.prems(2) envelopes_for_subscribers [OF u(2)] by (simp flip: set_map)
    from fold_receive_other [OF this, of rd ?vs] show ?thesis using u(1) True rest here by simp
  next
    case False
    then have sb: "sb \<in> set sbs" using Cons.prems(3) by simp
    then have "sb_Subscriber x \<noteq> sb_Subscriber sb" using Cons.prems(2) by auto
    then have same: "?vs (sb_Subscriber sb) = vs (sb_Subscriber sb)" using u(3) by (simp add: receive_other)
    have "distinct (map sb_Subscriber sbs)" using Cons.prems(2) by simp
    from Cons.IH [OF u(2) this sb, of ?vs] show ?thesis unfolding rest same .
  qed
qed simp

lemma by_profile_lookup:
  assumes "map_of (by_profile updates) q = Some u"
  shows "u \<in> set updates" "profile_Normalize (up_Profile u) = q"
proof -
  have "(\<forall>q u. map_of m q = Some u \<longrightarrow> u \<in> U \<and> profile_Normalize (up_Profile u) = q) \<Longrightarrow> set updates \<subseteq> U \<Longrightarrow>
      map_of (fold (\<lambda>u. AList.update (profile_Normalize (up_Profile u)) u) updates m) q = Some u \<Longrightarrow>
      u \<in> U \<and> profile_Normalize (up_Profile u) = q" for m U
  proof (induction updates arbitrary: m)
    case (Cons x updates)
    have "\<forall>q u. map_of (AList.update (profile_Normalize (up_Profile x)) x m) q = Some u \<longrightarrow> u \<in> U \<and> profile_Normalize (up_Profile u) = q"
      using Cons.prems(1,2) by auto
    from Cons.IH [OF this] Cons.prems(2,3) show ?case by simp
  qed auto
  from this [of "[]" "set updates"] assms show "u \<in> set updates" "profile_Normalize (up_Profile u) = q"
    by (simp_all add: by_profile_def)
qed

lemma advance_all:
  assumes "\<And>sb. sb \<in> set sbs \<Longrightarrow> map_of (sc_subscriptions co) (sb_Subscriber sb, subjectID) = Some sb \<and> sb_State sb = SubscriptionActive"
    "distinct (map sb_Subscriber sbs)" "gomap_ok (sc_subscriptions co)"
  shows "gomap_ok (sc_subscriptions (fold (advance_subscription version subjectID) sbs co))
    \<and> sc_sink (fold (advance_subscription version subjectID) sbs co) = sc_sink co
    \<and> map_of (sc_subscriptions (fold (advance_subscription version subjectID) sbs co)) =
      (\<lambda>key. if key \<in> (\<lambda>sb. (sb_Subscriber sb, subjectID)) ` set sbs
         then map_option (\<lambda>sb. sb\<lparr>sb_ContentVersion := version\<rparr>) (map_of (sc_subscriptions co) key)
         else map_of (sc_subscriptions co) key)"
  using assms
proof (induction sbs arbitrary: co)
  case (Cons x sbs)
  let ?key = "(sb_Subscriber x, subjectID)" and ?x = "x\<lparr>sb_ContentVersion := version\<rparr>"
  have x: "map_of (sc_subscriptions co) ?key = Some x" "sb_State x = SubscriptionActive" using Cons.prems(1) [of x] by auto
  have step: "advance_subscription version subjectID x co = put_subscription co ?key ?x"
    using x by (simp add: advance_subscription_def)
  let ?co = "put_subscription co ?key ?x"
  have look: "map_of (sc_subscriptions ?co) = (map_of (sc_subscriptions co))(?key \<mapsto> ?x)" "sc_sink ?co = sc_sink co"
    "gomap_ok (sc_subscriptions ?co)" using Cons.prems(3) by (simp_all add: put_subscription_def)
  have fresh: "sb_Subscriber x \<notin> sb_Subscriber ` set sbs" "distinct (map sb_Subscriber sbs)" using Cons.prems(2) by simp_all
  have "map_of (sc_subscriptions ?co) (sb_Subscriber sb, subjectID) = Some sb \<and> sb_State sb = SubscriptionActive" if "sb \<in> set sbs" for sb
  proof -
    have "sb_Subscriber sb \<noteq> sb_Subscriber x" using fresh(1) that by (metis image_eqI)
    then show ?thesis using Cons.prems(1) [of sb] that by (simp add: look(1))
  qed
  note IH = Cons.IH [OF this fresh(2) look(3)]
  show ?case unfolding fold_simps step using IH fresh(1) x(1) by (auto simp: look fun_eq_iff)
qed simp

lemma subject_okD:
  assumes "subject_ok rd admitted (co, s, c, w, fl)"
  shows "gomap_ok (sc_subscriptions co)" "each_entry (subscription_ok rd (views rd admitted w) s c) (sc_subscriptions co)"
    "\<forall>f. sc_sink co = Some f \<longrightarrow> sink_ok admitted f" "\<forall>f. sj_dirtyNotifier s = Some f \<longrightarrow> (\<forall>w. admitted (f w) = admitted w)"
    "\<forall>pk. sj_packer s = Some pk \<longrightarrow> packer_ok rd pk" "sj_enabled s \<longrightarrow> flight_ok rd s c fl"
  using assms unfolding subject_ok_def by simp_all

lemma subject_okI:
  assumes "gomap_ok (sc_subscriptions co)" "each_entry (subscription_ok rd (views rd admitted w) s c) (sc_subscriptions co)"
    "\<forall>f. sc_sink co = Some f \<longrightarrow> sink_ok admitted f" "\<forall>f. sj_dirtyNotifier s = Some f \<longrightarrow> (\<forall>w. admitted (f w) = admitted w)"
    "\<forall>pk. sj_packer s = Some pk \<longrightarrow> packer_ok rd pk" "sj_enabled s \<longrightarrow> flight_ok rd s c fl"
  shows "subject_ok rd admitted (co, s, c, w, fl)"
  using assms unfolding subject_ok_def by simp

text \<open>A subscription stays in order when the content changes within the marks, or the marks only grow.\<close>

lemma subscription_ok_mono:
  assumes "subscription_ok rd vs s c key sb" "vs' (sb_Subscriber sb) = vs (sb_Subscriber sb)" "sj_subjectID s' = sj_subjectID s"
    "sj_enabled s' \<Longrightarrow> sj_enabled s \<and> sj_version s' = sj_version s \<and> (\<forall>old. covered s c old \<longrightarrow> covered s' c' old)"
  shows "subscription_ok rd vs' s' c' key sb"
  using assms unfolding subscription_ok_def by auto

text \<open>The parts of a state the invariant reads.\<close>

definition same_marks :: "('f content, 'w) SubjectSyncState \<Rightarrow> ('f content, 'w) SubjectSyncState \<Rightarrow> bool" where
  "same_marks s s' \<longleftrightarrow> sj_subjectID s' = sj_subjectID s \<and> sj_enabled s' = sj_enabled s \<and> sj_version s' = sj_version s
     \<and> sj_fullDirty s' = sj_fullDirty s \<and> sj_dirtyMask s' = sj_dirtyMask s \<and> sj_dirtyGeneration s' = sj_dirtyGeneration s
     \<and> sj_packer s' = sj_packer s"

lemma same_marks_subscription: "same_marks s s' \<Longrightarrow> subscription_ok rd vs s' c = subscription_ok rd vs s c"
  by (intro ext) (simp add: same_marks_def subscription_ok_def covered_def)

lemma update_ok_state: "sj_subjectID s' = sj_subjectID s \<Longrightarrow> update_ok rd s' p full bits new = update_ok rd s p full bits new"
  by (rule ext) (simp add: update_ok_def)

lemma same_marks_flight: "same_marks s s' \<Longrightarrow> sj_inflightToken s' = sj_inflightToken s \<Longrightarrow> flight_ok rd s' c fl = flight_ok rd s c fl"
  by (cases fl) (simp_all add: same_marks_def flight_ok_def prepared_current_def update_ok_state [of s' s])

lemma views_notify: "\<forall>f. n = Some f \<longrightarrow> (\<forall>w. admitted (f w) = admitted w) \<Longrightarrow> views rd admitted (notifySubjectSyncDirty n w) = views rd admitted w"
  by (auto simp: notifySubjectSyncDirty_def views_def split: option.splits)

lemma next_u64: "(g :: u64) < -1 \<Longrightarrow> g < g + 1 \<and> g + 1 \<noteq> 0"
proof -
  assume "g < -1"
  then have "unat g < unat (-1 :: u64)" by (simp add: word_less_nat_alt)
  then have "unat (g + 1) = unat g + 1" by (simp add: unat_word_ariths unsigned_minus_1_eq_mask mask_eq_exp_minus_1)
  then show ?thesis by (auto simp: word_less_nat_alt)
qed

text \<open>What a change does to the prepared update in flight.\<close>

lemma flight_ok_marked:
  assumes "flight_ok rd s c fl" "sj_inflightToken s' = sj_inflightToken s" "sj_version s' = sj_version s" "sj_subjectID s' = sj_subjectID s"
    "sj_dirtyGeneration s' = sj_dirtyGeneration s + 1" "sj_dirtyGeneration s < -1"
    "sj_fullDirty s' \<or> (sj_fullDirty s = sj_fullDirty s' \<and> (\<forall>i. bit (sj_dirtyMask s) i \<longrightarrow> bit (sj_dirtyMask s') i)
       \<and> (\<forall>i. c' i \<noteq> c i \<longrightarrow> bit (sj_dirtyMask s') i))"
  shows "flight_ok rd s' c' fl"
proof (cases fl)
  case None
  with assms show ?thesis by (simp add: flight_ok_def)
next
  case (Some p)
  obtain full bits new where p: "list_all (update_ok rd s p full bits new) (pp_updates p)" "prepared_current s c p full bits new"
    using assms(1) Some by (auto simp: flight_ok_def)
  have g: "pp_generation p < sj_dirtyGeneration s'" "sj_dirtyGeneration s' \<noteq> pp_generation p"
    using p(2) next_u64 [OF assms(6)] assms(5) by (auto simp: prepared_current_def split: if_splits)
  have "prepared_current s' c' p full bits new"
  proof (cases "sj_fullDirty s'")
    case True
    with g show ?thesis by (simp add: prepared_current_def)
  next
    case False
    then have m: "\<not> sj_fullDirty s" "\<forall>i. bit (sj_dirtyMask s) i \<longrightarrow> bit (sj_dirtyMask s') i" "\<forall>i. c' i \<noteq> c i \<longrightarrow> bit (sj_dirtyMask s') i"
      using assms(7) by auto
    then have "\<not> full" "\<forall>i. bit bits i \<longrightarrow> bit (sj_dirtyMask s) i" "\<forall>i. new i \<noteq> c i \<longrightarrow> bit (sj_dirtyMask s) i"
      using p(2) by (auto simp: prepared_current_def split: if_splits)
    with m g show ?thesis by (auto simp: prepared_current_def) metis
  qed
  with p(1) assms(1-4) Some show ?thesis by (auto simp: flight_ok_def update_ok_state [OF assms(4)])
qed

lemma change_ok:
  assumes "subject_ok rd admitted (co, s, c, w, fl)" "\<forall>i. c' i \<noteq> c i \<longrightarrow> bit bits i" "sj_dirtyGeneration s < -1" "MarkDirty s bits w = (s', w')"
  shows "subject_ok rd admitted (co, s', c', w', fl)"
proof (cases "bits \<noteq> 0 \<and> sj_enabled s")
  case True
  note ok = subject_okD [OF assms(1)]
  have s': "s' = s\<lparr>sj_dirtyMask := sj_dirtyMask s OR bits, sj_dirtyGeneration := sj_dirtyGeneration s + 1\<rparr>"
    "w' = notifySubjectSyncDirty (sj_dirtyNotifier s) w" using True assms(4) by (simp_all add: MarkDirty_def)
  have v: "views rd admitted w' = views rd admitted w" unfolding s'(2) by (rule views_notify [OF ok(4)])
  have cov: "covered s' c' old" if "covered s c old" for old
    using that assms(2) by (simp add: covered_def s'(1) bit_or_iff) metis
  show ?thesis
  proof (rule subject_okI)
    show "each_entry (subscription_ok rd (views rd admitted w') s' c') (sc_subscriptions co)"
      by (rule each_entry_mono [OF ok(2)], rule subscription_ok_mono) (use cov in \<open>auto simp: v s'(1)\<close>)
    show "sj_enabled s' \<longrightarrow> flight_ok rd s' c' fl"
      using flight_ok_marked [of rd s c fl s' c'] ok(6) True assms(2,3) by (auto simp: s'(1) bit_or_iff)
  qed (use ok in \<open>simp_all add: s'(1)\<close>)
next
  case False
  then have same: "s' = s" "w' = w" using assms(4) by (auto simp: MarkDirty_def split: if_splits)
  show ?thesis
  proof (cases "sj_enabled s")
    case True
    then have "c' = c" using False assms(2) by auto
    with same assms(1) show ?thesis by simp
  next
    case disabled: False
    note ok = subject_okD [OF assms(1)]
    have "each_entry (subscription_ok rd (views rd admitted w) s c') (sc_subscriptions co)"
      by (rule each_entry_mono [OF ok(2)], rule subscription_ok_mono) (use disabled in auto)
    with ok disabled same show ?thesis by (intro subject_okI) simp_all
  qed
qed

lemma change_all_ok:
  assumes "subject_ok rd admitted (co, s, c, w, fl)" "sj_dirtyGeneration s < -1" "MarkFullDirty s reason w = (s', w')"
  shows "subject_ok rd admitted (co, s', c', w', fl)"
proof (cases "sj_enabled s")
  case True
  note ok = subject_okD [OF assms(1)]
  obtain r where s': "s' = s\<lparr>sj_fullDirty := True, sj_fullReason := r, sj_dirtyMask := 0, sj_dirtyGeneration := sj_dirtyGeneration s + 1\<rparr>"
    "w' = notifySubjectSyncDirty (sj_dirtyNotifier s) w" using True assms(3) by (auto simp: MarkFullDirty_def Let_def)
  have v: "views rd admitted w' = views rd admitted w" unfolding s'(2) by (rule views_notify [OF ok(4)])
  show ?thesis
  proof (rule subject_okI)
    show "each_entry (subscription_ok rd (views rd admitted w') s' c') (sc_subscriptions co)"
      by (rule each_entry_mono [OF ok(2)], rule subscription_ok_mono) (auto simp: v s'(1) True covered_def)
    show "sj_enabled s' \<longrightarrow> flight_ok rd s' c' fl"
      using flight_ok_marked [of rd s c fl s' c'] ok(6) True assms(2) by (auto simp: s'(1))
  qed (use ok in \<open>simp_all add: s'(1)\<close>)
next
  case disabled: False
  then have same: "s' = s" "w' = w" using assms(3) by (auto simp: MarkFullDirty_def Let_def)
  note ok = subject_okD [OF assms(1)]
  have "each_entry (subscription_ok rd (views rd admitted w) s c') (sc_subscriptions co)"
    by (rule each_entry_mono [OF ok(2)], rule subscription_ok_mono) (use disabled in auto)
  with ok disabled same show ?thesis by (intro subject_okI) simp_all
qed

lemma notifier_ok:
  assumes "subject_ok rd admitted (co, s, c, w, fl)" "\<forall>f. n = Some f \<longrightarrow> (\<forall>w. admitted (f w) = admitted w)" "SetDirtyNotifier s n w = (s', w')"
  shows "subject_ok rd admitted (co, s', c, w', fl)"
proof -
  note ok = subject_okD [OF assms(1)]
  have s': "s' = (if sj_enabled s then s\<lparr>sj_dirtyNotifier := n\<rparr> else s)" using assms(3) by (simp add: SetDirtyNotifier_def Let_def split: if_splits)
  have v: "views rd admitted w' = views rd admitted w"
    using assms(3) views_notify [OF assms(2)] by (auto simp: SetDirtyNotifier_def Let_def split: if_splits)
  have m: "same_marks s s'" "sj_inflightToken s' = sj_inflightToken s" by (simp_all add: s' same_marks_def)
  have sub: "each_entry (subscription_ok rd (views rd admitted w') s' c) (sc_subscriptions co)"
    unfolding v same_marks_subscription [OF m(1)] by (rule ok(2))
  have n: "\<forall>f. sj_dirtyNotifier s' = Some f \<longrightarrow> (\<forall>w. admitted (f w) = admitted w)" using ok(4) assms(2) by (simp add: s')
  show ?thesis
    by (rule subject_okI [OF ok(1) sub ok(3) n]) (use ok(5,6) m in \<open>simp_all add: same_marks_flight [OF m] same_marks_def\<close>)
qed

section \<open>Subscribing and leaving\<close>

lemma pack_all_Inr:
  assumes "pack_all pack template profiles = Inr us"
  shows "map up_Profile us = profiles" "u \<in> set us \<Longrightarrow> pack (up_Profile u) = Inr (up_Payload u) \<and>
    u = template\<lparr>up_Profile := up_Profile u, up_Payload := up_Payload u\<rparr>"
  using assms by (induction profiles arbitrary: us) (auto simp: try_bind_Inr_iff)

lemma normalizeSyncProfiles_single: "normalizeSyncProfiles [p] = [profile_Normalize p]"
  by (simp add: normalizeSyncProfiles_def)

lemma normalizeSyncProfiles_normal: "p \<in> set (normalizeSyncProfiles ps) \<Longrightarrow> profile_Normalize p = p"
  by (auto simp: normalizeSyncProfiles_def Let_def profile_Normalize_def)

lemma CaptureSnapshot_state:
  assumes "CaptureSnapshot s lockFails c ps reason = (s1, res)"
  shows "same_marks s s1" "sj_inflightToken s1 = sj_inflightToken s" "sj_dirtyNotifier s1 = sj_dirtyNotifier s"
  using assms by (auto simp: CaptureSnapshot_def same_marks_def split: sum.splits)

lemma CaptureSnapshot_Inr:
  assumes "CaptureSnapshot s lockFails c [p] reason = (s1, Inr us)" "\<forall>pk. sj_packer s = Some pk \<longrightarrow> packer_ok rd pk" "profile_Normalize p = p"
  obtains u where "us = [u]" "up_Version u = sj_version s" "rd_set rd (up_Payload u) = rd_view rd p c" "sj_enabled s"
proof -
  have cap: "capture_updates s lockFails c [p] (if reason = SyncFullReasonNone then SyncFullReasonResync else reason) = Inr us"
    using assms(1) by (auto simp: CaptureSnapshot_def normalizeSyncProfiles_single assms(3) split: sum.splits)
  then obtain pk where pk: "sj_packer s = Some pk" "sj_enabled s" "lockFails = None"
    by (auto simp: capture_updates_def split: option.splits if_splits)
  let ?t = "\<lparr>up_SubjectID = sj_subjectID s, up_Namespace = sj_namespace s, up_SubjectKind = sj_subjectKind s,
     up_Profile = no_profile, up_Version = sj_version s, up_BaseVersion = sj_version s, up_Mask = 0, up_Full = True,
     up_Reason = if reason = SyncFullReasonNone then SyncFullReasonResync else reason, up_Payload = \<lparr>fz_codec = 0, fz_data = []\<rparr>\<rparr>"
  have pa: "pack_all (\<lambda>profile. pa_Snapshot pk profile c) ?t [p] = Inr us"
    using cap pk by (simp add: capture_updates_def)
  then obtain u where u: "us = [u]" by (auto simp: try_bind_Inr_iff)
  have "up_Profile u = p" using pack_all_Inr(1) [OF pa] u by simp
  moreover have "pa_Snapshot pk (up_Profile u) c = Inr (up_Payload u)"
    "u = ?t\<lparr>up_Profile := up_Profile u, up_Payload := up_Payload u\<rparr>"
    using pack_all_Inr(2) [OF pa, of u] u by simp_all
  then have "pa_Snapshot pk (up_Profile u) c = Inr (up_Payload u)" "up_Version u = sj_version s"
    by (simp, metis SubjectSyncUpdate.select_convs(5) SubjectSyncUpdate.surjective SubjectSyncUpdate.update_convs(4,10))
  ultimately show thesis using that [of u] u pk(1,2) assms(2) unfolding packer_ok_def by blast
qed

lemma rollback_subscriptions:
  assumes "gomap_ok (sc_subscriptions co)" "existing = map_of (sc_subscriptions co) key" "sc_subscriptions co1 = sc_subscriptions co"
  shows "map_of (sc_subscriptions (rollbackSubscription (put_subscription co1 key pending) key existing)) = map_of (sc_subscriptions co)"
    "gomap_ok (sc_subscriptions (rollbackSubscription (put_subscription co1 key pending) key existing))"
    "sc_sink (rollbackSubscription (put_subscription co1 key pending) key existing) = sc_sink co1"
  using assms by (auto simp: rollbackSubscription_def put_subscription_def fun_upd_idem_iff split: option.splits)

text \<open>The two outcomes of \<open>Subscribe\<close>: the table of subscriptions is as before, or it has the new active subscription.\<close>

lemma Subscribe_cases:
  assumes "Subscribe co s lockFails ctxErr c w r0 p0 = (co', s', w', res)" "gomap_ok (sc_subscriptions co)"
  obtains (unchanged) "map_of (sc_subscriptions co') = map_of (sc_subscriptions co)" "gomap_ok (sc_subscriptions co')" "sc_sink co' = sc_sink co"
      "s' = s \<or> (\<exists>x reason res. CaptureSnapshot s lockFails c [x] reason = (s', res))"
      "w' = w \<or> (\<exists>es e. admitEnvelopes ctxErr (sc_sink co) es w = (w', Some e))"
  | (subscribed) r p u revision sb where "r = subscriber_Normalize r0" "p = profile_Normalize p0"
      "CaptureSnapshot s lockFails c [p] SyncFullReasonResync = (s', Inr [u])"
      "admitEnvelopes ctxErr (sc_sink co) [\<lparr>de_Subscriber = r, de_Kind = EnvelopeSnapshot, de_Update = u\<rparr>] w = (w', None)"
      "sc_sink co' = sc_sink co"
      "sb = \<lparr>sb_Subscriber = r, sb_SubjectID = sj_subjectID s, sb_Namespace = sj_namespace s, sb_SubjectKind = sj_subjectKind s,
         sb_Profile = p, sb_State = SubscriptionActive, sb_ContentVersion = up_Version u, sb_Revision = revision\<rparr>"
      "map_of (sc_subscriptions co') = (map_of (sc_subscriptions co))((r, sj_subjectID s) \<mapsto> sb)" "gomap_ok (sc_subscriptions co')"
      "res = Inr sb"
proof -
  define r where "r = subscriber_Normalize r0"
  define p where "p = profile_Normalize p0"
  define key where "key = (r, sj_subjectID s)"
  define existing where "existing = map_of (sc_subscriptions co) key"
  define co1 where "co1 = co\<lparr>sc_revision := sc_revision co + 1\<rparr>"
  define pending where "pending = \<lparr>sb_Subscriber = r, sb_SubjectID = sj_subjectID s, sb_Namespace = sj_namespace s,
     sb_SubjectKind = sj_subjectKind s, sb_Profile = p, sb_State = SubscriptionPending, sb_ContentVersion = 0, sb_Revision = sc_revision co + 1\<rparr>"
  define co2 where "co2 = put_subscription co1 key pending"
  have co1: "sc_subscriptions co1 = sc_subscriptions co" "sc_sink co1 = sc_sink co" by (simp_all add: co1_def)
  have sink2: "sc_sink co2 = sc_sink co" by (simp add: co2_def put_subscription_def co1)
  note rb = rollback_subscriptions [OF assms(2) existing_def co1(1), of pending, folded co2_def]
  let ?same = "subscriber_Empty r \<or> sj_subjectID s = 0 \<or> (\<exists>sb. existing = Some sb \<and> sb_State sb = SubscriptionActive \<and> sb_Profile sb = p)"
  show thesis
  proof (cases ?same)
    case True
    then have "co' = co" "s' = s" "w' = w"
      using assms(1) unfolding Subscribe_def Let_def r_def [symmetric] p_def [symmetric] key_def [symmetric] existing_def [symmetric]
      by (auto split: if_splits option.splits)
    then show thesis using assms(2) by (intro unchanged) simp_all
  next
    case False
    then have "Subscribe co s lockFails ctxErr c w r0 p0 =
       (if Option.is_none (sc_sink co2) then (rollbackSubscription co2 key existing, s, w, Inl ErrEnvelopeSinkRequired)
        else case CaptureSnapshot s lockFails c [p] SyncFullReasonResync of
              (s1, Inl e) \<Rightarrow> (rollbackSubscription co2 key existing, s1, w, Inl e)
            | (s1, Inr us) \<Rightarrow>
                if length us \<noteq> 1 then (rollbackSubscription co2 key existing, s1, w, Inl ErrPreparedProfilesMissing)
                else case admitEnvelopes ctxErr (sc_sink co2) [\<lparr>de_Subscriber = r, de_Kind = EnvelopeSnapshot, de_Update = us ! 0\<rparr>] w of
                    (w1, Some e) \<Rightarrow> (rollbackSubscription co2 key existing, s1, w1, Inl (ErrEnvelopeAdmission (Some e)))
                  | (w1, None) \<Rightarrow>
                      let active = pending\<lparr>sb_State := SubscriptionActive, sb_ContentVersion := up_Version (us ! 0)\<rparr> in
                      (put_subscription co2 key active, s1, w1, Inr active))"
      (is "_ = ?rest")
    proof -
      have g: "\<not> subscriber_Empty r" "\<not> sj_subjectID s = 0"
        and ex: "(case existing of Some sb \<Rightarrow> if sb_State sb = SubscriptionActive \<and> sb_Profile sb = p then Some sb else None | None \<Rightarrow> None) = None"
        using False by (auto split: option.splits)
      have look: "map_of (sc_subscriptions co2) key = Some pending" "sb_State pending = SubscriptionPending"
        by (simp_all add: co2_def put_subscription_def pending_def)
      show ?thesis
        unfolding Subscribe_def Let_def nextRevisionLocked_def prod.case r_def [symmetric] p_def [symmetric] key_def [symmetric]
          existing_def [symmetric] ex option.case co1_def [symmetric] pending_def [symmetric] co2_def [symmetric] if_not_P [OF g(1)] if_not_P [OF g(2)]
        by (simp add: look split: prod.splits sum.splits option.splits)
    qed
    then have eq: "?rest = (co', s', w', res)" using assms(1) by simp
    show thesis
    proof (cases "Option.is_none (sc_sink co2)")
      case True
      then show thesis using eq rb co1(2) by (intro unchanged) auto
    next
      case sink: False
      obtain s1 cap where cap: "CaptureSnapshot s lockFails c [p] SyncFullReasonResync = (s1, cap)" by (rule prod.exhaust)
      show thesis
      proof (cases "\<exists>us. cap = Inr us \<and> length us = 1")
        case False
        then show thesis using eq cap sink rb co1(2) by (intro unchanged) (auto split: sum.splits if_splits)
      next
        case True
        then obtain u where u: "cap = Inr [u]" by (auto simp: length_Suc_conv)
        obtain w1 err where ad: "admitEnvelopes ctxErr (sc_sink co2) [\<lparr>de_Subscriber = r, de_Kind = EnvelopeSnapshot, de_Update = u\<rparr>] w = (w1, err)"
          by (rule prod.exhaust)
        show thesis
        proof (cases err)
          case (Some e)
          then show thesis using eq cap u sink ad rb co1(2) sink2 by (intro unchanged) auto
        next
          case None
          let ?active = "pending\<lparr>sb_State := SubscriptionActive, sb_ContentVersion := up_Version u\<rparr>"
          have out: "co' = put_subscription co2 key ?active" "s' = s1" "w' = w1" "res = Inr ?active"
            using eq cap u sink ad None by (auto simp: Let_def)
          show thesis
            by (rule subscribed [OF r_def p_def, of u ?active "sc_revision co + 1"])
              (use cap u ad None out sink2 assms(2) in \<open>simp_all add: pending_def co2_def put_subscription_def key_def co1_def\<close>)
        qed
      qed
    qed
  qed
qed

lemma covered_refl [simp]: "covered s c c"
  by (simp add: covered_def)

lemma each_entry_cong: "map_of m' = map_of m \<Longrightarrow> each_entry P m' = each_entry P m"
  by (simp add: each_entry_def)

lemma subject_ok_same:
  assumes "subject_ok rd admitted (co, s, c, w, fl)" "same_marks s s'" "sj_inflightToken s' = sj_inflightToken s" "sj_dirtyNotifier s' = sj_dirtyNotifier s"
    "map_of (sc_subscriptions co') = map_of (sc_subscriptions co)" "gomap_ok (sc_subscriptions co')" "sc_sink co' = sc_sink co"
    "views rd admitted w' = views rd admitted w"
  shows "subject_ok rd admitted (co', s', c, w', fl)"
proof -
  note ok = subject_okD [OF assms(1)]
  have "each_entry (subscription_ok rd (views rd admitted w') s' c) (sc_subscriptions co')"
    unfolding assms(8) same_marks_subscription [OF assms(2)] each_entry_cong [OF assms(5)] by (rule ok(2))
  then show ?thesis
    by (rule subject_okI [OF assms(6)])
      (use ok assms(2-4,7) in \<open>simp_all add: same_marks_flight [OF assms(2,3)] same_marks_def\<close>)
qed

lemma same_marks_refl [simp]: "same_marks s s"
  by (simp add: same_marks_def)

lemma subscribe_ok:
  assumes "subject_ok rd admitted (co, s, c, w, fl)" "Subscribe co s lockFails ctxErr c w r0 p0 = (co', s', w', res)"
  shows "subject_ok rd admitted (co', s', c, w', fl)"
proof -
  note ok = subject_okD [OF assms(1)]
  from assms(2) ok(1) show ?thesis
  proof (cases rule: Subscribe_cases)
    case unchanged
    have v: "views rd admitted w' = views rd admitted w"
      using unchanged(5) views_admit [OF _ ok(3), of ctxErr _ w w' _ rd] by auto
    have "same_marks s s'" "sj_inflightToken s' = sj_inflightToken s" "sj_dirtyNotifier s' = sj_dirtyNotifier s"
      using unchanged(4) by (auto dest: CaptureSnapshot_state)
    then show ?thesis by (rule subject_ok_same [OF assms(1) _ _ _ unchanged(1-3) v])
  next
    case (subscribed r p u revision sb)
    have p: "profile_Normalize p = p" by (simp add: subscribed(2))
    obtain u' where u: "[u] = [u']" "up_Version u' = sj_version s" "rd_set rd (up_Payload u') = rd_view rd p c" "sj_enabled s"
      by (rule CaptureSnapshot_Inr [OF subscribed(3) ok(5) p])
    note st = CaptureSnapshot_state [OF subscribed(3)]
    have v: "views rd admitted w' = (views rd admitted w)(r := Some (rd_view rd p c))"
      using views_admit [OF subscribed(4) ok(3), of rd] u by (simp add: receive_def)
    have new: "subscription_ok rd (views rd admitted w') s' c (r, sj_subjectID s) sb"
      using u st(1) p v by (auto simp: subscribed(6) subscription_ok_def same_marks_def intro!: exI [of _ c])
    have "each_entry (subscription_ok rd (views rd admitted w') s' c) (sc_subscriptions co')"
    proof (rule each_entryI)
      fix key sb'
      assume l: "map_of (sc_subscriptions co') key = Some sb'"
      show "subscription_ok rd (views rd admitted w') s' c key sb'"
      proof (cases "key = (r, sj_subjectID s)")
        case True
        with l new subscribed(7) show ?thesis by simp
      next
        case False
        then have old: "subscription_ok rd (views rd admitted w) s c key sb'"
          using each_entryD [OF ok(2)] l subscribed(7) by simp
        then have "sb_Subscriber sb' \<noteq> r" using False by (auto simp: subscription_ok_def)
        then have "subscription_ok rd (views rd admitted w') s c key sb'"
          by (intro subscription_ok_mono [OF old]) (simp_all add: v)
        then show ?thesis by (simp add: same_marks_subscription [OF st(1)])
      qed
    qed
    then show ?thesis
      by (rule subject_okI [OF subscribed(8)])
        (use ok st subscribed(5) in \<open>simp_all add: same_marks_flight [OF st(1,2)] same_marks_def\<close>)
  qed
qed

lemma Unsubscribe_cases:
  assumes "Unsubscribe co ctxErr w r0 subjectID = (co', w', res)" "gomap_ok (sc_subscriptions co)"
  obtains (unchanged) "co' = co" "w' = w"
  | (restored) r sb revision where "r = subscriber_Normalize r0" "map_of (sc_subscriptions co) (r, subjectID) = Some sb" "sb_State sb = SubscriptionActive"
      "map_of (sc_subscriptions co') = (map_of (sc_subscriptions co))((r, subjectID) \<mapsto> sb\<lparr>sb_Revision := revision\<rparr>)"
      "gomap_ok (sc_subscriptions co')" "sc_sink co' = sc_sink co"
      "w' = w \<or> (\<exists>es e. admitEnvelopes ctxErr (sc_sink co) es w = (w', Some e))"
  | (left) r sb u where "r = subscriber_Normalize r0" "map_of (sc_subscriptions co) (r, subjectID) = Some sb"
      "admitEnvelopes ctxErr (sc_sink co) [\<lparr>de_Subscriber = r, de_Kind = EnvelopeLeave, de_Update = u\<rparr>] w = (w', None)"
      "map_of (sc_subscriptions co') = (map_of (sc_subscriptions co))((r, subjectID) := None)" "gomap_ok (sc_subscriptions co')" "sc_sink co' = sc_sink co"
proof -
  define r where "r = subscriber_Normalize r0"
  define key where "key = (r, subjectID)"
  show thesis
  proof (cases "subscriber_Empty r \<or> subjectID = 0 \<or> (\<forall>sb. map_of (sc_subscriptions co) key = Some sb \<longrightarrow> sb_State sb \<noteq> SubscriptionActive)")
    case True
    then have "co' = co" "w' = w"
      using assms(1) unfolding Unsubscribe_def Let_def r_def [symmetric] key_def [symmetric] by (auto split: if_splits option.splits)
    then show thesis by (rule unchanged)
  next
    case False
    then obtain sb where sb: "\<not> subscriber_Empty r" "subjectID \<noteq> 0" "map_of (sc_subscriptions co) key = Some sb" "sb_State sb = SubscriptionActive" by blast
    define co1 where "co1 = co\<lparr>sc_revision := sc_revision co + 1\<rparr>"
    define current where "current = sb\<lparr>sb_State := SubscriptionClosing, sb_Revision := sc_revision co + 1\<rparr>"
    define co2 where "co2 = put_subscription co1 key current"
    define u where "u = \<lparr>up_SubjectID = subjectID, up_Namespace = sb_Namespace current, up_SubjectKind = sb_SubjectKind current,
      up_Profile = sb_Profile current, up_Version = sb_ContentVersion current, up_BaseVersion = sb_ContentVersion current, up_Mask = 0,
      up_Full = False, up_Reason = 0, up_Payload = \<lparr>fz_codec = 0, fz_data = []\<rparr>\<rparr>"
    have c2: "sc_sink co2 = sc_sink co" "map_of (sc_subscriptions co2) key = Some current" "gomap_ok (sc_subscriptions co2)"
      "map_of (sc_subscriptions co2) = (map_of (sc_subscriptions co))(key \<mapsto> current)" "sb_State current = SubscriptionClosing"
      using assms(2) by (simp_all add: co2_def co1_def put_subscription_def current_def)
    have act: "current\<lparr>sb_State := SubscriptionActive\<rparr> = sb\<lparr>sb_Revision := sc_revision co + 1\<rparr>"
      using sb(4) by (simp add: current_def)
    have bk: "map_of (sc_subscriptions (restoreActive co2 key current)) = (map_of (sc_subscriptions co))(key \<mapsto> sb\<lparr>sb_Revision := sc_revision co + 1\<rparr>)"
      "gomap_ok (sc_subscriptions (restoreActive co2 key current))" "sc_sink (restoreActive co2 key current) = sc_sink co"
      using c2 act by (simp_all add: restoreActive_def put_subscription_def)
    obtain w1 err where ad: "admitEnvelopes ctxErr (sc_sink co2) [\<lparr>de_Subscriber = r, de_Kind = EnvelopeLeave, de_Update = u\<rparr>] w = (w1, err)"
      by (rule prod.exhaust)
    have g: "\<not> subscriber_Empty r" "\<not> subjectID = 0" "\<not> sb_State sb \<noteq> SubscriptionActive" using sb by simp_all
    have "Unsubscribe co ctxErr w r0 subjectID = (if Option.is_none (sc_sink co2) then (restoreActive co2 key current, w, Inl ErrEnvelopeSinkRequired)
       else case err of Some e \<Rightarrow> (restoreActive co2 key current, w1, Inl (ErrEnvelopeAdmission (Some e)))
         | None \<Rightarrow> (co2\<lparr>sc_subscriptions := AList.delete key (sc_subscriptions co2)\<rparr>, w1, Inr ()))"
      unfolding Unsubscribe_def Let_def nextRevisionLocked_def prod.case r_def [symmetric] key_def [symmetric] if_not_P [OF g(1)] if_not_P [OF g(2)]
        sb(3) option.case if_not_P [OF g(3)] co1_def [symmetric] current_def [symmetric] co2_def [symmetric] u_def [symmetric] ad
      by (cases err) (simp_all add: c2(2,5))
    then have eq: "(if Option.is_none (sc_sink co2) then (restoreActive co2 key current, w, Inl ErrEnvelopeSinkRequired)
       else case err of Some e \<Rightarrow> (restoreActive co2 key current, w1, Inl (ErrEnvelopeAdmission (Some e)))
         | None \<Rightarrow> (co2\<lparr>sc_subscriptions := AList.delete key (sc_subscriptions co2)\<rparr>, w1, Inr ())) = (co', w', res)"
      using assms(1) by simp
    show thesis
    proof (cases "Option.is_none (sc_sink co2) \<or> err \<noteq> None")
      case True
      then have "co' = restoreActive co2 key current" "w' = w \<or> (w' = w1 \<and> (\<exists>e. err = Some e))" using eq by (auto split: if_splits)
      then show thesis using restored [OF r_def, of sb "sc_revision co + 1"] sb bk ad c2(1) by (auto simp: key_def)
    next
      case False
      then have "co' = co2\<lparr>sc_subscriptions := AList.delete key (sc_subscriptions co2)\<rparr>" "w' = w1" "err = None" using eq by auto
      then show thesis using left [OF r_def, of sb u] sb ad c2 by (simp add: key_def)
    qed
  qed
qed

lemma subscription_ok_revision: "subscription_ok rd vs s c key (sb\<lparr>sb_Revision := x\<rparr>) = subscription_ok rd vs s c key sb"
  by (simp add: subscription_ok_def)

lemma unsubscribe_ok:
  assumes "subject_ok rd admitted (co, s, c, w, fl)" "Unsubscribe co ctxErr w r0 (sj_subjectID s) = (co', w', res)"
  shows "subject_ok rd admitted (co', s, c, w', fl)"
proof -
  note ok = subject_okD [OF assms(1)]
  from assms(2) ok(1) show ?thesis
  proof (cases rule: Unsubscribe_cases)
    case unchanged
    with assms(1) show ?thesis by simp
  next
    case (restored r sb revision)
    have v: "views rd admitted w' = views rd admitted w"
      using restored(7) views_admit [OF _ ok(3), of ctxErr _ w w' _ rd] by auto
    have "subscription_ok rd (views rd admitted w) s c (r, sj_subjectID s) sb" by (rule each_entryD [OF ok(2) restored(2)])
    then have "subscription_ok rd (views rd admitted w) s c (r, sj_subjectID s) (sb\<lparr>sb_Revision := revision\<rparr>)"
      by (simp only: subscription_ok_revision)
    note up = each_entry_update [OF ok(2) this]
    have m: "map_of (sc_subscriptions co') = map_of (AList.update (r, sj_subjectID s) (sb\<lparr>sb_Revision := revision\<rparr>) (sc_subscriptions co))"
      by (simp add: restored(4))
    have "each_entry (subscription_ok rd (views rd admitted w') s c) (sc_subscriptions co')"
      unfolding v each_entry_cong [OF m] by (rule up)
    then show ?thesis by (rule subject_okI [OF restored(5)]) (use ok restored(6) in simp_all)
  next
    case (left r sb u)
    have v: "views rd admitted w' = (views rd admitted w)(r := None)"
      using views_admit [OF left(3) ok(3), of rd] by (simp add: receive_def)
    have "each_entry (subscription_ok rd (views rd admitted w') s c) (sc_subscriptions co')"
    proof (rule each_entryI)
      fix key sb'
      assume "map_of (sc_subscriptions co') key = Some sb'"
      then have k: "map_of (sc_subscriptions co) key = Some sb'" "key \<noteq> (r, sj_subjectID s)" by (auto simp: left(4) split: if_splits)
      have old: "subscription_ok rd (views rd admitted w) s c key sb'" by (rule each_entryD [OF ok(2) k(1)])
      then have "sb_Subscriber sb' \<noteq> r" using k(2) by (auto simp: subscription_ok_def)
      then show "subscription_ok rd (views rd admitted w') s c key sb'" by (intro subscription_ok_mono [OF old]) (simp_all add: v)
    qed
    then show ?thesis by (rule subject_okI [OF left(5)]) (use ok left(6) in simp_all)
  qed
qed

section \<open>Preparing and distributing\<close>

lemma prepareLocked_cases:
  assumes "prepareLocked s c profiles = (s', res)"
  obtains (failed) e where "res = Inl e" "same_marks s s'" "sj_inflightToken s' = sj_inflightToken s" "sj_dirtyNotifier s' = sj_dirtyNotifier s"
  | (prepared) pk token us where "sj_enabled s" "sj_inflightToken s = 0" "sj_packer s = Some pk" "token = sj_nextToken s + 1"
      "s' = s\<lparr>sj_nextToken := token, sj_inflightToken := token\<rparr>"
      "res = Inr \<lparr>pp_token = token, pp_generation = sj_dirtyGeneration s, pp_baseVersion = sj_version s, pp_version = sj_version s + 1,
         pp_updates = us, pp_finished = False\<rparr>"
      "map up_Profile us = profiles"
      "\<And>u. u \<in> set us \<Longrightarrow> up_SubjectID u = sj_subjectID s \<and> up_Full u = sj_fullDirty s \<and> up_Version u = sj_version s + 1
         \<and> up_BaseVersion u = sj_version s
         \<and> (if sj_fullDirty s then pa_Snapshot pk (up_Profile u) c else pa_Delta pk (up_Profile u) (sj_dirtyMask s) c) = Inr (up_Payload u)"
proof (cases "\<exists>pk. sj_enabled s \<and> sj_inflightToken s = 0 \<and> (sj_dirtyMask s \<noteq> 0 \<or> sj_fullDirty s) \<and> sj_packer s = Some pk")
  case False
  then have "\<exists>e. res = Inl e \<and> same_marks s s' \<and> sj_inflightToken s' = sj_inflightToken s \<and> sj_dirtyNotifier s' = sj_dirtyNotifier s"
    using assms by (auto simp: prepareLocked_def same_marks_def split: if_splits option.splits)
  then show thesis using failed by blast
next
  case True
  then obtain pk where g: "sj_enabled s" "sj_inflightToken s = 0" "sj_dirtyMask s \<noteq> 0 \<or> sj_fullDirty s" "sj_packer s = Some pk" by blast
  define token where "token = sj_nextToken s + 1"
  define s1 where "s1 = s\<lparr>sj_nextToken := token, sj_inflightToken := token\<rparr>"
  define pack where "pack = (\<lambda>profile. if sj_fullDirty s then pa_Snapshot pk profile c else pa_Delta pk profile (sj_dirtyMask s) c)"
  define t where "t = \<lparr>up_SubjectID = sj_subjectID s, up_Namespace = sj_namespace s, up_SubjectKind = sj_subjectKind s,
    up_Profile = no_profile, up_Version = sj_version s + 1, up_BaseVersion = sj_version s, up_Mask = sj_dirtyMask s, up_Full = sj_fullDirty s,
    up_Reason = (if sj_fullDirty s \<and> sj_fullReason s = SyncFullReasonNone then SyncFullReasonDirty else sj_fullReason s),
    up_Payload = \<lparr>fz_codec = 0, fz_data = []\<rparr>\<rparr>"
  have n: "\<not> \<not> sj_enabled s" "\<not> sj_inflightToken s \<noteq> 0" "\<not> (sj_dirtyMask s = 0 \<and> \<not> sj_fullDirty s)" using g by auto
  have eq: "prepareLocked s c profiles = (case pack_all pack t profiles of
      Inl e \<Rightarrow> (failPrepare s1 token e, Inl e)
    | Inr us \<Rightarrow> (s1, Inr \<lparr>pp_token = token, pp_generation = sj_dirtyGeneration s, pp_baseVersion = sj_version s,
         pp_version = sj_version s + 1, pp_updates = us, pp_finished = False\<rparr>))"
    unfolding prepareLocked_def Let_def if_not_P [OF n(1)] if_not_P [OF n(2)] if_not_P [OF n(3)] g(4) option.case s1_def token_def pack_def t_def
    by (rule refl)
  show thesis
  proof (cases "pack_all pack t profiles")
    case (Inl e)
    then show thesis using assms eq g(2) by (intro failed [of e]) (auto simp: failPrepare_def s1_def same_marks_def)
  next
    case (Inr us)
    have each: "pack (up_Profile u) = Inr (up_Payload u)" "u = t\<lparr>up_Profile := up_Profile u, up_Payload := up_Payload u\<rparr>" if "u \<in> set us" for u
      using pack_all_Inr(2) [OF Inr that] by blast+
    show thesis
    proof (rule prepared [OF g(1,2,4) token_def])
      fix u
      assume u: "u \<in> set us"
      have "up_SubjectID u = up_SubjectID t" "up_Full u = up_Full t" "up_Version u = up_Version t" "up_BaseVersion u = up_BaseVersion t"
        by (subst each(2) [OF u], simp)+
      with each(1) [OF u] show "up_SubjectID u = sj_subjectID s \<and> up_Full u = sj_fullDirty s \<and> up_Version u = sj_version s + 1
         \<and> up_BaseVersion u = sj_version s
         \<and> (if sj_fullDirty s then pa_Snapshot pk (up_Profile u) c else pa_Delta pk (up_Profile u) (sj_dirtyMask s) c) = Inr (up_Payload u)"
        by (simp add: t_def pack_def)
    qed (use assms eq Inr pack_all_Inr(1) [OF Inr] in \<open>auto simp: s1_def\<close>)
  qed
qed

lemma prepare_Inr_ok:
  assumes "subject_ok rd admitted (co, s, c, w, fl)" "sj_nextToken s < -1" "Prepare s lockFails c profiles = (s', Inr p)"
  shows "subject_ok rd admitted (co, s', c, w, Some p) \<and> sj_subjectID s' = sj_subjectID s \<and> sj_enabled s'
    \<and> map up_Profile (pp_updates p) = normalizeSyncProfiles profiles"
proof -
  note ok = subject_okD [OF assms(1)]
  have "prepareLocked s c (normalizeSyncProfiles profiles) = (s', Inr p)" using assms(3) by (auto simp: Prepare_def split: option.splits)
  then show ?thesis
  proof (cases rule: prepareLocked_cases)
    case (failed e)
    then show ?thesis by simp
  next
    case (prepared pk token us)
    have m: "same_marks s s'" by (simp add: prepared(5) same_marks_def)
    have p: "pp_updates p = us" "pp_token p = token" "pp_generation p = sj_dirtyGeneration s" "pp_baseVersion p = sj_version s"
      "pp_version p = sj_version s + 1" "\<not> pp_finished p" using prepared(6) by simp_all
    have pk: "packer_ok rd pk" using ok(5) prepared(3) by blast
    have up: "update_ok rd s' p (sj_fullDirty s) (sj_dirtyMask s) c u" if u: "u \<in> set us" for u
    proof -
      have "up_Profile u \<in> set (normalizeSyncProfiles profiles)" using prepared(7) u by (metis image_eqI set_map)
      then have "profile_Normalize (up_Profile u) = up_Profile u" by (rule normalizeSyncProfiles_normal)
      then show ?thesis using prepared(8) [OF u] pk p by (auto simp: update_ok_def prepared(5) packer_ok_def split: if_splits)
    qed
    have "flight_ok rd s' c (Some p)"
      unfolding flight_ok_def option.case
    proof (intro conjI exI [of _ "sj_fullDirty s"] exI [of _ "sj_dirtyMask s"] exI [of _ c])
      show "list_all (update_ok rd s' p (sj_fullDirty s) (sj_dirtyMask s) c) (pp_updates p)" using up p(1) by (simp add: list_all_iff)
      show "pp_token p \<noteq> 0" using next_u64 [OF assms(2)] prepared(4) p(2) by simp
    qed (use p prepared(5) in \<open>simp_all add: prepared_current_def\<close>)
    moreover have "each_entry (subscription_ok rd (views rd admitted w) s' c) (sc_subscriptions co)"
      unfolding same_marks_subscription [OF m] by (rule ok(2))
    ultimately have "subject_ok rd admitted (co, s', c, w, Some p)"
      by (intro subject_okI) (use ok prepared(5) in simp_all)
    with prepared p show ?thesis by simp
  qed
qed

lemma prepare_Inl_ok:
  assumes "subject_ok rd admitted (co, s, c, w, fl)" "Prepare s lockFails c profiles = (s', Inl e)"
  shows "subject_ok rd admitted (co, s', c, w, fl)"
proof (cases lockFails)
  case None
  then have "prepareLocked s c (normalizeSyncProfiles profiles) = (s', Inl e)" using assms(2) by (simp add: Prepare_def)
  then show ?thesis
  proof (cases rule: prepareLocked_cases)
    case (failed e')
    show ?thesis by (rule subject_ok_same [OF assms(1) failed(2-4)]) (use subject_okD(1) [OF assms(1)] in simp_all)
  qed simp
next
  case (Some e')
  then show ?thesis using assms by (simp add: Prepare_def)
qed

text \<open>Giving up the update in flight.\<close>

lemma AbortWithError_ok:
  assumes "subject_ok rd admitted (co, s, c, w, Some p)" "AbortWithError p s cause = (p', s', err)"
  shows "subject_ok rd admitted (co, s', c, w, None)" "same_marks s s'"
proof -
  note ok = subject_okD [OF assms(1)]
  show m: "same_marks s s'" using assms(2) by (auto simp: AbortWithError_def Let_def same_marks_def split: if_splits)
  have "sj_dirtyNotifier s' = sj_dirtyNotifier s" "sj_enabled s \<Longrightarrow> sj_inflightToken s' = 0"
    using assms(2) ok(6) by (auto simp: AbortWithError_def Let_def flight_ok_def split: if_splits)
  moreover have "each_entry (subscription_ok rd (views rd admitted w) s' c) (sc_subscriptions co)"
    unfolding same_marks_subscription [OF m] by (rule ok(2))
  ultimately show "subject_ok rd admitted (co, s', c, w, None)"
    using ok m by (intro subject_okI) (simp_all add: flight_ok_def same_marks_def)
qed

lemma Distribute_cases:
  assumes "Distribute co s ctxErr w p = (co', s', p', w', err)"
  obtains (refused) cause aerr e where "AbortWithError p s (Some cause) = (p', s', aerr)" "co' = co" "err = Some e"
      "w' = w \<or> (\<exists>es e. admitEnvelopes ctxErr (sc_sink co) es w = (w', Some e))" "e \<noteq> ErrSubjectSyncFinished"
  | (admitted) subjectID sbs es cerr where "subjectID = up_SubjectID (pp_updates p ! 0)" "pp_updates p \<noteq> []"
      "sbs = sortSubscriptions (active_subscriptions co subjectID)" "envelopes_for (by_profile (pp_updates p)) sbs = Some es"
      "if es = [] then w' = w else admitEnvelopes ctxErr (sc_sink co) es w = (w', None)" "prepared_Commit p s = (p', s', cerr)" "err = cerr"
      "co' = (if cerr = None then fold (advance_subscription (pp_version p) subjectID) sbs co else co)"
proof -
  define us where "us = pp_updates p"
  define subjectID where "subjectID = up_SubjectID (us ! 0)"
  define sbs where "sbs = sortSubscriptions (active_subscriptions co subjectID)"
  define refuse where "refuse = (\<lambda>w cause err. let (p1, s1) = aborted p s cause in (co, s1, p1, w :: 'a, Some (err :: sync_error)))"
  have ref: thesis if "refuse w1 cause e = (co', s', p', w', err)" "w1 = w \<or> (\<exists>es e. admitEnvelopes ctxErr (sc_sink co) es w = (w1, Some e))"
    "e \<noteq> ErrSubjectSyncFinished" for w1 cause e
  proof -
    obtain p1 s1 x where a: "AbortWithError p s (Some cause) = (p1, s1, x)" by (rule prod_cases3)
    show thesis using refused [of cause x e] that a by (auto simp: refuse_def aborted_def)
  qed
  have eq: "Distribute co s ctxErr w p =
     (if us = [] \<or> subjectID = 0 then refuse w ErrSubscriptionSubject ErrSubscriptionSubject
      else if list_ex (\<lambda>u. up_SubjectID u \<noteq> subjectID) us then refuse w ErrSubscriptionSubject ErrSubscriptionSubject
      else if sbs \<noteq> [] \<and> Option.is_none (sc_sink co) then refuse w ErrEnvelopeSinkRequired ErrEnvelopeSinkRequired
      else case envelopes_for (by_profile us) sbs of
            None \<Rightarrow> refuse w ErrPreparedProfilesMissing ErrPreparedProfilesMissing
          | Some es \<Rightarrow>
              (case (if es = [] then (w, None) else admitEnvelopes ctxErr (sc_sink co) es w) of
                 (w1, Some e) \<Rightarrow> refuse w1 e (ErrEnvelopeAdmission (Some e))
               | (w1, None) \<Rightarrow>
                   (case prepared_Commit p s of
                      (p1, s1, Some e) \<Rightarrow> (co, s1, p1, w1, Some e)
                    | (p1, s1, None) \<Rightarrow> (fold (advance_subscription (pp_version p) subjectID) sbs co, s1, p1, w1, None))))"
    unfolding Distribute_def Let_def us_def [symmetric] subjectID_def [symmetric] sbs_def [symmetric] refuse_def by (rule refl)
  consider (early) cause e where "refuse w cause e = (co', s', p', w', err)" "e \<noteq> ErrSubjectSyncFinished"
    | (env) es where "us \<noteq> []" "envelopes_for (by_profile us) sbs = Some es"
        "(case (if es = [] then (w, None) else admitEnvelopes ctxErr (sc_sink co) es w) of
                 (w1, Some e) \<Rightarrow> refuse w1 e (ErrEnvelopeAdmission (Some e))
               | (w1, None) \<Rightarrow>
                   (case prepared_Commit p s of
                      (p1, s1, Some e) \<Rightarrow> (co, s1, p1, w1, Some e)
                    | (p1, s1, None) \<Rightarrow> (fold (advance_subscription (pp_version p) subjectID) sbs co, s1, p1, w1, None))) = (co', s', p', w', err)"
    using assms unfolding eq by (auto split: if_splits option.splits)
  then show thesis
  proof cases
    case early
    from early(1) _ early(2) show thesis by (rule ref) simp
  next
    case env
    obtain w1 aerr where ad: "(if es = [] then (w, None) else admitEnvelopes ctxErr (sc_sink co) es w) = (w1, aerr)" by (rule prod.exhaust)
    show thesis
    proof (cases aerr)
      case (Some e)
      then have "refuse w1 e (ErrEnvelopeAdmission (Some e)) = (co', s', p', w', err)" using env(3) ad by simp
      then show thesis by (rule ref) (use ad Some in \<open>auto split: if_splits\<close>)
    next
      case None
      obtain p1 s1 cerr where c: "prepared_Commit p s = (p1, s1, cerr)" by (rule prod_cases3)
      have out: "p' = p1" "s' = s1" "w' = w1" "err = cerr" "co' = (if cerr = None then fold (advance_subscription (pp_version p) subjectID) sbs co else co)"
        using env(3) ad None c by (auto split: option.splits)
      show thesis
        by (rule admitted [of subjectID sbs es cerr]) (use env(1,2) ad None c out in \<open>auto simp: subjectID_def us_def sbs_def split: if_splits\<close>)
    qed
  qed
qed

lemma sortSubscriptions_set [simp]: "set (sortSubscriptions sbs) = set sbs"
  by (simp add: sortSubscriptions_def)

lemma active_subscriptions_iff:
  "gomap_ok (sc_subscriptions co) \<Longrightarrow> sb \<in> set (active_subscriptions co subjectID) \<longleftrightarrow>
    (\<exists>key. map_of (sc_subscriptions co) key = Some sb) \<and> sb_SubjectID sb = subjectID \<and> sb_State sb = SubscriptionActive"
  by (force simp: active_subscriptions_def gomap_ok_def)

lemma active_subscribers_distinct:
  assumes "gomap_ok (sc_subscriptions co)" "each_entry (\<lambda>key sb. key = (sb_Subscriber sb, sb_SubjectID sb)) (sc_subscriptions co)"
  shows "distinct (map sb_Subscriber (sortSubscriptions (active_subscriptions co subjectID)))"
proof -
  have key: "fst kv = (sb_Subscriber (snd kv), sb_SubjectID (snd kv))" if "kv \<in> set (sc_subscriptions co)" for kv
    using each_entryD [OF assms(2), of "fst kv" "snd kv"] that assms(1) by (simp add: gomap_ok_def)
  let ?kvs = "filter (\<lambda>kv. sb_SubjectID (snd kv) = subjectID \<and> sb_State (snd kv) = SubscriptionActive) (sc_subscriptions co)"
  have vals: "active_subscriptions co subjectID = map snd ?kvs" by (simp add: active_subscriptions_def filter_map comp_def)
  have same: "map (\<lambda>kv. (sb_Subscriber (snd kv), subjectID)) ?kvs = map fst ?kvs" using key by simp
  have "distinct (map fst ?kvs)" using assms(1) by (simp add: gomap_ok_def distinct_map_filter)
  then have "distinct (map (\<lambda>r. (r, subjectID)) (map (sb_Subscriber \<circ> snd) ?kvs))" unfolding same [symmetric] by (simp add: comp_def)
  then have "distinct (map (sb_Subscriber \<circ> snd) ?kvs)" unfolding distinct_map by simp
  then have "distinct (map sb_Subscriber (active_subscriptions co subjectID))" unfolding vals by simp
  then show ?thesis by (simp add: distinct_map sortSubscriptions_def)
qed

lemma prepared_Commit_enabled:
  assumes "sj_enabled s" "flight_ok rd s c (Some p)" "prepared_Commit p s = (p', s', cerr)"
  shows "cerr = None" "sj_enabled s'" "sj_subjectID s' = sj_subjectID s" "sj_version s' = sj_version s + 1" "sj_inflightToken s' = 0"
    "sj_packer s' = sj_packer s" "sj_dirtyNotifier s' = sj_dirtyNotifier s" "pp_finished p'"
    "sj_fullDirty s' = (sj_fullDirty s \<and> sj_dirtyGeneration s \<noteq> pp_generation p)"
    "sj_dirtyMask s' = (if sj_dirtyGeneration s = pp_generation p then 0 else sj_dirtyMask s)"
  using assms by (auto simp: prepared_Commit_def flight_ok_def Let_def split: if_splits)

lemma prepared_Commit_disabled:
  assumes "\<not> sj_enabled s" "prepared_Commit p s = (p', s', cerr)"
  shows "cerr \<noteq> None" "same_marks s s'" "sj_dirtyNotifier s' = sj_dirtyNotifier s"
  using assms by (auto simp: prepared_Commit_def same_marks_def Let_def split: if_splits)

text \<open>After the commit every view that received the update differs from the content only where it is still marked.\<close>

lemma commit_covered:
  assumes "prepared_current s c p full bits new" "covered s c old"
    "sj_fullDirty s' = (sj_fullDirty s \<and> sj_dirtyGeneration s \<noteq> pp_generation p)"
    "sj_dirtyMask s' = (if sj_dirtyGeneration s = pp_generation p then 0 else sj_dirtyMask s)"
  shows "covered s' c (if full then new else overlay bits new old)"
proof (cases "sj_dirtyGeneration s = pp_generation p")
  case True
  then have n: "new = c" "full = sj_fullDirty s" "bits = sj_dirtyMask s" using assms(1) by (simp_all add: prepared_current_def)
  have "(if full then new else overlay bits new old) = c"
    using n assms(2) by (auto simp: covered_def overlay_def fun_eq_iff)
  then show ?thesis by simp
next
  case False
  then show ?thesis using assms by (auto simp: prepared_current_def covered_def overlay_def)
qed

lemma distribute_ok:
  assumes "subject_ok rd admitted (co, s, c, w, Some p)" "Distribute co s ctxErr w p = (co', s', p', w', err)"
  shows "subject_ok rd admitted (co', s', c, w', None)"
proof -
  note ok = subject_okD [OF assms(1)]
  from assms(2) show ?thesis
  proof (cases rule: Distribute_cases)
    case (refused cause aerr e)
    have v: "views rd admitted w' = views rd admitted w"
      using refused(4) views_admit [OF _ ok(3), of ctxErr _ w w' _ rd] by auto
    have "subject_ok rd admitted (co, s', c, w, None)" by (rule AbortWithError_ok(1) [OF assms(1) refused(1)])
    then show ?thesis by (rule subject_ok_same) (use refused(2) ok(1) v in simp_all)
  next
    case (admitted subjectID sbs es cerr)
    show ?thesis
    proof (cases "sj_enabled s")
      case False
      note cd = prepared_Commit_disabled [OF False admitted(6)]
      have "each_entry (subscription_ok rd (views rd admitted w') s' c) (sc_subscriptions co)"
        by (rule each_entry_mono [OF ok(2)]) (use False cd(2) in \<open>simp add: subscription_ok_def same_marks_def\<close>)
      then show ?thesis using ok admitted(8) False cd by (intro subject_okI) (simp_all add: same_marks_def)
    next
      case True
      have fl: "flight_ok rd s c (Some p)" using ok(6) True by blast
      note cm = prepared_Commit_enabled [OF True fl admitted(6)]
      obtain full bits new where u: "list_all (update_ok rd s p full bits new) (pp_updates p)" "prepared_current s c p full bits new"
        using fl by (auto simp: flight_ok_def)
      have ver: "pp_version p = sj_version s + 1" using fl by (simp add: flight_ok_def)
      have id: "subjectID = sj_subjectID s" using u(1) admitted(1,2) by (cases "pp_updates p") (auto simp: update_ok_def)
      have keys: "each_entry (\<lambda>key sb. key = (sb_Subscriber sb, sb_SubjectID sb)) (sc_subscriptions co)"
        by (rule each_entry_mono [OF ok(2)]) (simp add: subscription_ok_def)
      have dist: "distinct (map sb_Subscriber sbs)" unfolding admitted(3) by (rule active_subscribers_distinct [OF ok(1) keys])
      have v: "views rd admitted w' = fold (receive rd) es (views rd admitted w)"
        using admitted(5) views_admit [OF _ ok(3), of ctxErr es w w' None rd] by (auto split: if_splits)
      have mem: "sb \<in> set sbs" if "map_of (sc_subscriptions co) key = Some sb" for key sb
        using each_entryD [OF ok(2) that] that unfolding admitted(3) sortSubscriptions_set active_subscriptions_iff [OF ok(1)] id
        by (auto simp: subscription_ok_def)
      have each: "map_of (sc_subscriptions co) (sb_Subscriber sb, subjectID) = Some sb \<and> sb_State sb = SubscriptionActive" if member: "sb \<in> set sbs" for sb
      proof -
        obtain key where k: "map_of (sc_subscriptions co) key = Some sb" "sb_SubjectID sb = subjectID" "sb_State sb = SubscriptionActive"
          using member unfolding admitted(3) sortSubscriptions_set active_subscriptions_iff [OF ok(1)] by blast
        then show ?thesis using each_entryD [OF keys k(1)] by simp
      qed
      note adv = advance_all [OF each dist ok(1), of "pp_version p"]
      have co': "co' = fold (advance_subscription (pp_version p) subjectID) sbs co" using admitted(8) cm(1) by simp
      have "subscription_ok rd (views rd admitted w') s' c key sb'" if l: "map_of (sc_subscriptions co') key = Some sb'" for key sb'
      proof -
        obtain sb where sb: "map_of (sc_subscriptions co) key = Some sb" using l adv unfolding co' by (auto split: if_splits)
        note old = each_entryD [OF ok(2) sb] and m = mem [OF sb]
        have key: "key = (sb_Subscriber sb, subjectID)" "sb_SubjectID sb = subjectID" using old id by (auto simp: subscription_ok_def)
        have sb': "sb' = sb\<lparr>sb_ContentVersion := pp_version p\<rparr>" using l adv sb m key unfolding co' by (auto split: if_splits)
        obtain u' where u': "map_of (by_profile (pp_updates p)) (profile_Normalize (sb_Profile sb)) = Some u'"
          "views rd admitted w' (sb_Subscriber sb) = (if up_Full u' then Some (rd_set rd (up_Payload u'))
             else map_option (rd_change rd (up_Payload u')) (views rd admitted w (sb_Subscriber sb)))"
          using envelopes_for_effect [OF admitted(4) dist m, of rd "views rd admitted w"] v by auto
        have "update_ok rd s p full bits new u'" using u(1) by_profile_lookup(1) [OF u'(1)] by (simp add: list_all_iff)
        then have up: "up_Full u' = full" "up_Profile u' = sb_Profile sb"
          "if full then rd_set rd (up_Payload u') = rd_view rd (up_Profile u') new
           else \<forall>old. rd_change rd (up_Payload u') (rd_view rd (up_Profile u') old) = rd_view rd (up_Profile u') (overlay bits new old)"
          using by_profile_lookup(2) [OF u'(1)] old by (auto simp: update_ok_def subscription_ok_def)
        obtain x where x: "views rd admitted w (sb_Subscriber sb) = Some (rd_view rd (sb_Profile sb) x)" "covered s c x"
          using old True by (auto simp: subscription_ok_def)
        have "views rd admitted w' (sb_Subscriber sb) = Some (rd_view rd (sb_Profile sb) (if full then new else overlay bits new x))"
          using u'(2) up x(1) by (cases full) auto
        with commit_covered [OF u(2) x(2) cm(9,10)] show ?thesis
          using old key id sb' ver cm(3,4) unfolding subscription_ok_def by auto
      qed
      then have "each_entry (subscription_ok rd (views rd admitted w') s' c) (sc_subscriptions co')" by (rule each_entryI)
      then show ?thesis using ok adv cm by (intro subject_okI) (simp_all add: co' flight_ok_def)
    qed
  qed
qed

lemma flush_ok:
  assumes "subject_ok rd admitted (co, s, c, w, fl)" "sj_nextToken s < -1" "FlushSubject co s lockFails ctxErr c w = (co', s', w', err)"
  shows "subject_ok rd admitted (co', s', c, w', fl)"
proof (cases "sj_subjectID s = 0")
  case True
  with assms show ?thesis by (simp add: FlushSubject_def)
next
  case False
  obtain s1 res where p: "Prepare s lockFails c (Profiles co (sj_subjectID s)) = (s1, res)" by (rule prod.exhaust)
  show ?thesis
  proof (cases res)
    case (Inl e)
    then show ?thesis using prepare_Inl_ok [OF assms(1)] p assms(3) False by (simp add: FlushSubject_def)
  next
    case (Inr pp)
    note pr = prepare_Inr_ok [OF assms(1,2) p [unfolded Inr]]
    obtain p1 where d: "Distribute co s1 ctxErr w pp = (co', s', p1, w', err)"
      using assms(3) p Inr False by (auto simp: FlushSubject_def split: prod.splits)
    have none: "subject_ok rd admitted (co', s', c, w', None)" by (rule distribute_ok [OF _ d]) (use pr in simp)
    have "fl = None" if "sj_enabled s"
    proof -
      have "prepareLocked s c (normalizeSyncProfiles (Profiles co (sj_subjectID s))) = (s1, Inr pp)"
        using p Inr by (auto simp: Prepare_def split: option.splits)
      then have "sj_inflightToken s = 0" by (cases rule: prepareLocked_cases) auto
      then show ?thesis using subject_okD(6) [OF assms(1)] that by (cases fl) (auto simp: flight_ok_def)
    qed
    moreover have "sj_enabled s"
      using p Inr by (auto simp: Prepare_def prepareLocked_def split: option.splits if_splits)
    ultimately show ?thesis using none by simp
  qed
qed

lemma sink_step_ok:
  assumes "subject_ok rd admitted (co, s, c, w, fl)" "\<forall>f. sink = Some f \<longrightarrow> sink_ok admitted f"
  shows "subject_ok rd admitted (SetSink co sink, s, c, w, fl)"
  using assms by (auto simp: subject_ok_def SetSink_def)

lemma packer_step_ok:
  assumes "subject_ok rd admitted (co, s, c, w, fl)" "\<forall>pk. packer = Some pk \<longrightarrow> packer_ok rd pk"
  shows "subject_ok rd admitted (co, SetPacker s packer, c, w, fl)"
proof -
  note ok = subject_okD [OF assms(1)]
  have "each_entry (subscription_ok rd (views rd admitted w) (SetPacker s packer) c) (sc_subscriptions co)"
    by (rule each_entry_mono [OF ok(2)]) (simp add: subscription_ok_def covered_def SetPacker_def)
  moreover have "flight_ok rd (SetPacker s packer) c fl = flight_ok rd s c fl"
    by (cases fl) (simp_all add: flight_ok_def prepared_current_def SetPacker_def update_ok_state [of "s\<lparr>sj_packer := packer\<rparr>" s])
  ultimately show ?thesis using ok assms(2) by (intro subject_okI) (simp_all add: SetPacker_def)
qed

lemma close_ok:
  assumes "subject_ok rd admitted (co, s, c, w, fl)"
  shows "subject_ok rd admitted (co, subject_Close s, c, w, fl)"
proof -
  have "each_entry (subscription_ok rd (views rd admitted w) (subject_Close s) c) (sc_subscriptions co)"
    by (rule each_entry_mono [OF subject_okD(2) [OF assms]]) (simp add: subscription_ok_def subject_Close_def)
  then show ?thesis using assms by (auto simp: subject_ok_def subject_Close_def)
qed

lemma subject_step_ok:
  assumes "subject_step rd admitted y z" "subject_ok rd admitted y"
  shows "subject_ok rd admitted z"
  using assms
proof (induction rule: subject_step.induct)
  case change
  then show ?case by - (rule change_ok)
next
  case change_all
  then show ?case by - (rule change_all_ok)
next
  case notifier
  then show ?case by - (rule notifier_ok)
next
  case sink
  then show ?case by - (rule sink_step_ok)
next
  case packer
  then show ?case by - (rule packer_step_ok)
next
  case subscribe
  then show ?case by - (rule subscribe_ok)
next
  case unsubscribe
  then show ?case by - (rule unsubscribe_ok)
next
  case (prepare s lockFails c profiles s' p co w fl)
  then show ?case using prepare_Inr_ok by metis
next
  case prepare_fails
  then show ?case by - (rule prepare_Inl_ok)
next
  case distribute
  then show ?case by - (rule distribute_ok)
next
  case abort
  then show ?case by - (rule AbortWithError_ok(1))
next
  case flush
  then show ?case by - (rule flush_ok)
next
  case close
  then show ?case by (rule close_ok)
qed

inductive subject_reachable :: "('f, 'v) reading \<Rightarrow> ('w \<Rightarrow> DeliveryEnvelope list) \<Rightarrow> ('f, 'w) subject_system \<Rightarrow> bool" for rd admitted where
  initial: "NewSubjectSyncState param = Some s \<Longrightarrow> \<forall>pk. cp_Packer param = Some pk \<longrightarrow> packer_ok rd pk \<Longrightarrow>
     \<forall>f. sink = Some f \<longrightarrow> sink_ok admitted f \<Longrightarrow>
     subject_reachable rd admitted (NewSubscriptionCoordinator sink, s, c, w, None)"
| step: "subject_reachable rd admitted y \<Longrightarrow> subject_step rd admitted y z \<Longrightarrow> subject_reachable rd admitted z"

lemma subject_reachable_ok: "subject_reachable rd admitted y \<Longrightarrow> subject_ok rd admitted y"
proof (induction rule: subject_reachable.induct)
  case (initial param s sink c w)
  then show ?case
    by (auto simp: subject_ok_def NewSubjectSyncState_def NewSubscriptionCoordinator_def each_entry_def flight_ok_def
        gomap_ok_def split: if_splits)
next
  case (step y z)
  then show ?case by (blast intro: subject_step_ok)
qed

section \<open>A flush reaches every subscriber\<close>

lemma pack_all_total: "(\<And>p. \<exists>payload. pack p = Inr payload) \<Longrightarrow> \<exists>us. pack_all pack template ps = Inr us"
proof (induction ps)
  case (Cons p ps)
  then obtain payload us where "pack p = Inr payload" "pack_all pack template ps = Inr us" by blast
  then show ?case by simp
qed simp

lemma by_profile_covers: "u \<in> set us \<Longrightarrow> map_of (by_profile us) (profile_Normalize (up_Profile u)) \<noteq> None"
proof -
  have keep: "map_of m q \<noteq> None \<Longrightarrow> map_of (fold (\<lambda>u. AList.update (profile_Normalize (up_Profile u)) u) us m) q \<noteq> None" for m q us
    by (induction us arbitrary: m) auto
  have "map_of (fold (\<lambda>u. AList.update (profile_Normalize (up_Profile u)) u) us m) (profile_Normalize (up_Profile u)) \<noteq> None"
    if "u \<in> set us" for m
    using that
  proof (induction us arbitrary: m)
    case (Cons x us)
    show ?case
    proof (cases "u = x")
      case True
      then show ?thesis unfolding fold_simps by (intro keep) simp
    next
      case False
      then show ?thesis unfolding fold_simps by (intro Cons.IH) (use Cons.prems in simp)
    qed
  qed simp
  then show "u \<in> set us \<Longrightarrow> ?thesis" by (simp add: by_profile_def)
qed

lemma envelopes_for_total:
  "(\<And>sb. sb \<in> set sbs \<Longrightarrow> map_of bp (profile_Normalize (sb_Profile sb)) \<noteq> None) \<Longrightarrow> \<exists>es. envelopes_for bp sbs = Some es \<and> length es = length sbs"
proof (induction sbs)
  case (Cons sb sbs)
  obtain es where "envelopes_for bp sbs = Some es" "length es = length sbs" using Cons.IH Cons.prems by auto
  moreover obtain u where "map_of bp (profile_Normalize (sb_Profile sb)) = Some u" using Cons.prems [of sb] by auto
  ultimately show ?case by simp
qed simp

definition packer_total :: "'c SubjectSyncPacker \<Rightarrow> bool" where
  "packer_total pk \<longleftrightarrow> (\<forall>p c. \<exists>payload. pa_Snapshot pk p c = Inr payload) \<and> (\<forall>p bits c. \<exists>payload. pa_Delta pk p bits c = Inr payload)"

definition sink_admits :: "'w ReliableEnvelopeSink \<Rightarrow> bool" where
  "sink_admits f \<longleftrightarrow> (\<forall>es w. snd (f es w) = Admitted)"

lemma prepare_total:
  assumes "sj_enabled s" "sj_inflightToken s = 0" "PendingDirty s" "sj_packer s = Some pk" "packer_total pk"
  shows "\<exists>s1 p. Prepare s None c profiles = (s1, Inr p) \<and> pp_generation p = sj_dirtyGeneration s1"
proof -
  define pack where "pack = (\<lambda>profile. if sj_fullDirty s then pa_Snapshot pk profile c else pa_Delta pk profile (sj_dirtyMask s) c)"
  have total: "\<exists>payload. pack p = Inr payload" for p using assms(5) by (simp add: pack_def packer_total_def)
  have n: "\<not> \<not> sj_enabled s" "\<not> sj_inflightToken s \<noteq> 0" "\<not> (sj_dirtyMask s = 0 \<and> \<not> sj_fullDirty s)"
    using assms(1-3) by (auto simp: PendingDirty_def)
  obtain us where us: "pack_all pack \<lparr>up_SubjectID = sj_subjectID s, up_Namespace = sj_namespace s, up_SubjectKind = sj_subjectKind s,
    up_Profile = no_profile, up_Version = sj_version s + 1, up_BaseVersion = sj_version s, up_Mask = sj_dirtyMask s, up_Full = sj_fullDirty s,
    up_Reason = (if sj_fullDirty s \<and> sj_fullReason s = SyncFullReasonNone then SyncFullReasonDirty else sj_fullReason s),
    up_Payload = \<lparr>fz_codec = 0, fz_data = []\<rparr>\<rparr> (normalizeSyncProfiles profiles) = Inr us"
    using pack_all_total [of pack, OF total] by blast
  show ?thesis
    unfolding Prepare_def option.case prepareLocked_def Let_def if_not_P [OF n(1)] if_not_P [OF n(2)] if_not_P [OF n(3)] assms(4) pack_def [symmetric] us
    by simp
qed

lemma profiles_of_subscribers:
  assumes "sb \<in> set (active_subscriptions co subjectID)" "subjectID \<noteq> 0"
  shows "profile_Normalize (sb_Profile sb) \<in> set (normalizeSyncProfiles (Profiles co subjectID))"
proof -
  have "profile_Normalize (sb_Profile sb) \<in> set (Profiles co subjectID)"
    using assms by (simp add: Profiles_def Subscribers_def)
  then have "Profiles co subjectID \<noteq> []" "profile_Normalize (profile_Normalize (sb_Profile sb)) \<in> profile_Normalize ` set (Profiles co subjectID)"
    by (auto simp del: profile_Normalize_idem)
  then show ?thesis by (simp add: normalizeSyncProfiles_def)
qed

lemma normalizeSyncProfiles_nonempty: "normalizeSyncProfiles ps \<noteq> []"
  by (auto simp: normalizeSyncProfiles_def Let_def simp flip: set_empty)

lemma distribute_total:
  assumes "sj_enabled s" "flight_ok rd s c (Some p)" "sj_subjectID s \<noteq> 0" "sc_sink co = Some f" "sink_admits f"
    "map up_Profile (pp_updates p) = normalizeSyncProfiles (Profiles co (sj_subjectID s))" "pp_generation p = sj_dirtyGeneration s"
  shows "\<exists>co' s' p' w'. Distribute co s None w p = (co', s', p', w', None) \<and> \<not> PendingDirty s' \<and> sj_enabled s'"
proof -
  define sbs where "sbs = sortSubscriptions (active_subscriptions co (sj_subjectID s))"
  have ids: "\<forall>u \<in> set (pp_updates p). up_SubjectID u = sj_subjectID s" and ne: "pp_updates p \<noteq> []"
    using assms(2,6) normalizeSyncProfiles_nonempty [of "Profiles co (sj_subjectID s)"] by (auto simp: flight_ok_def update_ok_def list_all_iff)
  then have first: "up_SubjectID (pp_updates p ! 0) = sj_subjectID s" by simp
  have "map_of (by_profile (pp_updates p)) (profile_Normalize (sb_Profile sb)) \<noteq> None" if sb: "sb \<in> set sbs" for sb
  proof -
    have "profile_Normalize (sb_Profile sb) \<in> set (map up_Profile (pp_updates p))"
      unfolding assms(6) by (rule profiles_of_subscribers) (use sb assms(3) in \<open>simp_all add: sbs_def\<close>)
    then obtain u where "u \<in> set (pp_updates p)" "up_Profile u = profile_Normalize (sb_Profile sb)" by auto
    with by_profile_covers [of u "pp_updates p"] show ?thesis by simp
  qed
  from envelopes_for_total [OF this] obtain es where es: "envelopes_for (by_profile (pp_updates p)) sbs = Some es" by blast
  obtain w1 where "f es w = (w1, Admitted)" using assms(5) unfolding sink_admits_def by (metis prod.collapse)
  then have "admitEnvelopes None (sc_sink co) es w = (w1, None)" by (simp add: admitEnvelopes_def assms(4))
  then obtain w' where w': "(if es = [] then (w, None) else admitEnvelopes None (sc_sink co) es w) = (w', None)" by (cases "es = []") simp_all
  obtain p' s' where commit: "prepared_Commit p s = (p', s', None)"
    using prepared_Commit_enabled(1) [OF assms(1,2)] by (metis prod_cases3)
  have clean: "\<not> PendingDirty s' \<and> sj_enabled s'"
    using prepared_Commit_enabled(2,9,10) [OF assms(1,2) commit] assms(7) by (simp add: PendingDirty_def)
  have c: "\<not> (pp_updates p = [] \<or> sj_subjectID s = 0)" "\<not> list_ex (\<lambda>u. up_SubjectID u \<noteq> sj_subjectID s) (pp_updates p)"
    "\<not> (sbs \<noteq> [] \<and> Option.is_none (sc_sink co))" using ne assms(3,4) ids by (auto simp: list_ex_iff)
  show ?thesis
    unfolding Distribute_def Let_def first if_not_P [OF c(1)] if_not_P [OF c(2)] sbs_def [symmetric] if_not_P [OF c(3)] es option.case w'
      prod.case commit
    using clean by simp
qed

lemma flush_total:
  assumes "subject_ok rd admitted (co, s, c, w, None)" "sj_enabled s" "sj_subjectID s \<noteq> 0" "sj_nextToken s < -1"
    "sj_packer s = Some pk" "packer_total pk" "sc_sink co = Some f" "sink_admits f"
  shows "\<exists>co' s' w'. FlushSubject co s None None c w = (co', s', w', None) \<and> \<not> PendingDirty s' \<and> sj_enabled s'"
proof (cases "PendingDirty s")
  case False
  moreover have "sj_inflightToken s = 0" using subject_okD(6) [OF assms(1)] assms(2) by (simp add: flight_ok_def)
  ultimately have "Prepare s None c (Profiles co (sj_subjectID s)) = (s, Inl ErrSubjectSyncNotDirty)"
    using assms(2) by (simp add: Prepare_def prepareLocked_def PendingDirty_def)
  then show ?thesis using False assms(2,3) by (simp add: FlushSubject_def)
next
  case True
  have "sj_inflightToken s = 0" using subject_okD(6) [OF assms(1)] assms(2) by (simp add: flight_ok_def)
  from prepare_total [OF assms(2) this True assms(5,6), of c "Profiles co (sj_subjectID s)"] obtain s1 p where
    p: "Prepare s None c (Profiles co (sj_subjectID s)) = (s1, Inr p)" "pp_generation p = sj_dirtyGeneration s1" by blast
  note ok = prepare_Inr_ok [OF assms(1,4) p(1)]
  have fl: "sj_enabled s1" "flight_ok rd s1 c (Some p)" "sj_subjectID s1 = sj_subjectID s"
    "map up_Profile (pp_updates p) = normalizeSyncProfiles (Profiles co (sj_subjectID s1))"
    using ok subject_okD(6) [of rd admitted co s1 c w "Some p"] by auto
  from distribute_total [OF fl(1,2) _ assms(7,8) fl(4) p(2)] assms(3) fl(3) obtain co' s' p' w' where
    "Distribute co s1 None w p = (co', s', p', w', None)" "\<not> PendingDirty s'" "sj_enabled s'" by metis
  then show ?thesis using p(1) assms(3) by (simp add: FlushSubject_def)
qed

lemma views_current:
  assumes "subject_ok rd admitted (co, s, c, w, fl)" "sj_enabled s" "\<not> PendingDirty s" "map_of (sc_subscriptions co) key = Some sb"
  shows "sb_State sb = SubscriptionActive" "sb_ContentVersion sb = sj_version s" "key = (sb_Subscriber sb, sj_subjectID s)"
    "views rd admitted w (sb_Subscriber sb) = Some (rd_view rd (sb_Profile sb) c)"
proof -
  have "subscription_ok rd (views rd admitted w) s c key sb" by (rule each_entryD [OF subject_okD(2) [OF assms(1)] assms(4)])
  moreover have "old = c" if "covered s c old" for old using that assms(3) by (auto simp: covered_def PendingDirty_def fun_eq_iff)
  ultimately show "sb_State sb = SubscriptionActive" "sb_ContentVersion sb = sj_version s" "key = (sb_Subscriber sb, sj_subjectID s)"
    "views rd admitted w (sb_Subscriber sb) = Some (rd_view rd (sb_Profile sb) c)"
    using assms(2) by (auto simp: subscription_ok_def)
qed

lemma advance_members:
  "dom (map_of (sc_subscriptions (fold (advance_subscription version subjectID) sbs co))) = dom (map_of (sc_subscriptions co))"
proof (induction sbs arbitrary: co)
  case (Cons sb sbs)
  have "dom (map_of (sc_subscriptions (advance_subscription version subjectID sb co))) = dom (map_of (sc_subscriptions co))"
    by (auto simp: advance_subscription_def put_subscription_def Let_def split: option.splits if_splits)
  with Cons.IH show ?case by simp
qed simp

lemma distribute_members:
  assumes "Distribute co s ctxErr w p = (co', s', p', w', err)"
  shows "dom (map_of (sc_subscriptions co')) = dom (map_of (sc_subscriptions co))"
  by (cases rule: Distribute_cases [OF assms]) (simp_all add: advance_members)

lemma flush_members:
  assumes "FlushSubject co s lockFails ctxErr c w = (co', s', w', err)"
  shows "dom (map_of (sc_subscriptions co')) = dom (map_of (sc_subscriptions co))"
  using assms by (auto simp: FlushSubject_def simp del: dom_map_of_conv_image_fst split: if_splits prod.splits sum.splits dest!: distribute_members)

lemma admit_accepted:
  assumes "admitEnvelopes ctxErr sink es w = (w', None)" "\<forall>f. sink = Some f \<longrightarrow> sink_ok admitted f"
  shows "admitted w' = admitted w @ es"
proof (cases sink)
  case (Some f)
  obtain w1 outcome where f: "f es w = (w1, outcome)" by (rule prod.exhaust)
  then have "admitted w1 = admitted w @ (if outcome = Admitted then es else [])" using assms(2) Some unfolding sink_ok_def by blast
  with assms(1) Some f show ?thesis by (auto simp: admitEnvelopes_def split: option.splits sink_outcome.splits)
qed (use assms(1) in \<open>simp add: admitEnvelopes_def\<close>)

lemma admit_refused:
  assumes "admitEnvelopes ctxErr sink es w = (w', Some e)" "\<forall>f. sink = Some f \<longrightarrow> sink_ok admitted f"
  shows "admitted w' = admitted w"
proof (cases sink)
  case (Some f)
  obtain w1 outcome where f: "f es w = (w1, outcome)" by (rule prod.exhaust)
  then have "admitted w1 = admitted w @ (if outcome = Admitted then es else [])" using assms(2) Some unfolding sink_ok_def by blast
  with assms(1) Some f show ?thesis by (auto simp: admitEnvelopes_def split: option.splits sink_outcome.splits)
qed (use assms(1) in \<open>simp add: admitEnvelopes_def\<close>)

section \<open>Subscribers hold the content\<close>

text \<open>
  An application with one byte of content: the snapshot carries it, a delta carries it when its bit is in
  the mask. The sink of the application collects the envelopes.
\<close>

definition demo_reading :: "(u8, u8) reading" where
  "demo_reading = \<lparr>rd_view = (\<lambda>_ c. c 0), rd_set = (\<lambda>payload. hd (fz_data payload)),
     rd_change = (\<lambda>payload v. if fz_data payload = [] then v else hd (fz_data payload))\<rparr>"

definition demo_packer :: "u8 content SubjectSyncPacker" where
  "demo_packer = \<lparr>pa_Snapshot = (\<lambda>_ c. Inr \<lparr>fz_codec = 1, fz_data = [c 0]\<rparr>),
     pa_Delta = (\<lambda>_ bits c. Inr \<lparr>fz_codec = 1, fz_data = (if bit bits 0 then [c 0] else [])\<rparr>)\<rparr>"

definition demo_sink :: "DeliveryEnvelope list ReliableEnvelopeSink" where
  "demo_sink es w = (w @ es, Admitted)"

definition demo_subject :: "(u8 content, DeliveryEnvelope list) SubjectSyncState" where
  "demo_subject = \<lparr>sj_enabled = True, sj_subjectID = 7, sj_namespace = ''room'', sj_subjectKind = 1, sj_version = 0, sj_dirtyMask = 0,
     sj_fullDirty = False, sj_fullReason = 0, sj_dirtyGeneration = 0, sj_packer = Some demo_packer, sj_dirtyNotifier = None,
     sj_nextToken = 0, sj_inflightToken = 0, sj_lastError = None\<rparr>"

definition demo_player :: SubscriberRef where
  "demo_player = \<lparr>sr_Kind = 1, sr_ID = 5, sr_Sid = 0, sr_Key = []\<rparr>"

definition demo_profile :: SyncProfile where
  "demo_profile = \<lparr>sf_Key = ''near'', sf_LOD = 1, sf_SchemaVersion = 1\<rparr>"

definition demo_subscription :: Subscription where
  "demo_subscription = \<lparr>sb_Subscriber = demo_player, sb_SubjectID = 7, sb_Namespace = ''room'', sb_SubjectKind = 1,
     sb_Profile = demo_profile, sb_State = SubscriptionActive, sb_ContentVersion = 0, sb_Revision = 1\<rparr>"

definition demo_coordinator :: "DeliveryEnvelope list SubscriptionCoordinator" where
  "demo_coordinator = \<lparr>sc_sink = Some demo_sink, sc_subscriptions = [((demo_player, 7), demo_subscription)], sc_revision = 1\<rparr>"

definition demo_entered :: "DeliveryEnvelope list" where
  "demo_entered = [\<lparr>de_Subscriber = demo_player, de_Kind = EnvelopeSnapshot, de_Update = \<lparr>up_SubjectID = 7, up_Namespace = ''room'',
     up_SubjectKind = 1, up_Profile = demo_profile, up_Version = 0, up_BaseVersion = 0, up_Mask = 0, up_Full = True, up_Reason = 2,
     up_Payload = \<lparr>fz_codec = 1, fz_data = [0]\<rparr>\<rparr>\<rparr>]"

lemma demo_laws:
  "packer_ok demo_reading demo_packer" "packer_total demo_packer" "sink_ok (\<lambda>w. w) demo_sink" "sink_admits demo_sink"
  by (auto simp: packer_ok_def packer_total_def sink_ok_def sink_admits_def demo_reading_def demo_packer_def demo_sink_def overlay_def)

lemma demo_subscribe:
  "Subscribe (NewSubscriptionCoordinator (Some demo_sink)) demo_subject None None (\<lambda>_. 0) [] demo_player demo_profile =
     (demo_coordinator, demo_subject, demo_entered, Inr demo_subscription)"
  by (simp add: Subscribe_def NewSubscriptionCoordinator_def demo_subject_def demo_player_def demo_profile_def demo_coordinator_def
      demo_subscription_def demo_entered_def demo_sink_def demo_packer_def subscriber_Normalize_def subscriber_Empty_def profile_Normalize_def
      nextRevisionLocked_def put_subscription_def CaptureSnapshot_def capture_updates_def normalizeSyncProfiles_def admitEnvelopes_def
      SubscriberKindNone_def SubscriberKindPlayer_def SyncFullReasonNone_def SyncFullReasonResync_def no_profile_def Let_def)

lemma demo_entered_reachable: "subject_reachable demo_reading (\<lambda>w. w) (demo_coordinator, demo_subject, \<lambda>_. 0, demo_entered, None)"
proof (rule subject_reachable.step [OF subject_reachable.initial subject_step.subscribe [OF demo_subscribe]])
  show "NewSubjectSyncState \<lparr>cp_Enabled = True, cp_SubjectID = 7, cp_Namespace = ''room'', cp_SubjectKind = 1, cp_Packer = Some demo_packer\<rparr> =
      Some demo_subject"
    by (simp add: NewSubjectSyncState_def demo_subject_def)
qed (use demo_laws in simp_all)

definition demo_marked :: "(u8 content, DeliveryEnvelope list) SubjectSyncState" where
  "demo_marked = demo_subject\<lparr>sj_dirtyMask := 1, sj_dirtyGeneration := 1\<rparr>"

lemma demo_marked_reachable: "subject_reachable demo_reading (\<lambda>w. w) (demo_coordinator, demo_marked, (\<lambda>_. 0)(0 := 9), demo_entered, None)"
proof (rule subject_reachable.step [OF demo_entered_reachable subject_step.change])
  show "\<forall>i. ((\<lambda>_. 0 :: u8)(0 := 9)) i \<noteq> 0 \<longrightarrow> bit (1 :: u64) i" by simp
  show "MarkDirty demo_subject 1 demo_entered = (demo_marked, demo_entered)"
    by (simp add: MarkDirty_def demo_marked_def demo_subject_def notifySubjectSyncDirty_def)
qed (simp add: demo_subject_def word_gt_0)

definition demo_inflight :: "(u8 content, DeliveryEnvelope list) SubjectSyncState" where
  "demo_inflight = demo_marked\<lparr>sj_nextToken := 1, sj_inflightToken := 1\<rparr>"

definition demo_prepared :: PreparedSubjectSync where
  "demo_prepared = \<lparr>pp_token = 1, pp_generation = 1, pp_baseVersion = 0, pp_version = 1, pp_updates = [\<lparr>up_SubjectID = 7,
     up_Namespace = ''room'', up_SubjectKind = 1, up_Profile = demo_profile, up_Version = 1, up_BaseVersion = 0, up_Mask = 1,
     up_Full = False, up_Reason = 0, up_Payload = \<lparr>fz_codec = 1, fz_data = [9]\<rparr>\<rparr>], pp_finished = False\<rparr>"

lemma demo_inflight_reachable:
  "subject_reachable demo_reading (\<lambda>w. w) (demo_coordinator, demo_inflight, (\<lambda>_. 0)(0 := 9), demo_entered, Some demo_prepared)"
proof (rule subject_reachable.step [OF demo_marked_reachable subject_step.prepare])
  show "Prepare demo_marked None ((\<lambda>_. 0)(0 := 9)) [demo_profile] = (demo_inflight, Inr demo_prepared)"
    by (simp add: Prepare_def prepareLocked_def normalizeSyncProfiles_def demo_marked_def demo_subject_def demo_inflight_def demo_prepared_def
        demo_profile_def demo_packer_def profile_Normalize_def)
qed (simp add: demo_marked_def demo_subject_def word_gt_0)

text \<open>
  C7. The subject is used as \<open>FlushSubject\<close> does: an update that was prepared is given to \<open>Distribute\<close> or
  aborted, once, and not committed past the subscribers. In every reachable state in which the subject
  is open and has no dirty mark, every subscriber in the table is active, is recorded at the version of
  the content, and the envelopes admitted for it make its view the one of the present content, whatever
  changes, subscriptions, failed or late distributions, refusals of the sink and concurrent marks there
  were.
\<close>

theorem subscribers_converge:
  assumes "subject_reachable rd admitted (co, s, c, w, fl)" "sj_enabled s" "\<not> PendingDirty s"
    "sub_Get co r (sj_subjectID s) = Some sb"
  shows "sb_State sb = SubscriptionActive \<and> sb_ContentVersion sb = sj_version s
    \<and> views rd admitted w (subscriber_Normalize r) = Some (rd_view rd (sb_Profile sb) c)"
  using views_current [OF subject_reachable_ok [OF assms(1)] assms(2,3) assms(4) [unfolded sub_Get_def]] by simp

theorem subscribers_converge_witness:
  "sub_Get demo_coordinator demo_player (sj_subjectID demo_subject) = Some demo_subscription
    \<and> views demo_reading (\<lambda>w. w) demo_entered (subscriber_Normalize demo_player) = Some 0"
proof -
  have get: "sub_Get demo_coordinator demo_player (sj_subjectID demo_subject) = Some demo_subscription"
    by (simp add: sub_Get_def demo_coordinator_def demo_subject_def demo_player_def subscriber_Normalize_def SubscriberKindNone_def)
  show ?thesis
    using get subscribers_converge [OF demo_entered_reachable _ _ get]
    by (simp add: demo_subject_def PendingDirty_def demo_reading_def)
qed

text \<open>
  C8. A flush of an open subject with nothing in flight, a packer that does not fail and a sink that admits
  returns without error, leaves nothing dirty and loses no subscriber, and then every subscriber is at the new
  version and views the present content.
\<close>

theorem flush_delivers:
  assumes "subject_reachable rd admitted (co, s, c, w, None)" "sj_enabled s" "sj_subjectID s \<noteq> 0" "sj_nextToken s < -1"
    "sj_packer s = Some pk" "packer_total pk" "sc_sink co = Some sink" "sink_admits sink"
  shows "\<exists>co' s' w'. FlushSubject co s None None c w = (co', s', w', None) \<and> \<not> PendingDirty s'
    \<and> dom (map_of (sc_subscriptions co')) = dom (map_of (sc_subscriptions co))
    \<and> (\<forall>sb \<in> set (govalues (sc_subscriptions co')). sb_ContentVersion sb = sj_version s'
         \<and> views rd admitted w' (sb_Subscriber sb) = Some (rd_view rd (sb_Profile sb) c))"
proof -
  note ok = subject_reachable_ok [OF assms(1)]
  obtain co' s' w' where f: "FlushSubject co s None None c w = (co', s', w', None)" "\<not> PendingDirty s'" "sj_enabled s'"
    using flush_total [OF ok assms(2-8)] by blast
  have ok': "subject_ok rd admitted (co', s', c, w', None)" by (rule flush_ok [OF ok assms(4) f(1)])
  have "sb_ContentVersion sb = sj_version s' \<and> views rd admitted w' (sb_Subscriber sb) = Some (rd_view rd (sb_Profile sb) c)"
    if sb: "sb \<in> set (govalues (sc_subscriptions co'))" for sb
  proof -
    obtain key where "map_of (sc_subscriptions co') key = Some sb" using sb subject_okD(1) [OF ok'] by (auto simp: gomap_ok_def)
    then show ?thesis using views_current [OF ok' f(3,2)] by blast
  qed
  then show ?thesis using f flush_members [OF f(1)] by blast
qed

theorem flush_delivers_witness:
  "\<exists>co' s' w'. FlushSubject demo_coordinator demo_marked None None ((\<lambda>_. 0)(0 := 9)) demo_entered = (co', s', w', None) \<and> \<not> PendingDirty s'
    \<and> dom (map_of (sc_subscriptions co')) = {(demo_player, 7)}
    \<and> (\<forall>sb \<in> set (govalues (sc_subscriptions co')). sb_ContentVersion sb = sj_version s'
         \<and> views demo_reading (\<lambda>w. w) w' (sb_Subscriber sb) = Some 9)"
  using flush_delivers [OF demo_marked_reachable _ _ _ _ demo_laws(2) _ demo_laws(4)]
  by (simp add: demo_marked_def demo_subject_def demo_coordinator_def demo_reading_def word_gt_0)

text \<open>
  C9. A distribution that returns an error changes no subscription and keeps the version and every dirty
  mark, so a later flush sends the same fields again. For the update in flight, nothing was admitted
  while the subject is open, and the next update can be prepared. An update that was already finished
  changes nothing in the subject; but the sink is called before \<open>Commit\<close> looks at it, so when it is
  refused as finished its envelopes were admitted a second time.
\<close>

theorem distribute_all_or_nothing:
  assumes "subject_reachable rd admitted (co, s, c, w, fl)" "Distribute co s ctxErr w p = (co', s', p', w', Some e)"
    and "fl = Some p \<or> pp_finished p"
  shows "co' = co \<and> pp_finished p' \<and> sj_version s' = sj_version s \<and> sj_dirtyMask s' = sj_dirtyMask s \<and> sj_fullDirty s' = sj_fullDirty s
    \<and> (if pp_finished p
       then s' = s \<and> (if e = ErrSubjectSyncFinished
         then (\<exists>es. envelopes_for (by_profile (pp_updates p)) (sortSubscriptions (active_subscriptions co (up_SubjectID (pp_updates p ! 0)))) = Some es
           \<and> admitted w' = admitted w @ es)
         else admitted w' = admitted w)
       else sj_enabled s \<longrightarrow> admitted w' = admitted w \<and> sj_enabled s' \<and> sj_inflightToken s' = 0)"
proof -
  note ok = subject_okD [OF subject_reachable_ok [OF assms(1)]]
  from assms(2) show ?thesis
  proof (cases rule: Distribute_cases)
    case (refused cause aerr e')
    have m: "same_marks s s'" using refused(1) by (auto simp: AbortWithError_def Let_def same_marks_def split: if_splits)
    have f: "pp_finished p'" "pp_finished p \<Longrightarrow> s' = s" using refused(1) by (auto simp: AbortWithError_def Let_def split: if_splits)
    have "admitted w' = admitted w" using refused(4) admit_refused [OF _ ok(3)] by auto
    moreover have "sj_enabled s \<and> \<not> pp_finished p \<longrightarrow> sj_inflightToken s' = 0"
      using refused(1) ok(6) assms(3) by (auto simp: AbortWithError_def flight_ok_def Let_def split: if_splits)
    ultimately show ?thesis using m f refused(2,3,5) by (simp add: same_marks_def)
  next
    case (admitted subjectID sbs es cerr)
    show ?thesis
    proof (cases "pp_finished p")
      case True
      then have "p' = p" "s' = s" "e = ErrSubjectSyncFinished" "co' = co" using admitted(6-8) by (auto simp: prepared_Commit_def)
      moreover have "admitted w' = admitted w @ es" using admitted(5) admit_accepted [OF _ ok(3)] by (cases "es = []") simp_all
      ultimately show ?thesis using True admitted(1,3,4) by simp
    next
      case False
      then have fl: "fl = Some p" using assms(3) by blast
      have closed: "\<not> sj_enabled s" using prepared_Commit_enabled(1) [OF _ _ admitted(6)] ok(6) admitted(7) fl by auto
      have "pp_finished p'" using admitted(6) by (auto simp: prepared_Commit_def Let_def split: if_splits)
      then show ?thesis using False closed prepared_Commit_disabled [OF closed admitted(6)] admitted(7,8) by (auto simp: same_marks_def)
    qed
  qed
qed

text \<open>
  The update in flight is refused because the context of the caller ended. A finished update that is
  distributed again reaches the subscriber, whose view then is 9 although the content is 0 and nothing is marked.
\<close>

theorem distribute_all_or_nothing_witness:
  "(\<exists>s' p' w' e. Distribute demo_coordinator demo_inflight (Some (ErrSyncExternal 3)) demo_entered demo_prepared = (demo_coordinator, s', p', w', Some e)
     \<and> sj_dirtyMask s' = 1 \<and> w' = demo_entered \<and> sj_inflightToken s' = 0)
   \<and> (\<exists>w' es. Distribute demo_coordinator demo_subject None demo_entered (demo_prepared\<lparr>pp_finished := True\<rparr>)
        = (demo_coordinator, demo_subject, demo_prepared\<lparr>pp_finished := True\<rparr>, w', Some ErrSubjectSyncFinished)
      \<and> w' = demo_entered @ es \<and> views demo_reading (\<lambda>w. w) w' demo_player = Some 9 \<and> \<not> PendingDirty demo_subject)"
proof
  have d: "Distribute demo_coordinator demo_inflight (Some (ErrSyncExternal 3)) demo_entered demo_prepared =
      (demo_coordinator, demo_inflight\<lparr>sj_inflightToken := 0, sj_lastError := Some (ErrSyncExternal 3)\<rparr>, demo_prepared\<lparr>pp_finished := True\<rparr>,
       demo_entered, Some (ErrEnvelopeAdmission (Some (ErrSyncExternal 3))))"
    by (simp add: Distribute_def active_subscriptions_def sortSubscriptions_def by_profile_def admitEnvelopes_def aborted_def AbortWithError_def
        demo_coordinator_def demo_inflight_def demo_prepared_def demo_marked_def demo_subject_def demo_subscription_def demo_profile_def
        profile_Normalize_def)
  from distribute_all_or_nothing [OF demo_inflight_reachable d] d
  show "\<exists>s' p' w' e. Distribute demo_coordinator demo_inflight (Some (ErrSyncExternal 3)) demo_entered demo_prepared = (demo_coordinator, s', p', w', Some e)
     \<and> sj_dirtyMask s' = 1 \<and> w' = demo_entered \<and> sj_inflightToken s' = 0"
    by (simp add: demo_inflight_def demo_marked_def demo_subject_def demo_prepared_def)
next
  let ?p = "demo_prepared\<lparr>pp_finished := True\<rparr>"
  let ?w = "demo_entered @ [\<lparr>de_Subscriber = demo_player, de_Kind = EnvelopeDelta, de_Update = hd (pp_updates demo_prepared)\<rparr>]"
  have d: "Distribute demo_coordinator demo_subject None demo_entered ?p = (demo_coordinator, demo_subject, ?p, ?w, Some ErrSubjectSyncFinished)"
    by (simp add: Distribute_def active_subscriptions_def sortSubscriptions_def by_profile_def admitEnvelopes_def prepared_Commit_def
        demo_coordinator_def demo_prepared_def demo_subject_def demo_subscription_def demo_profile_def profile_Normalize_def demo_sink_def)
  have "views demo_reading (\<lambda>w. w) ?w demo_player = Some 9" "\<not> PendingDirty demo_subject"
    by (simp_all add: views_def receive_def demo_entered_def demo_prepared_def demo_reading_def PendingDirty_def demo_subject_def)
  with distribute_all_or_nothing [OF demo_entered_reachable d] d
  show "\<exists>w' es. Distribute demo_coordinator demo_subject None demo_entered ?p = (demo_coordinator, demo_subject, ?p, w', Some ErrSubjectSyncFinished)
      \<and> w' = demo_entered @ es \<and> views demo_reading (\<lambda>w. w) w' demo_player = Some 9 \<and> \<not> PendingDirty demo_subject"
    by blast
qed

end
