(* ===== verification/Spec2Isabelle.thy ===== *)
theory Spec2Isabelle
  imports Repl_Delta Repl_Datagram Repl_Session Repl_Lod Repl_Replicator Sync_Journal Subscription_Converge
begin

text \<open>
  Verification of cube-core, a Go runtime for authoritative game servers (\<open>src/\<close>). The development covers
  the three parts of it that carry state from the server to those who watch it.

  \<^bold>\<open>Room replication\<close> (\<open>src/replication\<close>). A shadow store holds the objects of a room; a snapshot of it is
  published per tick into a ring. For every session the replicator projects the newest snapshot, diffs it
  against the one the client acknowledged, encodes the frame, cuts it into checksummed packets and hands
  them to a transport; the client reassembles, decodes, applies, and answers with control messages.

  \<^bold>\<open>State streams\<close> (\<open>src/syncstream\<close>). A history numbers the packets of many streams, retains some of them,
  takes acknowledgements, and decides between a replay and a full snapshot. A journal in files makes it
  survive a crash.

  \<^bold>\<open>Entity subscriptions\<close> (\<open>src/entity/subject_sync.go\<close>, \<open>src/entitysync\<close>). An entity marks its fields
  dirty; a coordinator packs them per profile and distributes them to subscribers, all or nothing.

  \<^bold>\<open>Theories and sources.\<close>
  \<^item> \<open>Prelude\<close>: machine integers, byte strings and big-endian fields, Go maps, sorting, results; the
    interfaces \<open>wire_format\<close> and \<open>exact_wire_format\<close> of a reader and a writer.
  \<^item> \<open>Checksum\<close>: CRC-32 and FNV-1a; the interfaces \<open>byte_hash\<close> and \<open>sealed_packet\<close>.
  \<^item> \<open>Repl_Types\<close>: \<open>types.go\<close>, \<open>snapshot.go\<close>. Limits, references, snapshots and their canonical form.
  \<^item> \<open>Repl_Codec\<close>: \<open>codec.go\<close>. The validator, encoder and decoder of frames.
  \<^item> \<open>Repl_Delta\<close>: \<open>delta.go\<close>. Diffs of snapshots and their application.
  \<^item> \<open>Repl_Datagram\<close>: \<open>datagram.go\<close>. Packets and the reassembler.
  \<^item> \<open>Repl_Control\<close>: \<open>control.go\<close>. Control messages.
  \<^item> \<open>Repl_Session\<close>: \<open>ring.go\<close>, \<open>session.go\<close>; the interface \<open>snapshot_store\<close>, which both implement.
  \<^item> \<open>Repl_Shadow\<close>: \<open>shadow.go\<close>, \<open>schema.go\<close>.
  \<^item> \<open>Repl_Lod\<close>: \<open>lod.go\<close> and the projectors of \<open>transport.go\<close>.
  \<^item> \<open>Repl_Replicator\<close>: \<open>replicator.go\<close>, \<open>transport.go\<close>, the handler of \<open>control.go\<close>.
  \<^item> \<open>Sync_Stream\<close>: \<open>syncstream.go\<close>, \<open>lifecycle_journal.go\<close>, \<open>observability.go\<close>.
  \<^item> \<open>Sync_Journal\<close>: \<open>file_journal.go\<close>; the interfaces \<open>journal_laws\<close> and \<open>checkpoint_laws\<close>, what a history
    relies on in its journal.
  \<^item> \<open>Subject_Sync\<close>: \<open>entity/subject_sync.go\<close>. \<open>Subscription\<close>: \<open>entitysync/subscription.go\<close>.
    \<open>Subscription_Converge\<close>: the two together.

  A Go struct is a record with the fields of the source behind a prefix, a method is a function that
  returns the changed record, an error return is \<open>Inl\<close>. Definitions have the names of the functions they
  model; a name that clashes has the name of its type in front. Helpers that stand for a loop or a branch
  of a method are mapped to its lines.

  \<^bold>\<open>What is shown.\<close>
  \<^item> Codecs: encoding and decoding are inverse and exact for frames, packets and control messages, and
    one changed byte is noticed (\<open>Repl_Codec\<close>, \<open>Repl_Datagram\<close>, \<open>Repl_Control\<close>).
  \<^item> Snapshots and deltas: canonical form, application inverts the diff when the union of both snapshots
    keeps the limits, what is applied is safe (\<open>Repl_Types\<close>, \<open>Repl_Delta\<close>).
  \<^item> Reassembly in any order, within bounds (\<open>Repl_Datagram\<close>).
  \<^item> Invariants and refinements: the ring is a window, the shadow store an abstract room, sessions keep
    their invariant, baselines are acknowledged snapshots (\<open>Repl_Session\<close>, \<open>Repl_Shadow\<close>).
  \<^item> Projections show exactly what the decision allows, and rate limits hold (\<open>Repl_Lod\<close>).
  \<^item> The replicator: an invariant over all its methods, sending is all or nothing, removed sessions stay
    dead (\<open>Repl_Replicator\<close>); and, below, the path from a published snapshot to the client.
  \<^item> Streams: recovery converges, resynchronisation replays, export and import are inverse
    (\<open>Sync_Stream\<close>); what is recovered from the files is the live history, checkpoints are atomic
    (\<open>Sync_Journal\<close>).
  \<^item> Subscriptions: subscribers hold the content, a flush delivers, a failed distribution keeps every
    mark (\<open>Subscription_Converge\<close>).
  \<^item> Where the code does not do this, a theorem shows how: \<open>full_room_delta_refused\<close>,
    \<open>removal_frame_unchecked\<close>, \<open>empty_chunk_counted_twice\<close>, \<open>sequence_wrap_stuck\<close>,
    \<open>acknowledge_cancels_force_full\<close>, \<open>unsynced_record_breaks_log\<close>, \<open>torn_tail_breaks_log\<close>,
    \<open>import_breaks_log\<close>, and the second half of \<open>distribute_all_or_nothing\<close>.

  \<^bold>\<open>Abstractions.\<close> All recursion is structural or has a termination proof; there is no fuel. A method
  that holds the mutex of its object is one step; where a method takes the mutex twice, it reads two
  states with any other steps in between. Transports, projectors, selectors, packers, sinks, recorders and
  the clock are arguments; what is assumed of them is a named predicate (\<open>packer_ok\<close>, \<open>sink_ok\<close>) and
  shown to hold for an instance. Words keep their width and wrap. Go's \<open>int\<close> is unbounded: it counts
  elements and configured limits, and the code doubles such a limit, which differs from the model only
  for limits of \<open>2 ^ 62\<close> and more. The counters of \<open>lod.go\<close> are natural numbers. Nil receivers are not
  modelled, and methods that a transport or sink would call back into are not interleaved with their
  caller. A file of the journal is what it decodes to.

  \<^bold>\<open>Not modelled.\<close> The runtime around these parts: the entity runtime and remote entities
  (\<open>entity/\<close> except \<open>subject_sync.go\<close>), the dispatcher (\<open>nest\<close>), persistence (\<open>checkpoint\<close>, \<open>cache\<close>), and
  the clients of external services (\<open>bus\<close>, \<open>nats\<close>, \<open>redis\<close>, \<open>mongo\<close>, \<open>etcd\<close>, \<open>http*\<close>), because what they
  promise rests on those services, on the scheduler and the memory model of Go, or on goroutine
  identity; start-up, administration, configuration, logging and metrics, which are input and output;
  and the utilities of \<open>misc\<close>, \<open>map\<close>, \<open>lock\<close>, \<open>worker\<close>, \<open>timer\<close>, \<open>query\<close> and \<open>security\<close>, which the parts above do
  not call. Of the modelled packages, \<open>ExportMetrics\<close> (floating point gauges), the file names and the
  JSON text of the journal are left out.
\<close>

section \<open>From the server to the client\<close>

text \<open>The snapshot a client has to hold to read a frame: none for a full frame, the one of the tick it
  acknowledged last for a delta.\<close>

definition client_base :: "'w Replicator \<Rightarrow> PreparedFrame \<Rightarrow> Snapshot option" where
  "client_base r pf =
     (if fr_Kind (pf_Frame pf) = FrameFull then None
      else map_of (ss_sent (rp_store r ! pf_state pf)) (ss_ackTick (rp_store r ! pf_state pf)))"

definition frame_key :: "SessionID \<Rightarrow> PreparedFrame \<Rightarrow> assemblyKey" where
  "frame_key session pf = \<lparr>ak_session = session, ak_roomID = meta_RoomID (fr_Meta (pf_Frame pf)),
     ak_epoch = meta_Epoch (fr_Meta (pf_Frame pf)), ak_tick = meta_Tick (fr_Meta (pf_Frame pf)),
     ak_sequence = pf_sequence pf\<rparr>"

text \<open>The reassembler of the client has room for the frame and does not know it yet.\<close>

definition ready :: "Reassembler \<Rightarrow> Limits \<Rightarrow> assemblyKey \<Rightarrow> int \<Rightarrow> bool" where
  "ready ra limits key t \<longleftrightarrow> ra_limits ra = limits \<and> gomap_ok (ra_inflight ra) \<and> map_of (ra_inflight ra) key = None
     \<and> int (length (ra_inflight (fst (expireLocked ra t)))) < MaxInflightFrames limits"

text \<open>Packet \<open>i0\<close> arrives at time \<open>t\<close>, then \<open>evs\<close>, last the missing packet \<open>j\<close>, before the assembly expires.\<close>

definition delivery :: "Reassembler \<Rightarrow> SessionID \<Rightarrow> assemblyKey \<Rightarrow> bytes list \<Rightarrow> nat \<Rightarrow> int
    \<Rightarrow> (SessionID \<times> bytes \<times> int) list \<Rightarrow> nat \<Rightarrow> int \<Rightarrow> bool" where
  "delivery ra session key ps i0 t evs j now \<longleftrightarrow> i0 < length ps \<and> j < length ps \<and> i0 \<noteq> j \<and> t \<noteq> 0 \<and> now \<noteq> 0
     \<and> now - t < ra_ttl ra \<and> arrivals (ra_limits ra) (ra_ttl ra) session key ps j t evs
     \<and> insert i0 (arrived session ps j evs) = {..<length ps} - {j}"

lemma prepared_wire:
  assumes "replicator_ok r" "PrepareLatest r sid = (r', Inr pf)" "wire_limits (rp_limits r)"
  shows "\<exists>encoded. DecodeFrame encoded (rp_limits r) = Inr (pf_Frame pf)
    \<and> FragmentFrame (pf_Frame pf) (pf_sequence pf) encoded (rp_maxDatagram r) (rp_limits r) = Inr (pf_Datagrams pf)"
    and "BuildDelta (client_base r pf) (pf_snapshot pf) = Inr (pf_Frame pf)"
    and "snapshot_ok (rp_limits r) (pf_snapshot pf)"
    and "client_base r pf = Some b \<Longrightarrow> snapshot_ok (rp_limits r) b"
proof -
  obtain a where a: "repl_session r sid = Inr a" "prepareLatest r a = (r', Inr pf)" using assms(2) by (rule PrepareLatest_Inr)
  obtain current s pr encoded where p: "session_prepare (rp_store r ! a) (sn_Tick current) = (s, Inr pr)"
      "encode_prepared r pr current = Inr (pf_snapshot pf, pf_Frame pf, encoded, pf_Datagrams pf)"
      "pf_state pf = a" "pf_sequence pf = pr_sequence pr"
    using a(2) by (rule prepareLatest_Inr)
  have l: "limits_pos (rp_limits r)" using assms(1) by (simp add: replicator_ok_def)
  note e = encode_prepared_Inr [OF p(2) l]
  have "int (length encoded) \<le> MaxFrameBytes (rp_limits r)"
    using FragmentFrame_fragmented [OF e(5)] l by (auto simp: fragmented_def normalizeLimits_id)
  then have "DecodeFrame encoded (rp_limits r) = Inr (pf_Frame pf)"
    using EncodeFrame_Inr [OF e(4)] decode_put_frame [of "rp_limits r" "pf_Frame pf"] assms(3) l by (simp add: normalizeLimits_id)
  with e(5) p(4) show "\<exists>encoded. DecodeFrame encoded (rp_limits r) = Inr (pf_Frame pf)
    \<and> FragmentFrame (pf_Frame pf) (pf_sequence pf) encoded (rp_maxDatagram r) (rp_limits r) = Inr (pf_Datagrams pf)" by auto
  show "snapshot_ok (rp_limits r) (pf_snapshot pf)" by (rule e(1))
  have ad: "a < length (rp_store r)" by (rule session_addr(1) [OF assms(1) a(1)])
  have base: "pr_base pr = client_base r pf"
  proof (cases "pr_base pr")
    case None
    with e(3) have "fr_Kind (pf_Frame pf) = FrameFull" by (auto simp: BuildDelta_def result_Inr dest!: sym [of _ "pf_Frame pf"])
    with None show ?thesis by (simp add: client_base_def)
  next
    case (Some b)
    with e(3) have "fr_Kind (pf_Frame pf) = FrameDelta" using BuildDelta_Some_Inr(1) by fastforce
    with Some p(1,3) show ?thesis
      by (auto simp: client_base_def session_prepare_def Let_def split: if_splits option.splits)
  qed
  show "BuildDelta (client_base r pf) (pf_snapshot pf) = Inr (pf_Frame pf)" using e(3) unfolding base .
  show "snapshot_ok (rp_limits r) b" if "client_base r pf = Some b"
    using that replicator_ok_at(1) [OF assms(1) ad] p(3) by (auto simp: client_base_def session_good_def split: if_splits)
qed


lemma delivered:
  assumes "FragmentFrame f seq encoded md l = Inr ps" "limits_pos l"
    and key: "key = \<lparr>ak_session = session, ak_roomID = meta_RoomID (fr_Meta f), ak_epoch = meta_Epoch (fr_Meta f),
      ak_tick = meta_Tick (fr_Meta f), ak_sequence = seq\<rparr>"
    and "ready ra l key t"
  shows "length ps = 1 \<Longrightarrow> \<exists>h. snd (push clock ra session (ps ! 0) t) = (encoded, True, h, None)"
    and "1 < length ps \<Longrightarrow> delivery ra session key ps i0 t evs j now \<Longrightarrow>
      \<exists>h. last (snd (push_all clock ra ((session, ps ! i0, t) # evs @ [(session, ps ! j, now)]))) = (encoded, True, h, None)"
proof -
  obtain k n where fr: "fragmented f seq encoded l k n ps"
    using FragmentFrame_fragmented [OF assms(1)] assms(2) by (auto simp: normalizeLimits_id)
  have n: "n = length ps" using fr by (simp add: fragmented_def)
  have frag: "\<forall>i<n. is_fragment (ra_limits ra) session key (fr_BaseTick f) (frame_flags f) (chunk k encoded) n i (ps ! i)"
    using fragment_is_fragment [of f seq encoded l k n ps] fr assms(2,4) by (simp add: normalizeLimits_id key ready_def)
  show "\<exists>h. snd (push clock ra session (ps ! 0) t) = (encoded, True, h, None)" if one: "length ps = 1"
  proof -
    obtain h where h: "decodeDatagram (ps ! 0) (ra_limits ra) = Inr (h, chunk k encoded 0)" "unat (dh_ChunkCount h) = 1"
      using frag [rule_format, of 0] one n unfolding is_fragment_def by auto
    have "dh_ChunkCount h = 1" using h(2) by (metis unat_1 word_unat_eq_iff)
    moreover have "chunk k encoded 0 = encoded" using fragmented_concat(1) [OF fr] one n by simp
    ultimately show ?thesis using h(1) by (simp add: push_def DecodeDatagram_def Let_def)
  qed
  show "\<exists>h. last (snd (push_all clock ra ((session, ps ! i0, t) # evs @ [(session, ps ! j, now)]))) = (encoded, True, h, None)"
    if "1 < length ps" "delivery ra session key ps i0 t evs j now"
  proof -
    have "int (\<Sum>i<n. length (chunk k encoded i)) \<le> MaxFrameBytes (ra_limits ra)"
      using fragmented_concat(2) [OF fr] assms(4) by (simp add: ready_def)
    with reassembly [OF frag n, of i0 j t evs now clock] that assms(4) n fragmented_concat(1) [OF fr]
    show ?thesis by (simp add: ready_def delivery_def)
  qed
qed

text \<open>
  C1. What the server prepares the client rebuilds. In every reachable state of a replicator whose
  component limit fits the wire, the packets of a frame that \<open>PrepareLatest\<close> returns, delivered in any
  order, repeated and mixed with other traffic, make the reassembler of the client, which has the same
  limits and room for the frame, return before it expires an encoding that decodes to the prepared frame;
  and applying that frame to the snapshot the client acknowledged last (to nothing, for a full frame)
  gives exactly the projected snapshot of the server, provided the union of the objects of these two
  snapshots, and of the components of each updated object, keeps the limits (\<open>delta_fits\<close>; without it the
  client may refuse the frame, see \<open>full_room_delta_refused\<close>).
\<close>

theorem replication_end_to_end:
  assumes "reachable config (r, w, pool)" "PrepareLatest r sid = (r', Inr pf)" "wire_limits (rp_limits r)"
    and "\<forall>b. client_base r pf = Some b \<longrightarrow> delta_fits (rp_limits r) (sn_Objects b) (sn_Objects (pf_snapshot pf))"
    and "ready ra (rp_limits r) (frame_key session pf) t"
  shows "\<exists>encoded. DecodeFrame encoded (rp_limits r) = Inr (pf_Frame pf)
    \<and> ApplyDelta (client_base r pf) (pf_Frame pf) (rp_limits r) = Inr (pf_snapshot pf)
    \<and> (length (pf_Datagrams pf) = 1 \<longrightarrow>
        (\<exists>h. snd (push clock ra session (pf_Datagrams pf ! 0) t) = (encoded, True, h, None)))
    \<and> (1 < length (pf_Datagrams pf) \<and> delivery ra session (frame_key session pf) (pf_Datagrams pf) i0 t evs j now \<longrightarrow>
        (\<exists>h. last (snd (push_all clock ra ((session, pf_Datagrams pf ! i0, t) # evs @ [(session, pf_Datagrams pf ! j, now)])))
          = (encoded, True, h, None)))"
proof -
  have ok: "replicator_ok r" using reachable_ok [OF assms(1)] by (simp add: system_ok_def)
  then have l: "limits_pos (rp_limits r)" by (simp add: replicator_ok_def)
  note wire = prepared_wire [OF ok assms(2,3)]
  obtain encoded where enc: "DecodeFrame encoded (rp_limits r) = Inr (pf_Frame pf)"
    "FragmentFrame (pf_Frame pf) (pf_sequence pf) encoded (rp_maxDatagram r) (rp_limits r) = Inr (pf_Datagrams pf)"
    using wire(1) by blast
  have "ApplyDelta (client_base r pf) (pf_Frame pf) (rp_limits r) = Inr (pf_snapshot pf)"
    by (rule delta_roundtrip_aux [OF wire(2)]) (use wire(3,4) assms(4) l in \<open>simp_all add: normalizeLimits_id\<close>)
  with enc(1) delivered [OF enc(2) l frame_key_def assms(5)] show ?thesis by blast
qed


text \<open>The second packet arrives first.\<close>

theorem replication_end_to_end_witness:
  "\<exists>k pf encoded h. snd (PrepareLatest (ex_room ex_ring2 [(4, 0)] [ex_state3] k) 4) = Inr pf
    \<and> ApplyDelta (Some ex_base) (pf_Frame pf) ex_limits = Inr ex_cur
    \<and> DecodeFrame encoded ex_limits = Inr (pf_Frame pf)
    \<and> last (snd (push_all 0 (NewReassembler ex_limits 0) [(4, pf_Datagrams pf ! 1, 100), (4, pf_Datagrams pf ! 0, 200)]))
       = (encoded, True, h, None)"
proof -
  let ?r = "\<lambda>k. ex_room ex_ring2 [(4, 0)] [ex_state3] k" and ?ra = "NewReassembler ex_limits 0"
  obtain k pool where r: "reachable ex_config (?r k, [], pool)" using ex_reachable by blast
  obtain r' pf where p: "prepareLatest (?r k) 0 = (r', Inr pf)"
      "pf_Frame pf = ex_frame" "pf_state pf = 0" "pf_snapshot pf = ex_cur" "length (pf_Datagrams pf) = 2"
    using ex_prepared by blast
  have "repl_session (?r k) 4 = Inr 0" by (simp add: repl_session_def)
  with p(1) have prep: "PrepareLatest (?r k) 4 = (r', Inr pf)" by (simp add: PrepareLatest_def)
  have "map_of (ss_sent ex_state3) (ss_ackTick ex_state3) = Some ex_base" by code_simp
  with p ex_frames(9) have base: "client_base (?r k) pf = Some ex_base" by (simp add: client_base_def)
  have wl: "wire_limits ex_limits" and fits: "delta_fits ex_limits (sn_Objects ex_base) (sn_Objects ex_cur)" by code_simp+
  have rd: "ready ?ra ex_limits (frame_key 4 pf) 100"
    by (simp add: ready_def NewReassembler_def expireLocked_def) (simp add: ex_limits_def DefaultLimits_def)
  have dl: "delivery ?ra 4 (frame_key 4 pf) (pf_Datagrams pf) 1 100 [] 0 200"
    using p(5) by (auto simp: delivery_def arrivals_def arrived_def NewReassembler_def)
  have "\<exists>encoded. DecodeFrame encoded (rp_limits (?r k)) = Inr (pf_Frame pf)
    \<and> ApplyDelta (client_base (?r k) pf) (pf_Frame pf) (rp_limits (?r k)) = Inr (pf_snapshot pf)
    \<and> (length (pf_Datagrams pf) = 1 \<longrightarrow>
        (\<exists>h. snd (push 0 ?ra 4 (pf_Datagrams pf ! 0) 100) = (encoded, True, h, None)))
    \<and> (1 < length (pf_Datagrams pf) \<and> delivery ?ra 4 (frame_key 4 pf) (pf_Datagrams pf) 1 100 [] 0 200 \<longrightarrow>
        (\<exists>h. last (snd (push_all 0 ?ra ((4, pf_Datagrams pf ! 1, 100) # [] @ [(4, pf_Datagrams pf ! 0, 200)])))
          = (encoded, True, h, None)))"
    by (rule replication_end_to_end [OF r prep]) (use wl fits rd base p(4) in simp_all)
  with dl p(4,5) base prep show ?thesis by (fastforce intro: exI [of _ k])
qed

end
